(* ===== verification/Nabi_Prelude.thy ===== *)
theory Nabi_Prelude
  imports Main "HOL-Library.Word"
begin

text \<open>
  Shared vocabulary of the development: the fixed-width integer types of the C
  sources, the error numbers the modelled system calls answer with, the rounding
  helpers of \<^verbatim>\<open>include/util/misc.h\<close>, little-endian byte images of machine
  words (what \<^verbatim>\<open>memcpy\<close> of an integer leaves in a buffer on both supported
  architectures), and generic lemmas on lists and words that several components use.
\<close>

unbundle bit_operations_syntax

section \<open>Integer types\<close>

type_synonym u8 = "8 word"
type_synonym u16 = "16 word"
type_synonym u32 = "32 word"
type_synonym u64 = "64 word"
type_synonym gaddr = "64 word"

section \<open>Proof collections\<close>

named_theorems align_simps "facts about rounding and alignment"
named_theorems byte_simps "facts about little-endian byte images"

section \<open>Error numbers\<close>

text \<open>
  One constructor per error number that a modelled function returns, and its
  value in \<^verbatim>\<open>include/linux/errno.h\<close>. A system call that returns
  \<^verbatim>\<open>-LINUX_EINVAL\<close> returns \<^term>\<open>Inl e\<close> here.
\<close>

datatype errno =
    LINUX_EPERM | LINUX_ENOENT | LINUX_ESRCH | LINUX_EINTR | LINUX_EIO | LINUX_E2BIG
  | LINUX_EBADF | LINUX_EAGAIN | LINUX_ENOMEM | LINUX_EACCES | LINUX_EFAULT
  | LINUX_EEXIST | LINUX_EINVAL | LINUX_ENOSPC | LINUX_ERANGE | LINUX_ENOSYS
  | LINUX_ENOMSG | LINUX_EIDRM | LINUX_EMSGSIZE | LINUX_EOPNOTSUPP | LINUX_ETIMEDOUT

type_synonym 'a res = "errno + 'a"

fun errno_no :: "errno \<Rightarrow> nat" where
  "errno_no LINUX_EPERM = 1"
| "errno_no LINUX_ENOENT = 2"
| "errno_no LINUX_ESRCH = 3"
| "errno_no LINUX_EINTR = 4"
| "errno_no LINUX_EIO = 5"
| "errno_no LINUX_E2BIG = 7"
| "errno_no LINUX_EBADF = 9"
| "errno_no LINUX_EAGAIN = 11"
| "errno_no LINUX_ENOMEM = 12"
| "errno_no LINUX_EACCES = 13"
| "errno_no LINUX_EFAULT = 14"
| "errno_no LINUX_EEXIST = 17"
| "errno_no LINUX_EINVAL = 22"
| "errno_no LINUX_ENOSPC = 28"
| "errno_no LINUX_ERANGE = 34"
| "errno_no LINUX_ENOSYS = 38"
| "errno_no LINUX_ENOMSG = 42"
| "errno_no LINUX_EIDRM = 43"
| "errno_no LINUX_EMSGSIZE = 90"
| "errno_no LINUX_EOPNOTSUPP = 95"
| "errno_no LINUX_ETIMEDOUT = 110"

section \<open>Rounding (\<^verbatim>\<open>include/util/misc.h\<close>)\<close>

definition rounddown :: "u64 \<Rightarrow> u64 \<Rightarrow> u64" where
  "rounddown x y = x div y * y"

definition roundup :: "u64 \<Rightarrow> u64 \<Rightarrow> u64" where
  "roundup x y = (x + y - 1) div y * y"

section \<open>Little-endian byte images\<close>

definition le_bytes :: "nat \<Rightarrow> 'a::len word \<Rightarrow> u8 list" where
  "le_bytes n w = map (\<lambda>i. ucast (drop_bit (8 * i) w)) [0..<n]"

definition le_word :: "u8 list \<Rightarrow> 'a::len word" where
  "le_word bs = foldr (\<lambda>b acc. ucast b OR push_bit 8 acc) bs 0"

lemma length_le_bytes [simp]: "length (le_bytes n w) = n"
  by (simp add: le_bytes_def)

lemma bit_le_word:
  "bit (le_word bs :: 'a::len word) i \<longleftrightarrow>
     i < LENGTH('a) \<and> i div 8 < length bs \<and> bit (bs ! (i div 8)) (i mod 8)"
proof (induction bs arbitrary: i)
  case Nil
  then show ?case by (simp add: le_word_def)
next
  case (Cons b bs)
  have step: "le_word (b # bs) = (ucast b OR push_bit 8 (le_word bs) :: 'a word)"
    by (simp add: le_word_def)
  show ?case
  proof (cases "i < 8")
    case True
    then show ?thesis
      by (auto simp: step bit_simps)
  next
    case False
    then obtain j where j: "i = j + 8"
      by (metis le_add_diff_inverse2 not_less)
    have "i div 8 = Suc (j div 8)" and "i mod 8 = j mod 8"
      by (simp_all add: j)
    moreover have "\<not> bit b i"
      using False bit_imp_le_length by fastforce
    ultimately show ?thesis
      using j by (auto simp: step bit_simps Cons.IH)
  qed
qed

lemma le_word_le_bytes [byte_simps]:
  fixes w :: "'a::len word"
  assumes "LENGTH('a) \<le> 8 * n"
  shows "le_word (le_bytes n w) = w"
proof (rule bit_word_eqI)
  fix i assume i: "i < LENGTH('a)"
  then have "i div 8 < n" using assms by auto
  moreover have "8 * (i div 8) + i mod 8 = i" by simp
  moreover have "i mod 8 < 8" by simp
  ultimately show "bit (le_word (le_bytes n w) :: 'a word) i = bit w i"
    using i by (simp add: bit_le_word le_bytes_def bit_simps del: mult_div_mod_eq)
qed

section \<open>Words\<close>

lemma ucast_down_add:
  fixes a b :: "'a::len word"
  assumes "LENGTH('b::len) \<le> LENGTH('a)"
  shows "(ucast (a + b) :: 'b word) = ucast a + ucast b"
proof -
  have "take_bit LENGTH('b) (unat (a + b)) = take_bit LENGTH('b) (unat a + unat b)"
    using assms by (simp add: unat_word_ariths take_bit_eq_mod mod_mod_cancel le_imp_power_dvd)
  then show ?thesis
    by (simp add: word_unat_eq_iff unat_word_ariths unsigned_ucast_eq take_bit_eq_mod mod_simps)
qed

lemma unat_ucast_small:
  fixes w :: "'a::len word"
  assumes "unat w < 2 ^ LENGTH('b::len)"
  shows "unat (ucast w :: 'b word) = unat w"
  using assms by (simp add: unsigned_ucast_eq take_bit_nat_eq_self)

lemma unat_ucast_up:
  fixes w :: "'a::len word"
  assumes "LENGTH('a) \<le> LENGTH('b::len)"
  shows "unat (ucast w :: 'b word) = unat w"
proof (rule unat_ucast_small)
  have "unat w < 2 ^ LENGTH('a)" by (rule unsigned_less)
  also have "\<dots> \<le> 2 ^ LENGTH('b)" using assms by (rule power_increasing) simp
  finally show "unat w < 2 ^ LENGTH('b)" .
qed

lemma ucast_ucast_up:
  fixes w :: "'a::len word"
  assumes "LENGTH('a) \<le> LENGTH('b::len)" and "LENGTH('a) \<le> LENGTH('c::len)"
  shows "(ucast (ucast w :: 'b word) :: 'c word) = ucast w"
proof -
  have "unat (ucast w :: 'b word) < 2 ^ LENGTH('c)"
    using assms less_le_trans [OF unsigned_less [of w] power_increasing [of _ _ "2 :: nat"]]
    by (simp add: unat_ucast_up)
  then show ?thesis
    using assms by (simp add: word_unat_eq_iff unat_ucast_small unat_ucast_up)
qed

lemma unat_of_nat_small:
  "n < 2 ^ LENGTH('a::len) \<Longrightarrow> unat (of_nat n :: 'a word) = n"
  by (simp add: unsigned_of_nat take_bit_nat_eq_self)

text \<open>A value that fits a C \<^verbatim>\<open>int\<close> survives the conversion to one and back.\<close>

lemma scast_ucast_small:
  fixes x :: u64
  assumes "unat x < 2 ^ 31"
  shows "scast (ucast x :: 32 word) = x" "sint x = int (unat x)"
proof -
  have "unat x < 2147483648"
    using assms by simp
  then have "int (unat x) < int 2147483648"
    by (simp only: of_nat_less_iff)
  then have lt: "uint x < 2147483648"
    by simp
  have st: "signed_take_bit n (uint x) = uint x" if "31 \<le> n" for n
  proof (rule signed_take_bit_int_eq_self)
    have "(2::int) ^ 31 \<le> 2 ^ n"
      using that by (intro power_increasing) auto
    then have le: "2147483648 \<le> (2::int) ^ n"
      by simp
    then show "uint x < 2 ^ n"
      using lt by linarith
    show "- (2 ^ n) \<le> uint x"
      using le uint_ge_0 [of x] by linarith
  qed
  show "sint x = int (unat x)"
    by (simp add: sint_uint st)
  have "uint (ucast x :: 32 word) = uint x"
    using lt by (simp add: unsigned_ucast_eq take_bit_int_eq_self)
  then have "sint (ucast x :: 32 word) = uint x"
    by (simp add: sint_uint st)
  then show "scast (ucast x :: 32 word) = x"
    by (simp add: scast_eq)
qed
lemma unat_between:
  fixes a b :: u64
  assumes "unat b \<le> unat a"
  shows "unat (a - b) = unat a - unat b"
  using assms by (simp add: unat_sub word_le_nat_alt)

section \<open>Partial maps\<close>

lemma map_eqI:
  fixes m m' :: "'a \<rightharpoonup> 'b"
  assumes "\<And>a c. m a = Some c \<longleftrightarrow> m' a = Some c"
  shows "m = m'"
proof
  fix a show "m a = m' a"
    using assms [of a] by (metis not_Some_eq)
qed

end
