(* ===== verification/Bpf.thy ===== *)
theory Bpf
  imports Nabi_Prelude
begin

text \<open>
  The classic BPF interpreter of \<^verbatim>\<open>src/src/proc/seccomp.c\<close>: the filter program
  format, the check made when a program is installed (\<^verbatim>\<open>bpf_verify\<close>) and the
  evaluator that runs it over a \<^verbatim>\<open>struct seccomp_data\<close> (\<^verbatim>\<open>bpf_run\<close>).
  The lemmas say which of the promises of the comment above \<^verbatim>\<open>bpf_verify\<close> hold
  of every accepted program, and exhibit the two accepted instructions for which they
  do not: both escape through the wrap-around of a 32-bit sum.
\<close>

section \<open>Instructions and data\<close>

record sock_filter =
  sf_code :: u16
  sf_jt :: u8
  sf_jf :: u8
  sf_k :: u32

record seccomp_data =
  sd_nr :: u32
  sd_arch :: u32
  sd_instruction_pointer :: u64
  sd_args :: "u64 list"

definition sizeof_seccomp_data :: nat where
  "sizeof_seccomp_data = 64"

text \<open>The structure as the bytes \<^verbatim>\<open>base\<close> points at in \<^verbatim>\<open>bpf_run\<close>.\<close>

definition seccomp_data_bytes :: "seccomp_data \<Rightarrow> u8 list" where
  "seccomp_data_bytes d =
     le_bytes 4 (sd_nr d) @ le_bytes 4 (sd_arch d) @
     le_bytes 8 (sd_instruction_pointer d) @ concat (map (le_bytes 8) (sd_args d))"

abbreviation (input) BPF_MAXINSNS :: nat where "BPF_MAXINSNS \<equiv> 4096"
abbreviation (input) BPF_MEMWORDS :: nat where "BPF_MEMWORDS \<equiv> 16"

abbreviation (input) SECCOMP_RET_KILL_PROCESS :: u32 where "SECCOMP_RET_KILL_PROCESS \<equiv> 0x80000000"

abbreviation (input) BPF_CLASS :: "u16 \<Rightarrow> u16" where "BPF_CLASS c \<equiv> c AND 0x07"
abbreviation (input) BPF_SIZE :: "u16 \<Rightarrow> u16" where "BPF_SIZE c \<equiv> c AND 0x18"
abbreviation (input) BPF_MODE :: "u16 \<Rightarrow> u16" where "BPF_MODE c \<equiv> c AND 0xe0"
abbreviation (input) BPF_OP :: "u16 \<Rightarrow> u16" where "BPF_OP c \<equiv> c AND 0xf0"
abbreviation (input) BPF_SRC :: "u16 \<Rightarrow> u16" where "BPF_SRC c \<equiv> c AND 0x08"
abbreviation (input) BPF_RVAL :: "u16 \<Rightarrow> u16" where "BPF_RVAL c \<equiv> c AND 0x18"

abbreviation (input) BPF_LD :: u16 where "BPF_LD \<equiv> 0x00"
abbreviation (input) BPF_LDX :: u16 where "BPF_LDX \<equiv> 0x01"
abbreviation (input) BPF_ST :: u16 where "BPF_ST \<equiv> 0x02"
abbreviation (input) BPF_STX :: u16 where "BPF_STX \<equiv> 0x03"
abbreviation (input) BPF_ALU :: u16 where "BPF_ALU \<equiv> 0x04"
abbreviation (input) BPF_JMP :: u16 where "BPF_JMP \<equiv> 0x05"
abbreviation (input) BPF_RET :: u16 where "BPF_RET \<equiv> 0x06"
abbreviation (input) BPF_MISC :: u16 where "BPF_MISC \<equiv> 0x07"

abbreviation (input) BPF_W :: u16 where "BPF_W \<equiv> 0x00"
abbreviation (input) BPF_IMM :: u16 where "BPF_IMM \<equiv> 0x00"
abbreviation (input) BPF_ABS :: u16 where "BPF_ABS \<equiv> 0x20"
abbreviation (input) BPF_MEM :: u16 where "BPF_MEM \<equiv> 0x60"
abbreviation (input) BPF_LEN :: u16 where "BPF_LEN \<equiv> 0x80"

abbreviation (input) BPF_ADD :: u16 where "BPF_ADD \<equiv> 0x00"
abbreviation (input) BPF_SUB :: u16 where "BPF_SUB \<equiv> 0x10"
abbreviation (input) BPF_MUL :: u16 where "BPF_MUL \<equiv> 0x20"
abbreviation (input) BPF_DIV :: u16 where "BPF_DIV \<equiv> 0x30"
abbreviation (input) BPF_OR :: u16 where "BPF_OR \<equiv> 0x40"
abbreviation (input) BPF_AND :: u16 where "BPF_AND \<equiv> 0x50"
abbreviation (input) BPF_LSH :: u16 where "BPF_LSH \<equiv> 0x60"
abbreviation (input) BPF_RSH :: u16 where "BPF_RSH \<equiv> 0x70"
abbreviation (input) BPF_NEG :: u16 where "BPF_NEG \<equiv> 0x80"
abbreviation (input) BPF_MOD :: u16 where "BPF_MOD \<equiv> 0x90"
abbreviation (input) BPF_XOR :: u16 where "BPF_XOR \<equiv> 0xa0"

abbreviation (input) BPF_JA :: u16 where "BPF_JA \<equiv> 0x00"
abbreviation (input) BPF_JEQ :: u16 where "BPF_JEQ \<equiv> 0x10"
abbreviation (input) BPF_JGT :: u16 where "BPF_JGT \<equiv> 0x20"
abbreviation (input) BPF_JGE :: u16 where "BPF_JGE \<equiv> 0x30"
abbreviation (input) BPF_JSET :: u16 where "BPF_JSET \<equiv> 0x40"

abbreviation (input) BPF_K :: u16 where "BPF_K \<equiv> 0x00"
abbreviation (input) BPF_X :: u16 where "BPF_X \<equiv> 0x08"
abbreviation (input) BPF_A :: u16 where "BPF_A \<equiv> 0x10"

section \<open>The install-time check\<close>

text \<open>
  One iteration of the loop of \<^verbatim>\<open>bpf_verify\<close>, as one function per instruction
  class. The sums are taken at the widths C gives them: \<^verbatim>\<open>f[pc].k + 4\<close> and
  \<^verbatim>\<open>pc + 1 + off\<close> are 32-bit unsigned and wrap, \<^verbatim>\<open>pc + 1 + f[pc].jt\<close>
  is an \<^verbatim>\<open>int\<close> that cannot.
\<close>

definition bpf_ld_ok :: "sock_filter \<Rightarrow> bool" where
  "bpf_ld_ok i =
     (BPF_SIZE (sf_code i) = BPF_W \<and>
      (let m = BPF_MODE (sf_code i) in
       if m = BPF_IMM \<or> m = BPF_LEN then True
       else if m = BPF_ABS then
         \<not> (sf_k i AND 3 \<noteq> 0 \<or> unat (sf_k i + 4) > sizeof_seccomp_data)
       else if m = BPF_MEM then unat (sf_k i) < BPF_MEMWORDS
       else False))"

definition bpf_ldx_ok :: "sock_filter \<Rightarrow> bool" where
  "bpf_ldx_ok i =
     (BPF_SIZE (sf_code i) = BPF_W \<and>
      (let m = BPF_MODE (sf_code i) in
       if m = BPF_MEM then unat (sf_k i) < BPF_MEMWORDS
       else m = BPF_IMM \<or> m = BPF_LEN))"

definition bpf_alu_ok :: "sock_filter \<Rightarrow> bool" where
  "bpf_alu_ok i =
     (let oper = BPF_OP (sf_code i) in
      if oper \<in> {BPF_ADD, BPF_SUB, BPF_MUL, BPF_OR, BPF_AND, BPF_LSH, BPF_RSH, BPF_NEG, BPF_XOR}
      then True
      else if oper \<in> {BPF_DIV, BPF_MOD}
      then \<not> (BPF_SRC (sf_code i) = BPF_K \<and> sf_k i = 0)
      else False)"

definition bpf_jmp_ok :: "u16 \<Rightarrow> nat \<Rightarrow> sock_filter \<Rightarrow> bool" where
  "bpf_jmp_ok len pc i =
     (let oper = BPF_OP (sf_code i) in
      if oper = BPF_JA then
        (let t = of_nat pc + 1 + sf_k i :: u32
         in \<not> (t \<ge> ucast len \<or> t < of_nat pc))
      else if oper \<in> {BPF_JEQ, BPF_JGT, BPF_JGE, BPF_JSET} then
        \<not> (pc + 1 + unat (sf_jt i) \<ge> unat len \<or> pc + 1 + unat (sf_jf i) \<ge> unat len)
      else False)"

definition bpf_insn_ok :: "u16 \<Rightarrow> nat \<Rightarrow> sock_filter \<Rightarrow> bool" where
  "bpf_insn_ok len pc i =
     (let cls = BPF_CLASS (sf_code i) in
      if cls = BPF_LD then bpf_ld_ok i
      else if cls = BPF_LDX then bpf_ldx_ok i
      else if cls = BPF_ST \<or> cls = BPF_STX then unat (sf_k i) < BPF_MEMWORDS
      else if cls = BPF_ALU then bpf_alu_ok i
      else if cls = BPF_JMP then bpf_jmp_ok len pc i
      else if cls = BPF_RET then
        BPF_RVAL (sf_code i) = BPF_K \<or> BPF_RVAL (sf_code i) = BPF_A
      else True)"

definition bpf_verify :: "sock_filter list \<Rightarrow> u16 \<Rightarrow> bool" where
  "bpf_verify f len =
     (if len = 0 \<or> unat len > BPF_MAXINSNS then False
      else if \<not> list_all (\<lambda>pc. bpf_insn_ok len pc (f ! pc)) [0..<unat len] then False
      else BPF_CLASS (sf_code (f ! (unat len - 1))) = BPF_RET)"

section \<open>The evaluator\<close>

record bpf_state =
  st_pc :: u16
  st_A :: u32
  st_X :: u32
  st_mem :: "u32 list"

text \<open>
  What one pass through the loop body does: go on, return an action, or touch memory
  outside \<^verbatim>\<open>mem\<close> or outside the \<^verbatim>\<open>struct seccomp_data\<close>, which C leaves
  undefined and the model makes a visible outcome.
\<close>

datatype bpf_next = Continue bpf_state | Return u32 | Fault

datatype bpf_outcome = Returned u32 | Out_of_bounds

definition load_abs :: "seccomp_data \<Rightarrow> u32 \<Rightarrow> u32 option" where
  "load_abs d k =
     (let bs = seccomp_data_bytes d in
      if unat k + 4 \<le> length bs then Some (le_word (take 4 (drop (unat k) bs))) else None)"

definition load_mem :: "bpf_state \<Rightarrow> u32 \<Rightarrow> u32 option" where
  "load_mem s k = (if unat k < length (st_mem s) then Some (st_mem s ! unat k) else None)"

definition bpf_set_A :: "bpf_state \<Rightarrow> u32 option \<Rightarrow> bpf_next" where
  "bpf_set_A s v = (case v of None \<Rightarrow> Fault | Some a \<Rightarrow> Continue (s\<lparr>st_A := a\<rparr>))"

definition bpf_set_X :: "bpf_state \<Rightarrow> u32 option \<Rightarrow> bpf_next" where
  "bpf_set_X s v = (case v of None \<Rightarrow> Fault | Some x \<Rightarrow> Continue (s\<lparr>st_X := x\<rparr>))"

definition bpf_store :: "bpf_state \<Rightarrow> u32 \<Rightarrow> u32 \<Rightarrow> bpf_next" where
  "bpf_store s k v =
     (if unat k < length (st_mem s)
      then Continue (s\<lparr>st_mem := (st_mem s)[unat k := v]\<rparr>) else Fault)"

definition bpf_exec_ld :: "seccomp_data \<Rightarrow> sock_filter \<Rightarrow> bpf_state \<Rightarrow> bpf_next" where
  "bpf_exec_ld d i s =
     (let m = BPF_MODE (sf_code i) in
      if m = BPF_IMM then bpf_set_A s (Some (sf_k i))
      else if m = BPF_LEN then bpf_set_A s (Some (of_nat sizeof_seccomp_data))
      else if m = BPF_MEM then bpf_set_A s (load_mem s (sf_k i))
      else bpf_set_A s (load_abs d (sf_k i)))"

definition bpf_exec_ldx :: "sock_filter \<Rightarrow> bpf_state \<Rightarrow> bpf_next" where
  "bpf_exec_ldx i s =
     (let m = BPF_MODE (sf_code i) in
      if m = BPF_IMM then bpf_set_X s (Some (sf_k i))
      else if m = BPF_LEN then bpf_set_X s (Some (of_nat sizeof_seccomp_data))
      else bpf_set_X s (load_mem s (sf_k i)))"

text \<open>The operand \<^verbatim>\<open>v\<close> of the arithmetic and conditional instructions.\<close>

definition bpf_operand :: "sock_filter \<Rightarrow> bpf_state \<Rightarrow> u32" where
  "bpf_operand i s = (if BPF_SRC (sf_code i) = BPF_X then st_X s else sf_k i)"

definition bpf_exec_alu :: "sock_filter \<Rightarrow> bpf_state \<Rightarrow> bpf_next" where
  "bpf_exec_alu i s =
     (let oper = BPF_OP (sf_code i); v = bpf_operand i s; a = st_A s;
          ret = (\<lambda>a'. Continue (s\<lparr>st_A := a'\<rparr>)) in
      if oper = BPF_ADD then ret (a + v)
      else if oper = BPF_SUB then ret (a - v)
      else if oper = BPF_MUL then ret (a * v)
      else if oper = BPF_DIV then
        (if v = 0 then Return SECCOMP_RET_KILL_PROCESS else ret (a div v))
      else if oper = BPF_MOD then
        (if v = 0 then Return SECCOMP_RET_KILL_PROCESS else ret (a mod v))
      else if oper = BPF_OR then ret (a OR v)
      else if oper = BPF_AND then ret (a AND v)
      else if oper = BPF_LSH then ret (if v < 32 then push_bit (unat v) a else 0)
      else if oper = BPF_RSH then ret (if v < 32 then drop_bit (unat v) a else 0)
      else if oper = BPF_XOR then ret (a XOR v)
      else if oper = BPF_NEG then ret (- a)
      else Continue s)"

definition bpf_exec_jmp :: "sock_filter \<Rightarrow> bpf_state \<Rightarrow> bpf_next" where
  "bpf_exec_jmp i s =
     (let oper = BPF_OP (sf_code i); v = bpf_operand i s; a = st_A s in
      if oper = BPF_JA then Continue (s\<lparr>st_pc := ucast (ucast (st_pc s) + sf_k i)\<rparr>)
      else
        (let t = (if oper = BPF_JEQ then a = v
                  else if oper = BPF_JGT then a > v
                  else if oper = BPF_JGE then a \<ge> v
                  else a AND v \<noteq> 0)
         in Continue (s\<lparr>st_pc := st_pc s + (if t then ucast (sf_jt i) else ucast (sf_jf i))\<rparr>)))"

definition bpf_exec :: "seccomp_data \<Rightarrow> sock_filter \<Rightarrow> bpf_state \<Rightarrow> bpf_next" where
  "bpf_exec d i s =
     (let cls = BPF_CLASS (sf_code i) in
      if cls = BPF_LD then bpf_exec_ld d i s
      else if cls = BPF_LDX then bpf_exec_ldx i s
      else if cls = BPF_ST then bpf_store s (sf_k i) (st_A s)
      else if cls = BPF_STX then bpf_store s (sf_k i) (st_X s)
      else if cls = BPF_ALU then bpf_exec_alu i s
      else if cls = BPF_JMP then bpf_exec_jmp i s
      else if cls = BPF_RET then
        Return (if BPF_RVAL (sf_code i) = BPF_A then st_A s else sf_k i)
      else if sf_code i AND 0x80 \<noteq> 0 then Continue (s\<lparr>st_A := st_X s\<rparr>)
      else Continue (s\<lparr>st_X := st_A s\<rparr>))"

text \<open>
  The loop: \<^term>\<open>None\<close> is a run that never ends. \<^verbatim>\<open>pc++\<close> is part of the
  iteration, after the switch.
\<close>

partial_function (option) bpf_loop ::
  "sock_filter list \<Rightarrow> u16 \<Rightarrow> seccomp_data \<Rightarrow> bpf_state \<Rightarrow> bpf_outcome option" where
  "bpf_loop f len d s =
     (if st_pc s < len then
        (case bpf_exec d (f ! unat (st_pc s)) s of
           Continue s' \<Rightarrow> bpf_loop f len d (s'\<lparr>st_pc := st_pc s' + 1\<rparr>)
         | Return r \<Rightarrow> Some (Returned r)
         | Fault \<Rightarrow> Some Out_of_bounds)
      else Some (Returned SECCOMP_RET_KILL_PROCESS))"

definition bpf_init :: bpf_state where
  "bpf_init = \<lparr>st_pc = 0, st_A = 0, st_X = 0, st_mem = replicate BPF_MEMWORDS 0\<rparr>"

definition bpf_run :: "sock_filter list \<Rightarrow> u16 \<Rightarrow> seccomp_data \<Rightarrow> bpf_outcome option" where
  "bpf_run f len d = bpf_loop f len d bpf_init"


section \<open>Every accepted instruction that does not wrap is safe\<close>

text \<open>
  The two instructions that \<^verbatim>\<open>bpf_verify\<close> accepts although they leave the
  program or the data: a load at the one offset whose end wraps to 0, and a jump
  to itself.
\<close>

definition bpf_wraps :: "sock_filter \<Rightarrow> bool" where
  "bpf_wraps i =
     ((BPF_CLASS (sf_code i) = BPF_LD \<and> BPF_MODE (sf_code i) = BPF_ABS \<and> sf_k i = 0xfffffffc) \<or>
      (BPF_CLASS (sf_code i) = BPF_JMP \<and> BPF_OP (sf_code i) = BPF_JA \<and> sf_k i = 0xffffffff))"

definition seccomp_data_wf :: "seccomp_data \<Rightarrow> bool" where
  "seccomp_data_wf d = (length (sd_args d) = 6)"

definition bpf_inv :: "u16 \<Rightarrow> bpf_state \<Rightarrow> bool" where
  "bpf_inv len s = (st_pc s < len \<and> length (st_mem s) = BPF_MEMWORDS)"

lemma length_concat_le_bytes [simp]: "length (concat (map (le_bytes n) ws)) = n * length ws"
  by (induction ws) auto

lemma length_seccomp_data_bytes:
  "seccomp_data_wf d \<Longrightarrow> length (seccomp_data_bytes d) = sizeof_seccomp_data"
  by (simp add: seccomp_data_bytes_def seccomp_data_wf_def sizeof_seccomp_data_def)

lemma word_and_3_eq_0: "(k :: u32) AND 3 = 0 \<longleftrightarrow> 4 dvd unat k"
  using and_mask_dvd_nat [of 2 k] by (simp add: mask_eq_exp_minus_1)

lemma abs_load_in_range:
  fixes k :: u32
  assumes "k AND 3 = 0" and "unat (k + 4) \<le> 64" and "k \<noteq> 0xfffffffc"
  shows "unat k + 4 \<le> 64"
proof (cases "unat k + 4 < 2 ^ 32")
  case True
  then have "unat (k + 4) = unat k + 4"
    by (simp add: unat_word_ariths)
  with assms show ?thesis by simp
next
  case False
  have "unat k < 2 ^ 32" using unsigned_less [of k] by simp
  moreover have "4 dvd unat k" using assms(1) by (simp add: word_and_3_eq_0)
  ultimately have "unat k = 0xfffffffc" using False by (auto elim!: dvdE)
  then have "k = of_nat 0xfffffffc" by (metis of_nat_unat ucast_id)
  with assms(3) show ?thesis by simp
qed

lemma bpf_ld_safe:
  assumes "seccomp_data_wf d" and "bpf_ld_ok i" and "length (st_mem s) = BPF_MEMWORDS"
    and "\<not> (BPF_MODE (sf_code i) = BPF_ABS \<and> sf_k i = 0xfffffffc)"
  shows "\<exists>a. bpf_exec_ld d i s = Continue (s\<lparr>st_A := a\<rparr>)"
  using assms abs_load_in_range [of "sf_k i"]
  by (auto simp: bpf_ld_ok_def bpf_exec_ld_def Let_def bpf_set_A_def load_mem_def load_abs_def
      length_seccomp_data_bytes sizeof_seccomp_data_def split: if_splits)

lemma bpf_ldx_safe:
  assumes "bpf_ldx_ok i" and "length (st_mem s) = BPF_MEMWORDS"
  shows "\<exists>x. bpf_exec_ldx i s = Continue (s\<lparr>st_X := x\<rparr>)"
  using assms
  by (auto simp: bpf_ldx_ok_def bpf_exec_ldx_def Let_def bpf_set_X_def load_mem_def split: if_splits)

lemma bpf_alu_shape:
  "case bpf_exec_alu i s of
     Continue s' \<Rightarrow> st_pc s' = st_pc s \<and> st_mem s' = st_mem s | Return r \<Rightarrow> True | Fault \<Rightarrow> False"
  by (simp add: bpf_exec_alu_def Let_def)

text \<open>Where a jump that passed the check lands, as a number.\<close>

lemma bpf_ja_target:
  fixes k :: u32 and len :: u16
  assumes "\<not> (of_nat pc + 1 + k \<ge> ucast len \<or> of_nat pc + 1 + k < of_nat pc)"
    and "pc < unat len" and "k \<noteq> 0xffffffff"
  shows "pc < unat (ucast (ucast (of_nat pc :: u16) + k) + 1 :: u16)"
    and "ucast (ucast (of_nat pc :: u16) + k) + 1 < len"
proof -
  let ?t = "of_nat pc + 1 + k :: u32"
  have len16: "unat len < 2 ^ 16" using unsigned_less [of len] by simp
  with assms(2) have pc16: "pc < 2 ^ 16" by simp
  have upc: "unat (of_nat pc :: u32) = pc" "unat (of_nat pc :: u16) = pc"
    using pc16 by (simp_all add: unat_of_nat_small)
  have ulen: "unat (ucast len :: u32) = unat len"
    using len16 by (simp add: unat_ucast_small)
  have tl: "unat ?t < unat len" and tp: "pc \<le> unat ?t"
    using assms(1) by (simp_all add: word_le_nat_alt word_less_nat_alt upc ulen)
  have "?t \<noteq> of_nat pc"
  proof
    assume "?t = of_nat pc"
    then have "1 + k = 0" by (simp add: add.assoc)
    then have "k = - 1" by (simp add: add_eq_0_iff)
    with assms(3) show False by simp
  qed
  then have tp': "pc < unat ?t"
    using tp upc(1) by (metis le_neq_implies_less word_unat_eq_iff)
  have "(ucast (of_nat pc :: u16) :: u32) = of_nat pc"
    using pc16 by (simp add: word_unat_eq_iff upc unat_ucast_small)
  then have e: "ucast (ucast (of_nat pc :: u16) + k) + 1 = (ucast ?t :: u16)"
    by (simp add: ucast_down_add add.commute add.left_commute)
  have u: "unat (ucast ?t :: u16) = unat ?t"
    using tl len16 by (simp add: unat_ucast_small)
  show "pc < unat (ucast (ucast (of_nat pc :: u16) + k) + 1 :: u16)"
    unfolding e u by (rule tp')
  show "ucast (ucast (of_nat pc :: u16) + k) + 1 < len"
    unfolding e word_less_nat_alt u by (rule tl)
qed

lemma bpf_cond_target:
  fixes j :: u8 and len :: u16
  assumes "\<not> pc + 1 + unat j \<ge> unat len"
  shows "pc < unat ((of_nat pc :: u16) + ucast j + 1)" and "(of_nat pc :: u16) + ucast j + 1 < len"
proof -
  have len16: "unat len < 2 ^ 16" using unsigned_less [of len] by simp
  have e: "(of_nat pc :: u16) + ucast j + 1 = of_nat (pc + unat j + 1)"
    by simp
  have u: "unat (of_nat (pc + unat j + 1) :: u16) = pc + unat j + 1"
    by (rule unat_of_nat_small) (use assms len16 in simp)
  show "pc < unat ((of_nat pc :: u16) + ucast j + 1)" unfolding e u by simp
  show "(of_nat pc :: u16) + ucast j + 1 < len" unfolding e word_less_nat_alt u using assms by simp
qed

lemma bpf_jmp_safe:
  assumes "bpf_jmp_ok len (unat (st_pc s)) i" and "unat (st_pc s) < unat len"
    and "\<not> (BPF_OP (sf_code i) = BPF_JA \<and> sf_k i = 0xffffffff)"
  shows "\<exists>p. bpf_exec_jmp i s = Continue (s\<lparr>st_pc := p\<rparr>) \<and>
           unat (st_pc s) < unat (p + 1) \<and> p + 1 < len"
proof -
  have pc: "of_nat (unat (st_pc s)) = st_pc s" by simp
  show ?thesis
    using assms bpf_ja_target [where pc = "unat (st_pc s)" and k = "sf_k i" and len = len]
      bpf_cond_target [where pc = "unat (st_pc s)" and j = "sf_jt i" and len = len]
      bpf_cond_target [where pc = "unat (st_pc s)" and j = "sf_jf i" and len = len]
    unfolding pc by (auto simp: bpf_jmp_ok_def bpf_exec_jmp_def Let_def split: if_splits)
qed

text \<open>
  One iteration on an accepted instruction: it neither touches foreign memory nor
  leaves the program, and the program counter grows.
\<close>

lemma class_cases: "BPF_CLASS (c :: u16) \<in> {0, 1, 2, 3, 4, 5, 6, 7}"
proof -
  have "unat (c AND 7) \<le> unat (7 :: u16)"
    using word_and_le1 [of c 7] by (simp add: word_le_nat_alt)
  then have "unat (c AND 7) \<in> {0, 1, 2, 3, 4, 5, 6, 7}" by auto
  then show ?thesis by (auto simp: word_unat_eq_iff)
qed

lemma bpf_exec_safe:
  assumes "seccomp_data_wf d" and "bpf_insn_ok len (unat (st_pc s)) i" and "\<not> bpf_wraps i"
    and "bpf_inv len s"
  shows "case bpf_exec d i s of
      Continue s' \<Rightarrow> length (st_mem s') = BPF_MEMWORDS \<and>
        (if BPF_CLASS (sf_code i) = BPF_JMP
         then unat (st_pc s) < unat (st_pc s' + 1) \<and> st_pc s' + 1 < len else st_pc s' = st_pc s) \<and>
        BPF_CLASS (sf_code i) \<noteq> BPF_RET
    | Return r \<Rightarrow> True
    | Fault \<Rightarrow> False"
proof -
  have mem: "length (st_mem s) = BPF_MEMWORDS" and pc: "unat (st_pc s) < unat len"
    using assms(4) by (simp_all add: bpf_inv_def word_less_nat_alt)
  consider "BPF_CLASS (sf_code i) = BPF_LD" | "BPF_CLASS (sf_code i) = BPF_LDX"
    | "BPF_CLASS (sf_code i) \<in> {BPF_ST, BPF_STX}" | "BPF_CLASS (sf_code i) = BPF_ALU"
    | "BPF_CLASS (sf_code i) = BPF_JMP" | "BPF_CLASS (sf_code i) \<in> {BPF_RET, BPF_MISC}"
    using class_cases [of "sf_code i"] by auto
  then show ?thesis
  proof cases
    case 1
    then show ?thesis
      using assms(1,2,3) mem bpf_ld_safe [where d = d and i = i and s = s]
      by (auto simp: bpf_exec_def bpf_insn_ok_def bpf_wraps_def mem)
  next
    case 2
    then show ?thesis
      using assms(2) mem bpf_ldx_safe [where i = i and s = s] by (auto simp: bpf_exec_def bpf_insn_ok_def mem)
  next
    case 3
    then show ?thesis
      using assms(2) by (auto simp: bpf_exec_def bpf_insn_ok_def bpf_store_def mem)
  next
    case 4
    then show ?thesis
      using bpf_alu_shape [where i = i and s = s] by (auto simp: bpf_exec_def mem split: bpf_next.splits)
  next
    case 5
    then show ?thesis
      using assms(2,3) pc bpf_jmp_safe [where i = i and s = s and len = len]
      by (auto simp: bpf_exec_def bpf_insn_ok_def bpf_wraps_def mem)
  next
    case 6
    then show ?thesis by (auto simp: bpf_exec_def mem)
  qed
qed

lemma bpf_verifyD:
  assumes "bpf_verify f len"
  shows "0 < unat len" and "unat len \<le> BPF_MAXINSNS"
    and "\<And>pc. pc < unat len \<Longrightarrow> bpf_insn_ok len pc (f ! pc)"
    and "BPF_CLASS (sf_code (f ! (unat len - 1))) = BPF_RET"
  using assms by (auto simp: bpf_verify_def list_all_iff unat_gt_0 split: if_splits)

lemma bpf_loop_returns:
  assumes "seccomp_data_wf d" and "bpf_verify f len"
    and "\<And>pc. pc < unat len \<Longrightarrow> \<not> bpf_wraps (f ! pc)" and "bpf_inv len s"
  shows "\<exists>r. bpf_loop f len d s = Some (Returned r)"
  using assms(4)
proof (induction "unat len - unat (st_pc s)" arbitrary: s rule: less_induct)
  case less
  let ?i = "f ! unat (st_pc s)"
  note v = bpf_verifyD [OF assms(2)]
  have pc: "unat (st_pc s) < unat len" and lt: "st_pc s < len"
    using less.prems by (simp_all add: bpf_inv_def word_less_nat_alt)
  note safe = bpf_exec_safe [OF assms(1) v(3) [OF pc] assms(3) [OF pc] less.prems]
  show ?case
  proof (cases "bpf_exec d ?i s")
    case (Continue s')
    let ?n = "s'\<lparr>st_pc := st_pc s' + 1\<rparr>"
    have "bpf_inv len ?n \<and> unat (st_pc s) < unat (st_pc ?n)"
    proof (cases "BPF_CLASS (sf_code ?i) = BPF_JMP")
      case True
      with safe Continue show ?thesis by (simp add: bpf_inv_def)
    next
      case False
      with safe Continue have s': "st_pc s' = st_pc s" "BPF_CLASS (sf_code ?i) \<noteq> BPF_RET"
        "length (st_mem s') = BPF_MEMWORDS" by simp_all
      with v(4) have "unat (st_pc s) \<noteq> unat len - 1" by auto
      with pc have "Suc (unat (st_pc s)) < unat len" by simp
      moreover have "unat len < 2 ^ 16" using unsigned_less [of len] by simp
      ultimately have "unat (st_pc s + 1) = Suc (unat (st_pc s))"
        by (simp add: unat_word_ariths)
      with s' \<open>Suc (unat (st_pc s)) < unat len\<close> show ?thesis
        by (simp add: bpf_inv_def word_less_nat_alt)
    qed
    then have "\<exists>r. bpf_loop f len d ?n = Some (Returned r)"
      using pc by (intro less.hyps) auto
    with Continue lt show ?thesis by (simp add: bpf_loop.simps [of f len d s])
  next
    case (Return r)
    with lt show ?thesis by (simp add: bpf_loop.simps [of f len d s])
  next
    case Fault
    with safe show ?thesis by simp
  qed
qed

section \<open>What the check guarantees, and what it does not\<close>

lemma bpf_init_inv: "0 < unat len \<Longrightarrow> bpf_inv len bpf_init"
  by (simp add: bpf_inv_def bpf_init_def word_less_nat_alt)

text \<open>
  C5: a program that \<^verbatim>\<open>bpf_verify\<close> accepts and that contains neither of the two
  wrapping instructions always ends with an action, whatever the system call: it
  terminates, reads only its own scratch words and the \<^verbatim>\<open>struct seccomp_data\<close>, and
  never jumps outside itself.
\<close>

theorem bpf_verified_run_returns:
  assumes "bpf_verify f len" and "\<forall>pc < unat len. \<not> bpf_wraps (f ! pc)"
    and "seccomp_data_wf d"
  shows "\<exists>r. bpf_run f len d = Some (Returned r)"
  unfolding bpf_run_def
  using assms bpf_verifyD(1) [OF assms(1)] by (intro bpf_loop_returns bpf_init_inv) auto

definition bpf_sample :: "sock_filter list" where
  "bpf_sample =
     [\<lparr>sf_code = BPF_LD OR BPF_W OR BPF_ABS, sf_jt = 0, sf_jf = 0, sf_k = 4\<rparr>,
      \<lparr>sf_code = BPF_JMP OR BPF_JEQ OR BPF_K, sf_jt = 1, sf_jf = 0, sf_k = 0xc00000b7\<rparr>,
      \<lparr>sf_code = BPF_RET OR BPF_K, sf_jt = 0, sf_jf = 0, sf_k = 0\<rparr>,
      \<lparr>sf_code = BPF_RET OR BPF_K, sf_jt = 0, sf_jf = 0, sf_k = 0x7fff0000\<rparr>]"

definition bpf_sample_data :: seccomp_data where
  "bpf_sample_data =
     \<lparr>sd_nr = 64, sd_arch = 0xc00000b7, sd_instruction_pointer = 0, sd_args = [0, 0, 0, 0, 0, 0]\<rparr>"

lemma bpf_sample_ok:
  "bpf_verify bpf_sample 4" "\<forall>pc < unat (4 :: u16). \<not> bpf_wraps (bpf_sample ! pc)"
  "seccomp_data_wf bpf_sample_data"
  by code_simp+

theorem bpf_verified_run_returns_witness:
  "\<exists>r. bpf_run bpf_sample 4 bpf_sample_data = Some (Returned r)"
  using bpf_verified_run_returns [OF bpf_sample_ok] .

text \<open>The two escapes.\<close>

definition bpf_self_jump :: "sock_filter list" where
  "bpf_self_jump =
     [\<lparr>sf_code = BPF_JMP OR BPF_JA, sf_jt = 0, sf_jf = 0, sf_k = 0xffffffff\<rparr>,
      \<lparr>sf_code = BPF_RET OR BPF_K, sf_jt = 0, sf_jf = 0, sf_k = 0x7fff0000\<rparr>]"

definition bpf_wild_load :: "sock_filter list" where
  "bpf_wild_load =
     [\<lparr>sf_code = BPF_LD OR BPF_W OR BPF_ABS, sf_jt = 0, sf_jf = 0, sf_k = 0xfffffffc\<rparr>,
      \<lparr>sf_code = BPF_RET OR BPF_A, sf_jt = 0, sf_jf = 0, sf_k = 0\<rparr>]"

lemma bpf_self_jump_step:
  assumes "st_pc s = 0"
  shows "bpf_exec d (bpf_self_jump ! unat (st_pc s)) s = Continue (s\<lparr>st_pc := - 1\<rparr>)"
  using assms by (simp add: bpf_self_jump_def bpf_exec_def bpf_exec_jmp_def)

lemma bpf_self_jump_loop: "st_pc s = 0 \<Longrightarrow> bpf_loop bpf_self_jump 2 d s = None"
proof (rule ccontr)
  assume pc0: "st_pc s = 0" and "bpf_loop bpf_self_jump 2 d s \<noteq> None"
  then obtain r where ret: "bpf_loop bpf_self_jump 2 d s = Some r" by auto
  have "\<not> (bpf_self_jump = bpf_self_jump \<and> (2 :: u16) = 2 \<and> st_pc s = 0)"
  proof (rule bpf_loop.raw_induct
      [where P = "\<lambda>f len d s r. \<not> (f = bpf_self_jump \<and> len = 2 \<and> st_pc s = 0)", OF _ ret])
    fix loop f len d s r
    assume IH: "\<And>f len d s r. loop f len d s = Some r \<Longrightarrow>
                  \<not> (f = bpf_self_jump \<and> len = 2 \<and> st_pc s = 0)"
      and eq: "(if st_pc s < len then
          (case bpf_exec d (f ! unat (st_pc s)) s of
             Continue s' \<Rightarrow> loop f len d (s'\<lparr>st_pc := st_pc s' + 1\<rparr>)
           | Return r \<Rightarrow> Some (Returned r)
           | Fault \<Rightarrow> Some Out_of_bounds)
        else Some (Returned SECCOMP_RET_KILL_PROCESS)) = Some r"
    show "\<not> (f = bpf_self_jump \<and> len = 2 \<and> st_pc s = 0)"
      using eq IH [of f len d "s\<lparr>st_pc := 0\<rparr>" r] bpf_self_jump_step [of s d] by auto
  qed
  with pc0 show False by simp
qed

text \<open>
  C24: the check accepts a program whose first instruction jumps to itself
  (\<^verbatim>\<open>k = 0xffffffff\<close>: the 32-bit target wraps back to \<^verbatim>\<open>pc\<close>, which is neither
  below \<^verbatim>\<open>pc\<close> nor past the end), and running it never ends, whatever the system
  call: the claim of the comment that nothing can fail at evaluation does not
  include termination.
\<close>

theorem bpf_self_jump_diverges:
  "bpf_verify bpf_self_jump 2 \<and> (\<forall>d. bpf_run bpf_self_jump 2 d = None)"
proof -
  have "bpf_verify bpf_self_jump 2" by code_simp
  then show ?thesis
    by (simp add: bpf_run_def bpf_self_jump_loop bpf_init_def)
qed

text \<open>
  C25: the check accepts a load at offset \<^verbatim>\<open>0xfffffffc\<close>, whose end wraps to 0 and so
  passes the comparison with the size of \<^verbatim>\<open>struct seccomp_data\<close>; running it reads four
  bytes four gigabytes past the structure.
\<close>

theorem bpf_wild_load_out_of_bounds:
  "bpf_verify bpf_wild_load 2 \<and>
   bpf_run bpf_wild_load 2
     \<lparr>sd_nr = nr, sd_arch = arch, sd_instruction_pointer = ip, sd_args = [a0, a1, a2, a3, a4, a5]\<rparr>
   = Some Out_of_bounds"
proof -
  have "bpf_verify bpf_wild_load 2" by code_simp
  then show ?thesis
    by (simp add: bpf_run_def bpf_loop.simps bpf_init_def bpf_wild_load_def bpf_exec_def
        bpf_exec_ld_def bpf_set_A_def load_abs_def seccomp_data_bytes_def)
qed

text \<open>Where the fields of the structure are found by an absolute load.\<close>

lemma le_word_low_half:
  fixes w :: u64
  shows "le_word (take 4 (le_bytes 8 w)) = (ucast w :: u32)"
    and "le_word (drop 4 (le_bytes 8 w)) = (ucast (drop_bit 32 w) :: u32)"
proof -
  have low: "take 4 (le_bytes 8 w) = le_bytes 4 (ucast w :: u32)"
    and high: "drop 4 (le_bytes 8 w) = le_bytes 4 (ucast (drop_bit 32 w) :: u32)"
    by (auto simp: le_bytes_def upt_rec intro!: bit_word_eqI simp: bit_simps)
  show "le_word (take 4 (le_bytes 8 w)) = (ucast w :: u32)"
    by (simp add: low le_word_le_bytes)
  show "le_word (drop 4 (le_bytes 8 w)) = (ucast (drop_bit 32 w) :: u32)"
    by (simp add: high le_word_le_bytes)
qed

lemma take_drop_le_bytes: "n \<le> 4 \<Longrightarrow> take 4 (drop n (le_bytes 8 w @ xs)) = take 4 (drop n (le_bytes 8 w))"
  by simp

text \<open>
  an absolute load at the offset of a field of \<^verbatim>\<open>struct seccomp_data\<close> gives that
  field: the call number at 0, the architecture at 4, and for each of the six
  arguments the low word at \<^verbatim>\<open>16 + 8 i\<close> and the high word at \<^verbatim>\<open>20 + 8 i\<close>.
\<close>

theorem load_abs_fields:
  assumes "seccomp_data_wf d" and "i < 6"
  shows "load_abs d 0 = Some (sd_nr d) \<and> load_abs d 4 = Some (sd_arch d) \<and>
         load_abs d (16 + 8 * of_nat i) = Some (ucast (sd_args d ! i)) \<and>
         load_abs d (20 + 8 * of_nat i) = Some (ucast (drop_bit 32 (sd_args d ! i)))"
proof -
  obtain a0 a1 a2 a3 a4 a5 where args: "sd_args d = [a0, a1, a2, a3, a4, a5]"
    using assms(1) unfolding seccomp_data_wf_def
    by (auto simp: length_Suc_conv eval_nat_numeral)
  have head: "load_abs d 0 = Some (sd_nr d)" "load_abs d 4 = Some (sd_arch d)"
    by (simp_all add: load_abs_def seccomp_data_bytes_def args le_word_le_bytes)
  consider "i = 0" | "i = 1" | "i = 2" | "i = 3" | "i = 4" | "i = 5"
    using assms(2) by fastforce
  then show ?thesis
    by cases (simp_all add: head load_abs_def seccomp_data_bytes_def args take_drop_le_bytes
        le_word_low_half le_word_le_bytes)
qed

theorem load_abs_fields_witness:
  "load_abs bpf_sample_data (16 + 8 * of_nat 2) = Some 0"
  using load_abs_fields [of bpf_sample_data 2]
  by (simp add: seccomp_data_wf_def bpf_sample_data_def)
end
