(* ===== verification/Seccomp.thy ===== *)
theory Seccomp
  imports Bpf
begin

text \<open>
  The rest of \<^verbatim>\<open>src/src/proc/seccomp.c\<close>: the chain of installed filters, the decision
  taken at every system call (\<^verbatim>\<open>seccomp_check\<close>), the system call and the \<^verbatim>\<open>prctl\<close>
  entry that install filters, and the byte image in which the chain travels across a fork.

  The three static variables of the file are one record. The mutex around them makes
  every function a single step, so functions take the state and return it updated.
  \<^verbatim>\<open>copy_from_user\<close> is an argument of the functions that call it: it answers the bytes
  copied, or \<^term>\<open>None\<close> when some were not reachable. \<^verbatim>\<open>malloc\<close> may fail, so whether it
  does is an argument too.
\<close>

section \<open>State\<close>

record seccomp_filter =
  fl_len :: u16
  fl_insns :: "sock_filter list"

record seccomp_state =
  filters :: "seccomp_filter list"  \<comment> \<open>newest first\<close>
  seccomp_mode :: int
  no_new_privs :: bool

abbreviation (input) SECCOMP_MODE_DISABLED :: int where "SECCOMP_MODE_DISABLED \<equiv> 0"
abbreviation (input) SECCOMP_MODE_STRICT :: int where "SECCOMP_MODE_STRICT \<equiv> 1"
abbreviation (input) SECCOMP_MODE_FILTER :: int where "SECCOMP_MODE_FILTER \<equiv> 2"

definition seccomp_start :: seccomp_state where
  "seccomp_start = \<lparr>filters = [], seccomp_mode = SECCOMP_MODE_DISABLED, no_new_privs = False\<rparr>"

abbreviation (input) SECCOMP_RET_KILL_THREAD :: u32 where "SECCOMP_RET_KILL_THREAD \<equiv> 0x00000000"
abbreviation (input) SECCOMP_RET_TRAP :: u32 where "SECCOMP_RET_TRAP \<equiv> 0x00030000"
abbreviation (input) SECCOMP_RET_ERRNO :: u32 where "SECCOMP_RET_ERRNO \<equiv> 0x00050000"
abbreviation (input) SECCOMP_RET_USER_NOTIF :: u32 where "SECCOMP_RET_USER_NOTIF \<equiv> 0x7fc00000"
abbreviation (input) SECCOMP_RET_TRACE :: u32 where "SECCOMP_RET_TRACE \<equiv> 0x7ff00000"
abbreviation (input) SECCOMP_RET_LOG :: u32 where "SECCOMP_RET_LOG \<equiv> 0x7ffc0000"
abbreviation (input) SECCOMP_RET_ALLOW :: u32 where "SECCOMP_RET_ALLOW \<equiv> 0x7fff0000"
abbreviation (input) SECCOMP_RET_ACTION_FULL :: u32 where "SECCOMP_RET_ACTION_FULL \<equiv> 0xffff0000"
abbreviation (input) SECCOMP_RET_DATA :: u32 where "SECCOMP_RET_DATA \<equiv> 0x0000ffff"

abbreviation (input) SECCOMP_AUDIT_ARCH :: u32 where "SECCOMP_AUDIT_ARCH \<equiv> 0xc00000b7"

definition seccomp_no_new_privs_get :: "seccomp_state \<Rightarrow> int" where
  "seccomp_no_new_privs_get st = (if no_new_privs st then 1 else 0)"

definition seccomp_no_new_privs_set :: "seccomp_state \<Rightarrow> seccomp_state" where
  "seccomp_no_new_privs_set st = st\<lparr>no_new_privs := True\<rparr>"

definition seccomp_mode_get :: "seccomp_state \<Rightarrow> int" where
  "seccomp_mode_get st = seccomp_mode st"

section \<open>Byte images of the program\<close>

definition sock_filter_bytes :: "sock_filter \<Rightarrow> u8 list" where
  "sock_filter_bytes i = le_bytes 2 (sf_code i) @ [sf_jt i, sf_jf i] @ le_bytes 4 (sf_k i)"

definition sock_filter_of_bytes :: "u8 list \<Rightarrow> sock_filter" where
  "sock_filter_of_bytes bs =
     \<lparr>sf_code = le_word (take 2 bs), sf_jt = bs ! 2, sf_jf = bs ! 3,
      sf_k = le_word (take 4 (drop 4 bs))\<rparr>"

definition insns_bytes :: "sock_filter list \<Rightarrow> u8 list" where
  "insns_bytes f = concat (map sock_filter_bytes f)"

fun insns_of_bytes :: "nat \<Rightarrow> u8 list \<Rightarrow> sock_filter list" where
  "insns_of_bytes 0 bs = []"
| "insns_of_bytes (Suc n) bs = sock_filter_of_bytes (take 8 bs) # insns_of_bytes n (drop 8 bs)"

section \<open>Installing filters\<close>

type_synonym user_copy = "u64 \<Rightarrow> nat \<Rightarrow> u8 list option"

definition filter_install ::
  "user_copy \<Rightarrow> bool \<Rightarrow> u64 \<Rightarrow> seccomp_state \<Rightarrow> seccomp_state \<times> unit res" where
  "filter_install copy_from_user malloc_ok prog_ptr st =
     (case copy_from_user prog_ptr 16 of
        None \<Rightarrow> (st, Inl LINUX_EFAULT)
      | Some prog \<Rightarrow>
          (let len = le_word (take 2 prog) :: u16;
               filter_ptr = le_word (take 8 (drop 8 prog)) :: u64 in
           if len = 0 \<or> unat len > BPF_MAXINSNS then (st, Inl LINUX_EINVAL)
           else if \<not> malloc_ok then (st, Inl LINUX_ENOMEM)
           else
             (case copy_from_user filter_ptr (unat len * 8) of
                None \<Rightarrow> (st, Inl LINUX_EFAULT)
              | Some bytes \<Rightarrow>
                  (let insns = insns_of_bytes (unat len) bytes in
                   if \<not> bpf_verify insns len then (st, Inl LINUX_EINVAL)
                   else (st\<lparr>filters := \<lparr>fl_len = len, fl_insns = insns\<rparr> # filters st,
                            seccomp_mode := SECCOMP_MODE_FILTER\<rparr>, Inr ())))))"

definition strict_prog :: "sock_filter list" where
  "strict_prog =
     [\<lparr>sf_code = BPF_LD OR BPF_W OR BPF_ABS, sf_jt = 0, sf_jf = 0, sf_k = 0\<rparr>,
      \<lparr>sf_code = BPF_JMP OR BPF_JEQ OR BPF_K, sf_jt = 4, sf_jf = 0, sf_k = 63\<rparr>,
      \<lparr>sf_code = BPF_JMP OR BPF_JEQ OR BPF_K, sf_jt = 3, sf_jf = 0, sf_k = 64\<rparr>,
      \<lparr>sf_code = BPF_JMP OR BPF_JEQ OR BPF_K, sf_jt = 2, sf_jf = 0, sf_k = 93\<rparr>,
      \<lparr>sf_code = BPF_JMP OR BPF_JEQ OR BPF_K, sf_jt = 1, sf_jf = 0, sf_k = 139\<rparr>,
      \<lparr>sf_code = BPF_RET OR BPF_K, sf_jt = 0, sf_jf = 0, sf_k = SECCOMP_RET_KILL_PROCESS\<rparr>,
      \<lparr>sf_code = BPF_RET OR BPF_K, sf_jt = 0, sf_jf = 0, sf_k = SECCOMP_RET_ALLOW\<rparr>]"

definition strict_install :: "bool \<Rightarrow> seccomp_state \<Rightarrow> seccomp_state \<times> unit res" where
  "strict_install malloc_ok st =
     (if \<not> malloc_ok then (st, Inl LINUX_ENOMEM)
      else (st\<lparr>filters := \<lparr>fl_len = of_nat (length strict_prog), fl_insns = strict_prog\<rparr> # filters st,
               seccomp_mode := SECCOMP_MODE_STRICT\<rparr>, Inr ()))"

definition action_is_available :: "u32 \<Rightarrow> bool" where
  "action_is_available action =
     (action AND SECCOMP_RET_ACTION_FULL \<in>
        {SECCOMP_RET_KILL_PROCESS, SECCOMP_RET_KILL_THREAD, SECCOMP_RET_TRAP,
         SECCOMP_RET_ERRNO, SECCOMP_RET_LOG, SECCOMP_RET_ALLOW})"

section \<open>The decision at a system call\<close>

datatype seccomp_verdict =
    Run            \<comment> \<open>returns true\<close>
  | Run_logged     \<comment> \<open>returns true after a warning\<close>
  | Refuse u64     \<comment> \<open>returns false; the guest sees this value\<close>
  | Trapped u64    \<comment> \<open>sends SIGSYS, then refuses with this value\<close>
  | Killed         \<comment> \<open>exits the process with status 159\<close>

datatype check_result = Verdict seccomp_verdict | Undefined_behaviour

text \<open>The loop over the chain, with the answer kept so far.\<close>

fun chain_run :: "seccomp_data \<Rightarrow> u32 \<Rightarrow> seccomp_filter list \<Rightarrow> bpf_outcome option" where
  "chain_run d action [] = Some (Returned action)"
| "chain_run d action (f # fs) =
     (case bpf_run (fl_insns f) (fl_len f) d of
        None \<Rightarrow> None
      | Some Out_of_bounds \<Rightarrow> Some Out_of_bounds
      | Some (Returned r) \<Rightarrow>
          chain_run d
            (if r AND SECCOMP_RET_ACTION_FULL < action AND SECCOMP_RET_ACTION_FULL
             then r else action) fs)"

definition verdict_of_action :: "u32 \<Rightarrow> seccomp_verdict" where
  "verdict_of_action action =
     (let a = action AND SECCOMP_RET_ACTION_FULL in
      if a = SECCOMP_RET_ALLOW then Run
      else if a = SECCOMP_RET_LOG then Run_logged
      else if a = SECCOMP_RET_ERRNO then
        (let e = action AND SECCOMP_RET_DATA; e' = (if e > 0xfff then 0xfff else e)
         in Refuse (scast (- e')))
      else if a = SECCOMP_RET_USER_NOTIF \<or> a = SECCOMP_RET_TRACE then
        Refuse (- of_nat (errno_no LINUX_ENOSYS))
      else if a = SECCOMP_RET_TRAP then Trapped (- of_nat (errno_no LINUX_ENOSYS))
      else Killed)"

definition check_data :: "u64 \<Rightarrow> u64 \<Rightarrow> (nat \<Rightarrow> u64) \<Rightarrow> seccomp_data" where
  "check_data pc nr args =
     \<lparr>sd_nr = ucast nr, sd_arch = SECCOMP_AUDIT_ARCH, sd_instruction_pointer = pc,
      sd_args = map args [0..<6]\<rparr>"

definition seccomp_check ::
  "seccomp_state \<Rightarrow> u64 \<Rightarrow> u64 \<Rightarrow> (nat \<Rightarrow> u64) \<Rightarrow> check_result option" where
  "seccomp_check st pc nr args =
     (if seccomp_mode st = SECCOMP_MODE_DISABLED then Some (Verdict Run)
      else
        (case chain_run (check_data pc nr args) SECCOMP_RET_ALLOW (filters st) of
           None \<Rightarrow> None
         | Some Out_of_bounds \<Rightarrow> Some Undefined_behaviour
         | Some (Returned action) \<Rightarrow> Some (Verdict (verdict_of_action action))))"

section \<open>The system calls\<close>

abbreviation (input) SECCOMP_FILTER_FLAG_NEW_LISTENER :: u32 where
  "SECCOMP_FILTER_FLAG_NEW_LISTENER \<equiv> 0x8"

definition sys_seccomp ::
  "user_copy \<Rightarrow> bool \<Rightarrow> u32 \<Rightarrow> u32 \<Rightarrow> u32 \<Rightarrow> u64 \<Rightarrow> seccomp_state \<Rightarrow> seccomp_state \<times> unit res" where
  "sys_seccomp copy_from_user malloc_ok euid op flags uargs st =
     (if op = 0 then  \<comment> \<open>SECCOMP_SET_MODE_STRICT\<close>
        (if flags \<noteq> 0 \<or> uargs \<noteq> 0 then (st, Inl LINUX_EINVAL) else strict_install malloc_ok st)
      else if op = 1 then  \<comment> \<open>SECCOMP_SET_MODE_FILTER\<close>
        (if flags AND NOT (1 OR 2 OR 4 OR 8 OR 16 OR 32) \<noteq> 0 then (st, Inl LINUX_EINVAL)
         else if flags AND SECCOMP_FILTER_FLAG_NEW_LISTENER \<noteq> 0 then (st, Inl LINUX_EOPNOTSUPP)
         else if \<not> no_new_privs st \<and> \<not> euid = 0 then (st, Inl LINUX_EACCES)
         else filter_install copy_from_user malloc_ok uargs st)
      else if op = 2 then  \<comment> \<open>SECCOMP_GET_ACTION_AVAIL\<close>
        (if flags \<noteq> 0 then (st, Inl LINUX_EINVAL)
         else (case copy_from_user uargs 4 of
                 None \<Rightarrow> (st, Inl LINUX_EFAULT)
               | Some bs \<Rightarrow>
                   (st, if action_is_available (le_word bs) then Inr () else Inl LINUX_EOPNOTSUPP)))
      else if op = 3 then (st, Inl LINUX_EOPNOTSUPP)  \<comment> \<open>SECCOMP_GET_NOTIF_SIZES\<close>
      else (st, Inl LINUX_EINVAL))"

definition seccomp_prctl_set ::
  "user_copy \<Rightarrow> bool \<Rightarrow> u32 \<Rightarrow> u64 \<Rightarrow> u64 \<Rightarrow> seccomp_state \<Rightarrow> seccomp_state \<times> unit res" where
  "seccomp_prctl_set copy_from_user malloc_ok euid mode prog st =
     (if mode = 1 then strict_install malloc_ok st
      else if mode = 2 then
        (if \<not> no_new_privs st \<and> \<not> euid = 0 then (st, Inl LINUX_EACCES)
         else filter_install copy_from_user malloc_ok prog st)
      else (st, Inl LINUX_EINVAL))"

section \<open>Carrying the chain across a fork\<close>

definition filter_image :: "seccomp_filter \<Rightarrow> u8 list" where
  "filter_image f = le_bytes 4 (ucast (fl_len f) :: u32) @ insns_bytes (fl_insns f)"

definition seccomp_snapshot_size :: "seccomp_state \<Rightarrow> nat" where
  "seccomp_snapshot_size st = sum_list (map (\<lambda>f. 4 + unat (fl_len f) * 8) (filters st))"

text \<open>
  The second loop of \<^verbatim>\<open>seccomp_snapshot\<close>: filters oldest first, each as its length and
  its instructions, stopping at the first that does not fit; \<^verbatim>\<open>used\<close> is the length of
  what has been written.
\<close>

fun snapshot_write :: "nat \<Rightarrow> u8 list \<Rightarrow> seccomp_filter list \<Rightarrow> u8 list" where
  "snapshot_write len out [] = out"
| "snapshot_write len out (f # fs) =
     (if length out + 4 + unat (fl_len f) * 8 > len then out
      else snapshot_write len (out @ filter_image f) fs)"

definition seccomp_snapshot :: "bool \<Rightarrow> nat \<Rightarrow> seccomp_state \<Rightarrow> (u8 list \<times> int) option" where
  "seccomp_snapshot calloc_ok len st =
     (if \<not> calloc_ok then None
      else Some (snapshot_write len [] (rev (filters st)), seccomp_mode st))"

function restore_loop ::
  "(nat \<Rightarrow> bool) \<Rightarrow> nat \<Rightarrow> u8 list \<Rightarrow> seccomp_filter list \<Rightarrow> seccomp_filter list" where
  "restore_loop malloc_ok n bs fs =
     (if length bs < 4 then fs
      else
        (let l = le_word (take 4 bs) :: u32; bytes = unat l * 8 in
         if l = 0 \<or> unat l > BPF_MAXINSNS \<or> 4 + bytes > length bs then fs
         else if \<not> malloc_ok n then fs
         else restore_loop malloc_ok (Suc n) (drop (4 + bytes) bs)
                (\<lparr>fl_len = ucast l, fl_insns = insns_of_bytes (unat l) (drop 4 bs)\<rparr> # fs)))"
  by pat_completeness auto
termination
  by (relation "measure (\<lambda>(m, n, bs, fs). length bs)") auto

declare restore_loop.simps [simp del]

text \<open>\<^term>\<open>None\<close> is the panic at the end of the function.\<close>

definition seccomp_restore ::
  "(nat \<Rightarrow> bool) \<Rightarrow> u8 list \<Rightarrow> int \<Rightarrow> seccomp_state \<Rightarrow> seccomp_state option" where
  "seccomp_restore malloc_ok buf mode st =
     (let fs = restore_loop malloc_ok 0 buf [] in
      if mode \<noteq> SECCOMP_MODE_DISABLED \<and> fs = [] then None
      else Some (st\<lparr>filters := fs, seccomp_mode := mode\<rparr>))"


section \<open>Well-formed chains\<close>

definition filter_wf :: "seccomp_filter \<Rightarrow> bool" where
  "filter_wf f =
     (fl_len f \<noteq> 0 \<and> unat (fl_len f) \<le> BPF_MAXINSNS \<and> length (fl_insns f) = unat (fl_len f))"

definition seccomp_inv :: "seccomp_state \<Rightarrow> bool" where
  "seccomp_inv st =
     ((\<forall>f \<in> set (filters st). filter_wf f \<and> bpf_verify (fl_insns f) (fl_len f)) \<and>
      (seccomp_mode st = SECCOMP_MODE_DISABLED \<longleftrightarrow> filters st = []) \<and>
      seccomp_mode st \<in> {SECCOMP_MODE_DISABLED, SECCOMP_MODE_STRICT, SECCOMP_MODE_FILTER})"

text \<open>Every way a guest can change the state: the two \<^verbatim>\<open>prctl\<close> options and the call.\<close>

inductive seccomp_step :: "seccomp_state \<Rightarrow> seccomp_state \<Rightarrow> bool" where
  no_new_privs: "seccomp_step st (seccomp_no_new_privs_set st)"
| call: "sys_seccomp cfu mok euid op flags uargs st = (st', r) \<Longrightarrow> seccomp_step st st'"
| prctl: "seccomp_prctl_set cfu mok euid mode prog st = (st', r) \<Longrightarrow> seccomp_step st st'"

inductive seccomp_reach :: "seccomp_state \<Rightarrow> bool" where
  start: "seccomp_reach seccomp_start"
| step: "seccomp_reach st \<Longrightarrow> seccomp_step st st' \<Longrightarrow> seccomp_reach st'"

lemma length_insns_of_bytes [simp]: "length (insns_of_bytes n bs) = n"
  by (induction n bs rule: insns_of_bytes.induct) auto

lemma strict_prog_ok:
  "bpf_verify strict_prog 7" "length strict_prog = 7" "\<forall>pc < unat (7 :: u16). \<not> bpf_wraps (strict_prog ! pc)"
  by code_simp+

text \<open>The shape of a successful or failed installation.\<close>

lemma filter_install_cases:
  assumes "filter_install cfu mok p st = (st', r)"
  shows "(st' = st \<and> r \<noteq> Inr ()) \<or>
    (\<exists>f. filter_wf f \<and> bpf_verify (fl_insns f) (fl_len f) \<and> r = Inr () \<and>
      st' = st\<lparr>filters := f # filters st, seccomp_mode := SECCOMP_MODE_FILTER\<rparr>)"
proof (cases "r = Inr ()")
  case True
  with assms obtain len insns where
    "st' = st\<lparr>filters := \<lparr>fl_len = len, fl_insns = insns\<rparr> # filters st, seccomp_mode := SECCOMP_MODE_FILTER\<rparr>"
    "len \<noteq> 0" "unat len \<le> BPF_MAXINSNS" "length insns = unat len" "bpf_verify insns len"
    unfolding filter_install_def
    by (auto simp: Let_def not_less split: option.splits if_splits)
  with True show ?thesis
    by (intro disjI2 exI [of _ "\<lparr>fl_len = len, fl_insns = insns\<rparr>"]) (simp add: filter_wf_def)
next
  case False
  with assms show ?thesis
    unfolding filter_install_def by (auto simp: Let_def split: option.splits if_splits)
qed

lemma strict_install_cases:
  assumes "strict_install mok st = (st', r)"
  shows "(st' = st \<and> r \<noteq> Inr ()) \<or>
    (\<exists>f. filter_wf f \<and> bpf_verify (fl_insns f) (fl_len f) \<and> r = Inr () \<and>
      st' = st\<lparr>filters := f # filters st, seccomp_mode := SECCOMP_MODE_STRICT\<rparr>)"
proof (cases mok)
  case True
  with assms strict_prog_ok show ?thesis
    by (intro disjI2 exI [of _ "\<lparr>fl_len = 7, fl_insns = strict_prog\<rparr>"])
       (auto simp: strict_install_def filter_wf_def)
next
  case False
  with assms show ?thesis by (auto simp: strict_install_def)
qed

lemma seccomp_step_cases:
  assumes "seccomp_step st st'"
  shows "st' = st \<or> st' = st\<lparr>no_new_privs := True\<rparr> \<or>
    (\<exists>f m. filter_wf f \<and> bpf_verify (fl_insns f) (fl_len f) \<and>
       m \<in> {SECCOMP_MODE_STRICT, SECCOMP_MODE_FILTER} \<and>
       st' = st\<lparr>filters := f # filters st, seccomp_mode := m\<rparr>)"
  using assms
proof cases
  case no_new_privs
  then show ?thesis by (simp add: seccomp_no_new_privs_set_def)
next
  case (call cfu mok euid op flags uargs r)
  then show ?thesis
    unfolding sys_seccomp_def
    by (auto split: if_splits option.splits dest!: filter_install_cases strict_install_cases)
next
  case (prctl cfu mok euid mode prog r)
  then show ?thesis
    unfolding seccomp_prctl_set_def
    by (auto split: if_splits dest!: filter_install_cases strict_install_cases)
qed

lemma seccomp_step_inv: "seccomp_step st st' \<Longrightarrow> seccomp_inv st \<Longrightarrow> seccomp_inv st'"
  by (drule seccomp_step_cases) (auto simp: seccomp_inv_def)

text \<open>
  C20: in every state a guest can bring about, each installed filter has a length
  between 1 and 4096 that matches its instructions and has passed the check, and the
  mode is DISABLED exactly when the chain is empty.
\<close>

theorem seccomp_reach_inv: "seccomp_reach st \<Longrightarrow> seccomp_inv st"
proof (induction rule: seccomp_reach.induct)
  case start
  then show ?case by (simp add: seccomp_start_def seccomp_inv_def)
next
  case (step st st')
  then show ?case by (blast intro: seccomp_step_inv)
qed

lemma seccomp_reach_strict:
  "seccomp_reach (fst (strict_install True seccomp_start))"
proof -
  have "sys_seccomp (\<lambda>_ _. None) True 0 0 0 0 seccomp_start = strict_install True seccomp_start"
    by (simp add: sys_seccomp_def)
  then have "seccomp_step seccomp_start (fst (strict_install True seccomp_start))"
    by (metis prod.collapse seccomp_step.call)
  then show ?thesis by (rule seccomp_reach.step [OF seccomp_reach.start])
qed

theorem seccomp_reach_inv_witness:
  "seccomp_inv (fst (strict_install True seccomp_start))"
  using seccomp_reach_inv [OF seccomp_reach_strict] .

text \<open>
  filters are never removed and \<^verbatim>\<open>no_new_privs\<close> is never cleared: a step only puts
  filters in front of the chain that was there.
\<close>

theorem seccomp_step_only_adds:
  assumes "seccomp_step st st'"
  shows "\<exists>new. filters st' = new @ filters st \<and> length new \<le> 1 \<and>
           (no_new_privs st \<longrightarrow> no_new_privs st')"
  using seccomp_step_cases [OF assms] by (auto intro: exI [of _ "[]"] exI [of _ "[_]"])

theorem seccomp_step_only_adds_witness:
  "\<exists>new. filters (seccomp_no_new_privs_set seccomp_start) = new @ filters seccomp_start \<and>
     length new \<le> 1 \<and>
     (no_new_privs seccomp_start \<longrightarrow> no_new_privs (seccomp_no_new_privs_set seccomp_start))"
  using seccomp_step_only_adds [OF seccomp_step.no_new_privs [of seccomp_start]] .



section \<open>The chain keeps the lowest action\<close>

abbreviation (input) act :: "u32 \<Rightarrow> u32" where "act r \<equiv> r AND SECCOMP_RET_ACTION_FULL"

definition pick :: "u32 \<Rightarrow> u32 \<Rightarrow> u32" where
  "pick action r = (if act r < act action then r else action)"

lemma chain_run_foldl:
  assumes "\<And>f. f \<in> set fs \<Longrightarrow> bpf_run (fl_insns f) (fl_len f) d = Some (Returned (ans f))"
  shows "chain_run d action fs = Some (Returned (foldl pick action (map ans fs)))"
  using assms by (induction fs arbitrary: action) (auto simp: pick_def)

lemma foldl_pick_mem: "foldl pick a rs \<in> insert a (set rs)"
proof (induction rs arbitrary: a)
  case (Cons r rs)
  have "foldl pick (pick a r) rs \<in> insert (pick a r) (set rs)" by (rule Cons.IH)
  moreover have "pick a r \<in> {a, r}" by (simp add: pick_def)
  ultimately show ?case by auto
qed simp

lemma foldl_pick_le: "x \<in> insert a (set rs) \<Longrightarrow> act (foldl pick a rs) \<le> act x"
proof (induction rs arbitrary: a x)
  case (Cons r rs)
  have "act (pick a r) \<le> act a \<and> act (pick a r) \<le> act r" by (auto simp: pick_def)
  moreover have "act (foldl pick (pick a r) rs) \<le> act (pick a r)"
    by (rule Cons.IH) simp
  moreover have "y \<in> set rs \<Longrightarrow> act (foldl pick (pick a r) rs) \<le> act y" for y
    by (rule Cons.IH) simp
  ultimately show ?case using Cons.prems by (auto intro: order.trans)
qed simp

definition chain_sound :: "seccomp_filter list \<Rightarrow> bool" where
  "chain_sound fs =
     (\<forall>f \<in> set fs. bpf_verify (fl_insns f) (fl_len f) \<and>
        (\<forall>pc < unat (fl_len f). \<not> bpf_wraps (fl_insns f ! pc)))"

lemma check_data_wf: "seccomp_data_wf (check_data pc nr args)"
  by (simp add: check_data_def seccomp_data_wf_def)

lemma chain_answers:
  assumes "chain_sound fs" and "seccomp_data_wf d"
  obtains ans where
    "\<And>f. f \<in> set fs \<Longrightarrow> bpf_run (fl_insns f) (fl_len f) d = Some (Returned (ans f))"
proof -
  have "\<forall>f \<in> set fs. \<exists>r. bpf_run (fl_insns f) (fl_len f) d = Some (Returned r)"
    using assms bpf_loop_returns [OF assms(2)] bpf_init_inv bpf_verifyD(1)
    unfolding chain_sound_def bpf_run_def by metis
  then have "\<exists>ans. \<forall>f \<in> set fs. bpf_run (fl_insns f) (fl_len f) d = Some (Returned (ans f))"
    by (rule bchoice)
  with that show thesis by blast
qed

text \<open>
  C21: running a chain of accepted, non-wrapping filters ends with an action that is
  ALLOW or the answer of one of them, and whose action bits are the least, compared
  as unsigned numbers, among ALLOW and all the answers.
\<close>

theorem chain_keeps_lowest:
  assumes "chain_sound fs" and "seccomp_data_wf d"
  shows "\<exists>action. chain_run d SECCOMP_RET_ALLOW fs = Some (Returned action) \<and>
    (action = SECCOMP_RET_ALLOW \<or>
     (\<exists>f \<in> set fs. bpf_run (fl_insns f) (fl_len f) d = Some (Returned action))) \<and>
    act action \<le> SECCOMP_RET_ALLOW \<and>
    (\<forall>f \<in> set fs. \<forall>r. bpf_run (fl_insns f) (fl_len f) d = Some (Returned r) \<longrightarrow> act action \<le> act r)"
proof -
  obtain ans where ans:
    "\<And>f. f \<in> set fs \<Longrightarrow> bpf_run (fl_insns f) (fl_len f) d = Some (Returned (ans f))"
    using chain_answers [OF assms] by metis
  let ?a = "foldl pick SECCOMP_RET_ALLOW (map ans fs)"
  have run: "chain_run d SECCOMP_RET_ALLOW fs = Some (Returned ?a)"
    by (rule chain_run_foldl) (rule ans)
  have mem: "?a \<in> insert SECCOMP_RET_ALLOW (ans ` set fs)"
    using foldl_pick_mem [of "SECCOMP_RET_ALLOW" "map ans fs"] by simp
  have le: "act ?a \<le> act x" if "x \<in> insert SECCOMP_RET_ALLOW (ans ` set fs)" for x
    using foldl_pick_le [of x "SECCOMP_RET_ALLOW" "map ans fs"] that by simp
  have "act ?a \<le> SECCOMP_RET_ALLOW" using le [of "SECCOMP_RET_ALLOW"] by simp
  moreover have "act ?a \<le> act r"
    if "f \<in> set fs" "bpf_run (fl_insns f) (fl_len f) d = Some (Returned r)" for f r
    using ans [OF that(1)] that le [of r] by auto
  moreover have "?a = SECCOMP_RET_ALLOW \<or>
     (\<exists>f \<in> set fs. bpf_run (fl_insns f) (fl_len f) d = Some (Returned ?a))"
    using mem ans by auto
  ultimately show ?thesis using run by blast
qed

definition errno_filter :: seccomp_filter where
  "errno_filter =
     \<lparr>fl_len = 1, fl_insns = [\<lparr>sf_code = BPF_RET OR BPF_K, sf_jt = 0, sf_jf = 0, sf_k = 0x00050001\<rparr>]\<rparr>"

lemma errno_filter_sound: "chain_sound [errno_filter]"
  by code_simp

theorem chain_keeps_lowest_witness:
  "\<exists>action. chain_run bpf_sample_data SECCOMP_RET_ALLOW [errno_filter] = Some (Returned action)"
  using chain_keeps_lowest [OF errno_filter_sound bpf_sample_ok(3)] by blast

text \<open>
  C26: a filter in front of a chain never raises the action: what the longer chain
  answers is at most, as an unsigned number, what the shorter one did.
\<close>

theorem chain_never_loosened:
  assumes "chain_run d SECCOMP_RET_ALLOW fs = Some (Returned old)"
    and "chain_run d SECCOMP_RET_ALLOW (f # fs) = Some (Returned new)"
  shows "act new \<le> act old"
proof -
  have mono: "act b \<le> act a \<Longrightarrow> chain_run d a gs = Some (Returned x) \<Longrightarrow>
      chain_run d b gs = Some (Returned y) \<Longrightarrow> act y \<le> act x" for a b gs x y
  proof (induction gs arbitrary: a b)
    case (Cons g gs)
    from Cons.prems(2,3) obtain r where r: "bpf_run (fl_insns g) (fl_len g) d = Some (Returned r)"
      by (auto split: option.splits bpf_outcome.splits)
    have "act (pick b r) \<le> act (pick a r)" using Cons.prems(1) by (auto simp: pick_def)
    then show ?case
      using Cons.IH [of "pick b r" "pick a r"] Cons.prems(2,3) r by (simp add: pick_def)
  qed simp
  from assms(2) obtain r where
    "chain_run d (pick SECCOMP_RET_ALLOW r) fs = Some (Returned new)"
    by (auto simp: pick_def split: option.splits bpf_outcome.splits)
  moreover have "act (pick SECCOMP_RET_ALLOW r) \<le> act SECCOMP_RET_ALLOW"
    by (auto simp: pick_def)
  ultimately show ?thesis using mono assms(1) by blast
qed

lemma errno_filter_run: "chain_run d SECCOMP_RET_ALLOW [errno_filter] = Some (Returned 0x00050001)"
  by (simp add: errno_filter_def bpf_run_def bpf_loop.simps bpf_init_def bpf_exec_def)

theorem chain_never_loosened_witness:
  "act 0x00050001 \<le> act SECCOMP_RET_ALLOW"
proof -
  have "chain_run bpf_sample_data SECCOMP_RET_ALLOW [] = Some (Returned SECCOMP_RET_ALLOW)"
    by simp
  then show ?thesis
    using errno_filter_run [of bpf_sample_data] by (rule chain_never_loosened)
qed

section \<open>Verdicts\<close>

lemma verdict_errno_value:
  fixes e :: u32
  assumes "e \<le> 0xfff"
  shows "scast (- e) = (- ucast e :: u64)"
proof -
  have "uint e \<le> 0xfff" using assms by (simp add: word_le_def)
  moreover have "0 \<le> uint e" by (rule uint_ge_0)
  ultimately have "- 2147483648 \<le> - uint e" "- uint e < 2147483648" by linarith+
  then have "signed_take_bit 31 (- uint e) = - uint e"
    by (intro signed_take_bit_int_eq_self) simp_all
  moreover have "- e = word_of_int (- uint e)" by simp
  ultimately have "sint (- e) = - uint e"
    by (simp only: sint_uint uint_word_of_int_eq len_bit0 len_num1) (simp add: signed_take_bit_take_bit)
  then show ?thesis by (simp only: scast_eq) (simp add: word_of_int_minus)
qed

lemma halves_split:
  fixes e :: u16 and x :: u32
  shows "(push_bit 16 x OR ucast e) AND push_bit 16 (mask 16) = push_bit 16 x"
    and "(push_bit 16 x OR ucast e) AND mask 16 = ucast e"
proof -
  have "bit e n \<Longrightarrow> n < 16" for n using bit_imp_le_length [of e n] by simp
  then show "(push_bit 16 x OR ucast e) AND push_bit 16 (mask 16) = push_bit 16 x"
    and "(push_bit 16 x OR ucast e) AND mask 16 = ucast e"
    by (fastforce intro!: bit_word_eqI simp: bit_simps)+
qed

lemma action_split:
  fixes e :: u16
  shows "(SECCOMP_RET_ERRNO OR ucast e) AND SECCOMP_RET_ACTION_FULL = SECCOMP_RET_ERRNO"
    and "(SECCOMP_RET_ERRNO OR ucast e) AND SECCOMP_RET_DATA = (ucast e :: u32)"
  using halves_split [of 5 e] by (simp_all add: mask_eq_exp_minus_1 push_bit_eq_mult)

text \<open>
  a filter that answers \<^verbatim>\<open>SECCOMP_RET_ERRNO | e\<close> makes the guest see \<^verbatim>\<open>-e\<close>, with
  \<^verbatim>\<open>e\<close> clamped to 4095, as a 64-bit value.
\<close>

theorem errno_verdict:
  "verdict_of_action (SECCOMP_RET_ERRNO OR ucast (e :: u16)) =
     Refuse (- (if e > 0xfff then 0xfff else ucast e))"
proof -
  have lt: "(ucast e :: u32) > 0xfff \<longleftrightarrow> e > 0xfff"
    by (simp add: word_less_nat_alt unat_ucast_up)
  have "e \<le> 0xfff \<Longrightarrow> scast (- ucast e :: u32) = (- ucast e :: u64)"
    using verdict_errno_value [of "ucast e"]
    by (simp add: word_le_nat_alt unat_ucast_up ucast_ucast_up)
  then show ?thesis
    using verdict_errno_value [of "0xfff"]
    by (cases "e > 0xfff") (simp_all add: verdict_of_action_def action_split lt leI)
qed

section \<open>Answers above ALLOW\<close>

text \<open>
  \<^verbatim>\<open>SECCOMP_RET_KILL_PROCESS\<close> is \<^verbatim>\<open>0x80000000\<close>, the largest action as an unsigned
  number, so the comparison of \<^verbatim>\<open>seccomp_check\<close> never prefers it to ALLOW.
\<close>

lemma chain_skip_kill_process:
  assumes "bpf_run (fl_insns f) (fl_len f) d = Some (Returned r)"
    and "act r \<ge> SECCOMP_RET_KILL_PROCESS" and "act action \<le> SECCOMP_RET_ALLOW"
  shows "chain_run d action (f # fs) = chain_run d action fs"
proof -
  have "act action \<le> SECCOMP_RET_ALLOW" by (rule assms(3))
  also have "SECCOMP_RET_ALLOW < SECCOMP_RET_KILL_PROCESS" by simp
  also have "SECCOMP_RET_KILL_PROCESS \<le> act r" by (rule assms(2))
  finally have "\<not> act r < act action" by simp
  with assms(1) show ?thesis by simp
qed

text \<open>
  a newest filter whose answer is \<^verbatim>\<open>SECCOMP_RET_KILL_PROCESS\<close> does not change
  the decision: the verdict is the one the rest of the chain gives.
\<close>

theorem kill_process_is_ignored:
  assumes "seccomp_mode st \<noteq> SECCOMP_MODE_DISABLED"
    and "bpf_run (fl_insns f) (fl_len f) (check_data pc nr args) =
           Some (Returned SECCOMP_RET_KILL_PROCESS)"
  shows "seccomp_check (st\<lparr>filters := f # filters st\<rparr>) pc nr args = seccomp_check st pc nr args"
proof -
  have "chain_run (check_data pc nr args) SECCOMP_RET_ALLOW (f # filters st) =
        chain_run (check_data pc nr args) SECCOMP_RET_ALLOW (filters st)"
    by (rule chain_skip_kill_process [OF assms(2)]) simp_all
  then show ?thesis using assms(1) by (simp add: seccomp_check_def)
qed

lemma load_abs_nr: "seccomp_data_wf d \<Longrightarrow> load_abs d 0 = Some (sd_nr d)"
  by (simp add: load_abs_def length_seccomp_data_bytes sizeof_seccomp_data_def)
     (simp add: seccomp_data_bytes_def le_word_le_bytes)

lemma bpf_loop_step:
  "st_pc s < len \<Longrightarrow> bpf_exec d (f ! unat (st_pc s)) s = Continue s' \<Longrightarrow>
   bpf_loop f len d s = bpf_loop f len d (s'\<lparr>st_pc := st_pc s' + 1\<rparr>)"
  "st_pc s < len \<Longrightarrow> bpf_exec d (f ! unat (st_pc s)) s = Return r \<Longrightarrow>
   bpf_loop f len d s = Some (Returned r)"
  by (simp_all add: bpf_loop.simps [of f len d s])

lemma strict_prog_exec:
  "bpf_exec d (strict_prog ! 0) s = bpf_set_A s (load_abs d 0)"
  "bpf_exec d (strict_prog ! 1) s = Continue (s\<lparr>st_pc := st_pc s + (if st_A s = 63 then 4 else 0)\<rparr>)"
  "bpf_exec d (strict_prog ! 2) s = Continue (s\<lparr>st_pc := st_pc s + (if st_A s = 64 then 3 else 0)\<rparr>)"
  "bpf_exec d (strict_prog ! 3) s = Continue (s\<lparr>st_pc := st_pc s + (if st_A s = 93 then 2 else 0)\<rparr>)"
  "bpf_exec d (strict_prog ! 4) s = Continue (s\<lparr>st_pc := st_pc s + (if st_A s = 139 then 1 else 0)\<rparr>)"
  "bpf_exec d (strict_prog ! 5) s = Return SECCOMP_RET_KILL_PROCESS"
  "bpf_exec d (strict_prog ! 6) s = Return SECCOMP_RET_ALLOW"
  by (simp_all add: strict_prog_def bpf_exec_def bpf_exec_ld_def bpf_exec_jmp_def bpf_operand_def)

lemma strict_prog_run:
  assumes "seccomp_data_wf d"
  shows "bpf_run strict_prog 7 d =
    Some (Returned (if sd_nr d \<in> {63, 64, 93, 139} then SECCOMP_RET_ALLOW else SECCOMP_RET_KILL_PROCESS))"
proof -
  have start: "bpf_run strict_prog 7 d =
      bpf_loop strict_prog 7 d \<lparr>st_pc = 1, st_A = sd_nr d, st_X = 0, st_mem = replicate BPF_MEMWORDS 0\<rparr>"
    using strict_prog_exec(1) [of d bpf_init] load_abs_nr [OF assms]
    by (simp add: bpf_run_def bpf_init_def bpf_set_A_def bpf_loop_step(1))
  consider "sd_nr d = 63" | "sd_nr d = 64" | "sd_nr d = 93" | "sd_nr d = 139"
    | "sd_nr d \<notin> {63, 64, 93, 139}" by auto
  then show ?thesis
    unfolding start
    by cases (simp_all add: bpf_loop_step strict_prog_exec strict_prog_exec(2) [unfolded One_nat_def])
qed

text \<open>
  C23: strict mode confines nothing. After \<^verbatim>\<open>SECCOMP_SET_MODE_STRICT\<close> in a fresh
  process every system call still runs, where the comment above \<^verbatim>\<open>strict_install\<close> promises
  \<^verbatim>\<open>read, write, _exit and rt_sigreturn, kill otherwise\<close>.
\<close>

theorem strict_mode_allows_everything:
  "seccomp_check (fst (sys_seccomp cfu True euid 0 0 0 seccomp_start)) pc nr args = Some (Verdict Run)"
proof -
  let ?d = "check_data pc nr args"
  let ?f = "\<lparr>fl_len = 7, fl_insns = strict_prog\<rparr> :: seccomp_filter"
  have "chain_run ?d SECCOMP_RET_ALLOW [?f] = Some (Returned SECCOMP_RET_ALLOW)"
    using strict_prog_run [OF check_data_wf, of pc nr args] by simp
  then show ?thesis
    by (simp add: seccomp_check_def sys_seccomp_def strict_install_def seccomp_start_def
        strict_prog_ok(2) verdict_of_action_def)
qed

text \<open>A KILL\_THREAD answer is 0, the least of all, and does kill.\<close>

definition kill_thread_filter :: seccomp_filter where
  "kill_thread_filter =
     \<lparr>fl_len = 1, fl_insns = [\<lparr>sf_code = BPF_RET OR BPF_K, sf_jt = 0, sf_jf = 0, sf_k = 0\<rparr>]\<rparr>"

definition kill_process_filter :: seccomp_filter where
  "kill_process_filter =
     \<lparr>fl_len = 1,
      fl_insns = [\<lparr>sf_code = BPF_RET OR BPF_K, sf_jt = 0, sf_jf = 0, sf_k = SECCOMP_RET_KILL_PROCESS\<rparr>]\<rparr>"

lemma constant_filter_run:
  "bpf_run (fl_insns kill_thread_filter) (fl_len kill_thread_filter) d = Some (Returned 0)"
  "bpf_run (fl_insns kill_process_filter) (fl_len kill_process_filter) d =
     Some (Returned SECCOMP_RET_KILL_PROCESS)"
  by (simp_all add: kill_thread_filter_def kill_process_filter_def bpf_run_def bpf_loop.simps
      bpf_init_def bpf_exec_def)

theorem kill_process_is_ignored_witness:
  "seccomp_check
     \<lparr>filters = [kill_process_filter, kill_thread_filter], seccomp_mode = 2, no_new_privs = True\<rparr> 0 64 (\<lambda>_. 0)
   = seccomp_check
     \<lparr>filters = [kill_thread_filter], seccomp_mode = 2, no_new_privs = True\<rparr> 0 64 (\<lambda>_. 0)"
  using kill_process_is_ignored
    [of "\<lparr>filters = [kill_thread_filter], seccomp_mode = 2, no_new_privs = True\<rparr>"
        kill_process_filter 0 64 "\<lambda>_. 0"]
  by (simp add: constant_filter_run)

section \<open>The chain survives a fork\<close>

lemma length_sock_filter_bytes [simp]: "length (sock_filter_bytes i) = 8"
  by (simp add: sock_filter_bytes_def)

lemma length_insns_bytes [simp]: "length (insns_bytes f) = 8 * length f"
  by (induction f) (simp_all add: insns_bytes_def)

lemma sock_filter_roundtrip [byte_simps]: "sock_filter_of_bytes (sock_filter_bytes i) = i"
  by (simp add: sock_filter_of_bytes_def sock_filter_bytes_def le_word_le_bytes nth_append)

lemma insns_roundtrip [byte_simps]: "insns_of_bytes (length f) (insns_bytes f @ xs) = f"
  by (induction f) (simp_all add: insns_bytes_def sock_filter_roundtrip)

lemma length_filter_image: "filter_wf f \<Longrightarrow> length (filter_image f) = 4 + unat (fl_len f) * 8"
  by (simp add: filter_image_def filter_wf_def)

lemma restore_loop_images:
  assumes "\<And>f. f \<in> set fs \<Longrightarrow> filter_wf f" and "\<And>n. malloc_ok n"
  shows "restore_loop malloc_ok n (concat (map filter_image fs)) acc = rev fs @ acc"
  using assms(1)
proof (induction fs arbitrary: n acc)
  case Nil
  then show ?case by (simp add: restore_loop.simps)
next
  case (Cons f fs)
  let ?rest = "concat (map filter_image fs)"
  have wf: "filter_wf f" by (simp add: Cons.prems)
  then have len: "unat (fl_len f) \<noteq> 0" "unat (fl_len f) \<le> BPF_MAXINSNS"
      "length (fl_insns f) = unat (fl_len f)"
    by (simp_all add: filter_wf_def unat_eq_zero)
  let ?l = "ucast (fl_len f) :: u32"
  have l: "unat ?l = unat (fl_len f)" by (simp add: unat_ucast_up)
  have tk: "le_word (take 4 (filter_image f)) = ?l"
    by (simp add: filter_image_def le_word_le_bytes)
  have dr: "drop 4 (filter_image f) = insns_bytes (fl_insns f)"
    by (simp add: filter_image_def)
  have ins: "insns_of_bytes (unat (fl_len f)) (insns_bytes (fl_insns f) @ ?rest) = fl_insns f"
    using insns_roundtrip [of "fl_insns f" ?rest] len(3) by simp
  have eta: "\<lparr>fl_len = fl_len f, fl_insns = fl_insns f\<rparr> = f" by (cases f) simp
  have nz: "?l \<noteq> 0" using len(1) by (simp only: word_unat_eq_iff l unat_0) simp
  have "restore_loop malloc_ok n (filter_image f @ ?rest) acc =
        restore_loop malloc_ok (Suc n) ?rest (f # acc)"
    using nz len assms(2)
    by (subst restore_loop.simps)
       (simp add: Let_def tk l dr ins length_filter_image [OF wf] ucast_ucast_up eta)
  moreover have "restore_loop malloc_ok (Suc n) ?rest (f # acc) = rev fs @ f # acc"
    by (rule Cons.IH) (simp add: Cons.prems)
  ultimately show ?case by simp
qed

lemma snapshot_write_all:
  assumes "\<And>f. f \<in> set fs \<Longrightarrow> filter_wf f"
    and "length out + sum_list (map (\<lambda>f. 4 + unat (fl_len f) * 8) fs) \<le> len"
  shows "snapshot_write len out fs = out @ concat (map filter_image fs)"
  using assms
proof (induction fs arbitrary: out)
  case (Cons f fs)
  then show ?case by (simp add: length_filter_image)
qed simp

text \<open>
  C22: a checkpoint of the chain, taken into a buffer of the size
  \<^verbatim>\<open>seccomp_snapshot_size\<close> asks for and read back by \<^verbatim>\<open>seccomp_restore\<close> with memory
  available, rebuilds exactly the same filters in the same order and the same mode.
\<close>

theorem seccomp_snapshot_roundtrip:
  assumes "seccomp_inv st"
  shows "\<exists>buf. seccomp_snapshot True (seccomp_snapshot_size st) st = Some (buf, seccomp_mode st) \<and>
    length buf = seccomp_snapshot_size st \<and>
    seccomp_restore (\<lambda>_. True) buf (seccomp_mode st) fresh =
      Some (fresh\<lparr>filters := filters st, seccomp_mode := seccomp_mode st\<rparr>)"
proof -
  let ?buf = "concat (map filter_image (rev (filters st)))"
  have wf: "filter_wf f" if "f \<in> set (filters st)" for f
    using assms that by (simp add: seccomp_inv_def)
  have size: "seccomp_snapshot_size st = sum_list (map (\<lambda>f. 4 + unat (fl_len f) * 8) (rev (filters st)))"
    by (simp add: seccomp_snapshot_size_def rev_map [symmetric])
  have "snapshot_write (seccomp_snapshot_size st) [] (rev (filters st)) = ?buf"
    using snapshot_write_all [of "rev (filters st)" "[]" "seccomp_snapshot_size st"] wf size by simp
  moreover have "length ?buf = seccomp_snapshot_size st"
    using wf by (simp add: seccomp_snapshot_size_def length_concat rev_map [symmetric] comp_def
        length_filter_image cong: map_cong)
  moreover have "restore_loop (\<lambda>_. True) 0 ?buf [] = filters st"
    using restore_loop_images [of "rev (filters st)" "\<lambda>_. True" 0 "[]"] wf by simp
  ultimately show ?thesis
    using assms by (simp add: seccomp_snapshot_def seccomp_restore_def seccomp_inv_def)
qed

theorem seccomp_snapshot_roundtrip_witness:
  "\<exists>buf. seccomp_snapshot True 60 (fst (strict_install True seccomp_start)) = Some (buf, 1) \<and>
     seccomp_restore (\<lambda>_. True) buf 1 seccomp_start = Some (fst (strict_install True seccomp_start))"
proof -
  let ?st = "fst (strict_install True seccomp_start)"
  have inv: "seccomp_inv ?st"
    by (rule seccomp_step_inv [OF seccomp_step.call [of "\<lambda>_ _. None" True 0 0 0 0 seccomp_start]])
       (simp_all add: sys_seccomp_def prod_eq_iff seccomp_start_def seccomp_inv_def)
  have "seccomp_snapshot_size ?st = 60" "seccomp_mode ?st = 1"
    "seccomp_start\<lparr>filters := filters ?st, seccomp_mode := 1\<rparr> = ?st"
    by (simp_all add: strict_install_def seccomp_snapshot_size_def strict_prog_ok(2) seccomp_start_def)
  then show ?thesis using seccomp_snapshot_roundtrip [OF inv, of seccomp_start] by auto
qed

text \<open>
  the checkpoint image of the chain does not carry \<^verbatim>\<open>no_new_privs\<close>: a child restored
  from it has the flag its own process started with, so a guest that set it and
  installed a filter unprivileged has a child that may not install another.
\<close>

theorem seccomp_restore_forgets_no_new_privs:
  assumes "seccomp_restore malloc_ok buf mode seccomp_start = Some child" and "euid \<noteq> 0"
  shows "seccomp_no_new_privs_get child = 0 \<and>
         seccomp_prctl_set cfu mok euid 2 prog child = (child, Inl LINUX_EACCES)"
  using assms
  by (auto simp: seccomp_restore_def seccomp_start_def seccomp_no_new_privs_get_def
      seccomp_prctl_set_def Let_def split: if_splits)

theorem seccomp_restore_forgets_no_new_privs_witness:
  "seccomp_no_new_privs_get seccomp_start = 0 \<and>
   seccomp_prctl_set (\<lambda>_ _. None) True 1000 2 0x1000 seccomp_start = (seccomp_start, Inl LINUX_EACCES)"
proof -
  have "seccomp_restore (\<lambda>_. True) [] 0 seccomp_start = Some seccomp_start"
    by (simp add: seccomp_restore_def restore_loop.simps seccomp_start_def)
  then show ?thesis by (rule seccomp_restore_forgets_no_new_privs) simp
qed

end
