(* ===== verification/Rb_Tree.thy ===== *)
theory Rb_Tree
  imports Nabi_Prelude "HOL-Library.Monad_Syntax"
begin

text \<open>
  The red-black tree of include/util/tree.h: the functions that RB_GENERATE
  produces and that mm.c instantiates for its region tree.

  A node of the C tree carries a pointer to its parent.  A position in the tree
  is therefore a subtree together with the way back to the root, and the parent
  pointer is the first frame of that way: a list of \<open>frame\<close>s, nearest first,
  each holding the parent's element, its colour and the sibling.  Every loop
  that climbs through RB_PARENT is a recursion on that list.  Where the C code
  would follow a NULL pointer the model returns \<^term>\<open>None\<close>, and the lemmas show
  that it does not happen in a tree that satisfies the invariant.
\<close>

section \<open>Trees, positions and rotations\<close>

datatype rb_color = RB_BLACK | RB_RED

datatype 'a rbt =
    Null
  | Elm (rb_left: "'a rbt") (rbe_color: rb_color) (rb_elm: 'a) (rb_right: "'a rbt")

datatype 'a frame =
    FromLeft rb_color 'a "'a rbt"
  | FromRight "'a rbt" rb_color 'a

fun inorder :: "'a rbt \<Rightarrow> 'a list" where
  "inorder Null = []"
| "inorder (Elm l c x r) = inorder l @ x # inorder r"

fun parent_of :: "'a rbt \<Rightarrow> 'a frame \<Rightarrow> 'a rbt" where
  "parent_of t (FromLeft c x r) = Elm t c x r"
| "parent_of t (FromRight l c x) = Elm l c x t"

fun root_of :: "'a rbt \<Rightarrow> 'a frame list \<Rightarrow> 'a rbt" where
  "root_of t [] = t"
| "root_of t (f # up) = root_of (parent_of t f) up"

text \<open>RB_COLOR read through the code's \<open>x == NULL || RB_COLOR(x) == RB_BLACK\<close>.\<close>

fun is_red :: "'a rbt \<Rightarrow> bool" where
  "is_red (Elm l RB_RED x r) = True"
| "is_red t = False"

fun set_color :: "rb_color \<Rightarrow> 'a rbt \<Rightarrow> 'a rbt" where
  "set_color c Null = Null"
| "set_color c (Elm l d x r) = Elm l c x r"

fun frame_color :: "'a frame \<Rightarrow> rb_color" where
  "frame_color (FromLeft c x r) = c"
| "frame_color (FromRight l c x) = c"

fun rotate_left :: "'a rbt \<Rightarrow> 'a rbt option" where
  "rotate_left (Elm l c x (Elm ta tc y tb)) = Some (Elm (Elm l c x ta) tc y tb)"
| "rotate_left t = None"

fun rotate_right :: "'a rbt \<Rightarrow> 'a rbt option" where
  "rotate_right (Elm (Elm ta tc y tb) c x r) = Some (Elm ta tc y (Elm tb c x r))"
| "rotate_right t = None"

section \<open>Insertion\<close>

text \<open>
  RB_INSERT_COLOR.  \<open>elm\<close> is the node the loop stands on and the frames are its
  ancestors.  After a rotation the parent is black, so the loop stops; the
  uncle's case goes round again two levels up.
\<close>

fun rb_insert_color :: "'a rbt \<Rightarrow> 'a frame list \<Rightarrow> 'a rbt option" where
  "rb_insert_color elm [] = Some (set_color RB_BLACK elm)"
| "rb_insert_color elm [pf] =
     (if frame_color pf = RB_RED then None
      else Some (set_color RB_BLACK (root_of elm [pf])))"
| "rb_insert_color elm (pf # FromLeft gc g tmp # up) =
     (if frame_color pf = RB_BLACK
      then Some (set_color RB_BLACK (root_of elm (pf # FromLeft gc g tmp # up)))
      else if is_red tmp
      then rb_insert_color
             (Elm (set_color RB_BLACK (parent_of elm pf)) RB_RED g (set_color RB_BLACK tmp)) up
      else do {
        parent \<leftarrow> (case pf of FromRight _ _ _ \<Rightarrow> rotate_left (parent_of elm pf)
                            | FromLeft _ _ _ \<Rightarrow> Some (parent_of elm pf));
        sub \<leftarrow> rotate_right (Elm (set_color RB_BLACK parent) RB_RED g tmp);
        Some (set_color RB_BLACK (root_of sub up)) })"
| "rb_insert_color elm (pf # FromRight tmp gc g # up) =
     (if frame_color pf = RB_BLACK
      then Some (set_color RB_BLACK (root_of elm (pf # FromRight tmp gc g # up)))
      else if is_red tmp
      then rb_insert_color
             (Elm (set_color RB_BLACK tmp) RB_RED g (set_color RB_BLACK (parent_of elm pf))) up
      else do {
        parent \<leftarrow> (case pf of FromLeft _ _ _ \<Rightarrow> rotate_right (parent_of elm pf)
                            | FromRight _ _ _ \<Rightarrow> Some (parent_of elm pf));
        sub \<leftarrow> rotate_left (Elm tmp RB_RED g (set_color RB_BLACK parent));
        Some (set_color RB_BLACK (root_of sub up)) })"

text \<open>
  RB_FIND and the descent of RB_INSERT.  \<open>f\<close> is the comparison of the probed
  element with a node, so that a probe need not itself be in the tree.
\<close>

fun rb_find :: "('a \<Rightarrow> int) \<Rightarrow> 'a rbt \<Rightarrow> 'a option" where
  "rb_find f Null = None"
| "rb_find f (Elm l c x r) =
     (if f x < 0 then rb_find f l else if 0 < f x then rb_find f r else Some x)"

fun rb_nfind_from :: "('a \<Rightarrow> int) \<Rightarrow> 'a rbt \<Rightarrow> 'a option \<Rightarrow> 'a option" where
  "rb_nfind_from f Null res = res"
| "rb_nfind_from f (Elm l c x r) res =
     (if f x < 0 then rb_nfind_from f l (Some x)
      else if 0 < f x then rb_nfind_from f r res else Some x)"

definition rb_nfind :: "('a \<Rightarrow> int) \<Rightarrow> 'a rbt \<Rightarrow> 'a option" where
  "rb_nfind f t = rb_nfind_from f t None"

fun insert_pos :: "('a \<Rightarrow> int) \<Rightarrow> 'a rbt \<Rightarrow> 'a frame list \<Rightarrow> 'a + 'a frame list" where
  "insert_pos f Null up = Inr up"
| "insert_pos f (Elm l c x r) up =
     (if f x < 0 then insert_pos f l (FromLeft c x r # up)
      else if 0 < f x then insert_pos f r (FromRight l c x # up)
      else Inl x)"

text \<open>RB_INSERT: \<^term>\<open>Inl x\<close> is the clashing node the C function returns, with the tree untouched.\<close>

definition rb_insert :: "('a \<Rightarrow> int) \<Rightarrow> 'a \<Rightarrow> 'a rbt \<Rightarrow> ('a + 'a rbt) option" where
  "rb_insert f e t =
     (case insert_pos f t [] of
        Inl clash \<Rightarrow> Some (Inl clash)
      | Inr up \<Rightarrow> map_option Inr (rb_insert_color (Elm Null RB_RED e Null) up))"

section \<open>Removal\<close>

text \<open>
  One round of the loop of RB_REMOVE_COLOR below the test of the sibling's
  colour: either the loop goes on from the parent, or the tree is finished and
  the code leaves through \<open>break\<close>.
\<close>

fun remove_left :: "'a rbt \<Rightarrow> rb_color \<Rightarrow> 'a \<Rightarrow> 'a rbt \<Rightarrow> ('a rbt + 'a rbt) option" where
  "remove_left elm pc p Null = None"
| "remove_left elm pc p (Elm ta tc t tb) =
     (if \<not> is_red ta \<and> \<not> is_red tb
      then Some (Inl (Elm elm pc p (Elm ta RB_RED t tb)))
      else do {
        tmp \<leftarrow> (if \<not> is_red tb
                then rotate_right (Elm (set_color RB_BLACK ta) RB_RED t tb)
                else Some (Elm ta tc t tb));
        sub \<leftarrow> rotate_left
                 (Elm elm RB_BLACK p
                    (Elm (rb_left tmp) pc (rb_elm tmp) (set_color RB_BLACK (rb_right tmp))));
        Some (Inr sub) })"

fun remove_right :: "'a rbt \<Rightarrow> 'a \<Rightarrow> rb_color \<Rightarrow> 'a rbt \<Rightarrow> ('a rbt + 'a rbt) option" where
  "remove_right Null p pc elm = None"
| "remove_right (Elm ta tc t tb) p pc elm =
     (if \<not> is_red ta \<and> \<not> is_red tb
      then Some (Inl (Elm (Elm ta RB_RED t tb) pc p elm))
      else do {
        tmp \<leftarrow> (if \<not> is_red ta
                then rotate_left (Elm ta RB_RED t (set_color RB_BLACK tb))
                else Some (Elm ta tc t tb));
        sub \<leftarrow> rotate_right
                 (Elm (Elm (set_color RB_BLACK (rb_left tmp)) pc (rb_elm tmp) (rb_right tmp))
                    RB_BLACK p elm);
        Some (Inr sub) })"

text \<open>
  RB_REMOVE_COLOR.  A red sibling is first rotated above the parent, which
  becomes red and gains an ancestor; the node then has a black sibling.
\<close>

function (sequential) rb_remove_color :: "'a rbt \<Rightarrow> 'a frame list \<Rightarrow> 'a rbt option" where
  "rb_remove_color elm [] = Some (set_color RB_BLACK elm)"
| "rb_remove_color elm (FromLeft pc p tmp # up) =
     (if is_red elm then Some (root_of (set_color RB_BLACK elm) (FromLeft pc p tmp # up))
      else case tmp of
        Elm ta RB_RED t tb \<Rightarrow>
          (case remove_left elm RB_RED p ta of
             None \<Rightarrow> None
           | Some (Inl elm') \<Rightarrow> rb_remove_color elm' (FromLeft RB_BLACK t tb # up)
           | Some (Inr sub) \<Rightarrow>
               Some (set_color RB_BLACK (root_of sub (FromLeft RB_BLACK t tb # up))))
      | _ \<Rightarrow>
          (case remove_left elm pc p tmp of
             None \<Rightarrow> None
           | Some (Inl elm') \<Rightarrow> rb_remove_color elm' up
           | Some (Inr sub) \<Rightarrow> Some (set_color RB_BLACK (root_of sub up))))"
| "rb_remove_color elm (FromRight tmp pc p # up) =
     (if is_red elm then Some (root_of (set_color RB_BLACK elm) (FromRight tmp pc p # up))
      else case tmp of
        Elm ta RB_RED t tb \<Rightarrow>
          (case remove_right tb p RB_RED elm of
             None \<Rightarrow> None
           | Some (Inl elm') \<Rightarrow> rb_remove_color elm' (FromRight ta RB_BLACK t # up)
           | Some (Inr sub) \<Rightarrow>
               Some (set_color RB_BLACK (root_of sub (FromRight ta RB_BLACK t # up))))
      | _ \<Rightarrow>
          (case remove_right tmp p pc elm of
             None \<Rightarrow> None
           | Some (Inl elm') \<Rightarrow> rb_remove_color elm' up
           | Some (Inr sub) \<Rightarrow> Some (set_color RB_BLACK (root_of sub up))))"
  by pat_completeness auto

lemma remove_left_red: "remove_left elm RB_RED p t = Some (Inl e) \<Longrightarrow> is_red e"
  by (cases t) (auto split: if_splits bind_splits)

lemma remove_right_red: "remove_right t p RB_RED elm = Some (Inl e) \<Longrightarrow> is_red e"
  by (cases t) (auto split: if_splits bind_splits)

termination rb_remove_color
  by (relation "measure (\<lambda>(elm, up). 2 * length up + (if is_red elm then 0 else 1))")
    (auto dest: remove_left_red remove_right_red)

text \<open>
  RB_REMOVE.  \<open>min_pos\<close> walks down the left links of the right subtree; the
  frames are those below the removed node.  The successor takes the removed
  node's links and colour, and the colour it had decides whether the black
  heights have to be repaired.
\<close>

fun min_pos :: "'a rbt \<Rightarrow> 'a frame list \<Rightarrow> (rb_color \<times> 'a \<times> 'a rbt \<times> 'a frame list) option" where
  "min_pos Null up = None"
| "min_pos (Elm Null c x r) up = Some (c, x, r, up)"
| "min_pos (Elm l c x r) up = min_pos l (FromLeft c x r # up)"

definition unlink :: "rb_color \<Rightarrow> 'a rbt \<Rightarrow> 'a frame list \<Rightarrow> 'a rbt option" where
  "unlink color child up =
     (if color = RB_BLACK then rb_remove_color child up else Some (root_of child up))"

fun remove_at :: "'a rbt \<Rightarrow> 'a frame list \<Rightarrow> 'a rbt option" where
  "remove_at Null up = None"
| "remove_at (Elm Null c x r) up = unlink c r up"
| "remove_at (Elm l c x Null) up = unlink c l up"
| "remove_at (Elm l c x r) up = do {
     (color, elm, child, below) \<leftarrow> min_pos r [];
     unlink color child (below @ FromRight l c elm # up) }"

text \<open>
  The C functions get a pointer to the node, which is its position; here the
  position of an element is searched for by identity.
\<close>

fun locate :: "'a \<Rightarrow> 'a rbt \<Rightarrow> 'a frame list \<Rightarrow> ('a rbt \<times> 'a frame list) option" where
  "locate e Null up = None"
| "locate e (Elm l c x r) up =
     (if x = e then Some (Elm l c x r, up)
      else case locate e l (FromLeft c x r # up) of
             Some pos \<Rightarrow> Some pos
           | None \<Rightarrow> locate e r (FromRight l c x # up))"

definition rb_remove :: "'a \<Rightarrow> 'a rbt \<Rightarrow> 'a rbt option" where
  "rb_remove e t = do { (sub, up) \<leftarrow> locate e t []; remove_at sub up }"

section \<open>Traversal\<close>

fun rb_min :: "'a rbt \<Rightarrow> 'a option" where
  "rb_min Null = None"
| "rb_min (Elm Null c x r) = Some x"
| "rb_min (Elm l c x r) = rb_min l"

fun rb_max :: "'a rbt \<Rightarrow> 'a option" where
  "rb_max Null = None"
| "rb_max (Elm l c x Null) = Some x"
| "rb_max (Elm l c x r) = rb_max r"

text \<open>The climb of RB_NEXT passes the ancestors reached from their right, RB_PREV's from their left.\<close>

fun climb_next :: "'a frame list \<Rightarrow> 'a option" where
  "climb_next [] = None"
| "climb_next (FromLeft c x r # up) = Some x"
| "climb_next (FromRight l c x # up) = climb_next up"

fun climb_prev :: "'a frame list \<Rightarrow> 'a option" where
  "climb_prev [] = None"
| "climb_prev (FromRight l c x # up) = Some x"
| "climb_prev (FromLeft c x r # up) = climb_prev up"

definition rb_next :: "'a \<Rightarrow> 'a rbt \<Rightarrow> 'a option" where
  "rb_next e t = do {
     (sub, up) \<leftarrow> locate e t [];
     (if rb_right sub \<noteq> Null then rb_min (rb_right sub) else climb_next up) }"

definition rb_prev :: "'a \<Rightarrow> 'a rbt \<Rightarrow> 'a option" where
  "rb_prev e t = do {
     (sub, up) \<leftarrow> locate e t [];
     (if rb_left sub \<noteq> Null then rb_max (rb_left sub) else climb_prev up) }"

section \<open>The invariant\<close>

fun bheight :: "'a rbt \<Rightarrow> nat" where
  "bheight Null = 0"
| "bheight (Elm l c x r) = bheight l + (if c = RB_BLACK then 1 else 0)"

fun invh :: "'a rbt \<Rightarrow> bool" where
  "invh Null = True"
| "invh (Elm l c x r) = (bheight l = bheight r \<and> invh l \<and> invh r)"

fun invc :: "'a rbt \<Rightarrow> bool" where
  "invc Null = True"
| "invc (Elm l c x r) =
     ((c = RB_RED \<longrightarrow> \<not> is_red l \<and> \<not> is_red r) \<and> invc l \<and> invc r)"

definition rb_inv :: "'a rbt \<Rightarrow> bool" where
  "rb_inv t \<longleftrightarrow> invh t \<and> invc t \<and> \<not> is_red t"

text \<open>The same for the ancestors of a hole of black height \<open>n\<close>; a red ancestor is not the root.\<close>

fun up_invh :: "nat \<Rightarrow> 'a frame list \<Rightarrow> bool" where
  "up_invh n [] = True"
| "up_invh n (FromLeft c x r # up) =
     (bheight r = n \<and> invh r \<and> up_invh (n + (if c = RB_BLACK then 1 else 0)) up)"
| "up_invh n (FromRight l c x # up) =
     (bheight l = n \<and> invh l \<and> up_invh (n + (if c = RB_BLACK then 1 else 0)) up)"

fun no_black_parent :: "'a frame list \<Rightarrow> bool" where
  "no_black_parent [] = True"
| "no_black_parent (f # up) = (frame_color f = RB_RED)"

fun up_invc :: "'a frame list \<Rightarrow> bool" where
  "up_invc [] = True"
| "up_invc (FromLeft c x r # up) =
     (invc r \<and> (c = RB_RED \<longrightarrow> \<not> is_red r \<and> \<not> no_black_parent up) \<and> up_invc up)"
| "up_invc (FromRight l c x # up) =
     (invc l \<and> (c = RB_RED \<longrightarrow> \<not> is_red l \<and> \<not> no_black_parent up) \<and> up_invc up)"

text \<open>What a position leaves to the left and to the right of its subtree.\<close>

fun before :: "'a frame list \<Rightarrow> 'a list" where
  "before [] = []"
| "before (FromLeft c x r # up) = before up"
| "before (FromRight l c x # up) = before up @ inorder l @ [x]"

fun after :: "'a frame list \<Rightarrow> 'a list" where
  "after [] = []"
| "after (FromLeft c x r # up) = x # inorder r @ after up"
| "after (FromRight l c x # up) = after up"

text \<open>
  A probe is monotone on a list when the nodes it calls smaller come first,
  then the ones it calls equal, then the ones it calls greater.
\<close>

definition probe_mono :: "('a \<Rightarrow> int) \<Rightarrow> 'a list \<Rightarrow> bool" where
  "probe_mono f xs \<longleftrightarrow> sorted_wrt (\<lambda>a b. (f a < 0 \<longrightarrow> f b < 0) \<and> (0 < f b \<longrightarrow> 0 < f a)) xs"

section \<open>Insertion and removal keep the order and the invariant\<close>

lemma inorder_set_color [simp]: "inorder (set_color c t) = inorder t"
  by (cases t) auto

lemma inorder_root_of: "inorder (root_of t up) = before up @ inorder t @ after up"
proof (induction t up rule: root_of.induct)
  case (2 t f up)
  then show ?case by (cases f) auto
qed simp

lemma is_red_set_black [simp]: "\<not> is_red (set_color RB_BLACK t)"
  by (cases t) auto

lemma set_color_simps [simp]:
  "invh (set_color c t) = invh t"
  "invc t \<Longrightarrow> invc (set_color RB_BLACK t)"
  by (cases t; auto)+

lemma bheight_set_black:
  "bheight (set_color RB_BLACK t) = bheight t + (if is_red t then 1 else 0)"
  by (cases t rule: is_red.cases) auto

lemma is_redE: "is_red t \<Longrightarrow> (\<And>l x r. t = Elm l RB_RED x r \<Longrightarrow> P) \<Longrightarrow> P"
  by (cases t rule: is_red.cases) auto

lemma is_red_Elm [simp]: "is_red (Elm l c x r) \<longleftrightarrow> c = RB_RED"
  by (cases c) auto

lemma color_not_black [simp]: "c \<noteq> RB_BLACK \<longleftrightarrow> c = RB_RED" "c \<noteq> RB_RED \<longleftrightarrow> c = RB_BLACK"
  by (cases c; simp)+

lemma root_of_inv:
  assumes "invh t" "invc t" "up_invh (bheight t) up" "up_invc up"
    and "is_red t \<Longrightarrow> \<not> no_black_parent up"
  shows "rb_inv (root_of t up)"
  using assms
proof (induction t up rule: root_of.induct)
  case (2 t f up)
  then show ?case by (cases f; cases "frame_color f") auto
qed (auto simp: rb_inv_def)

lemma set_black_inv: "rb_inv t \<Longrightarrow> rb_inv (set_color RB_BLACK t)"
  by (simp add: rb_inv_def)

lemma rb_insert_color_ok:
  assumes "is_red elm" "invh elm" "invc elm" "up_invh (bheight elm) up" "up_invc up"
  shows "\<exists>t. rb_insert_color elm up = Some t \<and> rb_inv t
           \<and> inorder t = before up @ inorder elm @ after up"
  using assms
proof (induction elm up rule: rb_insert_color.induct)
  case (1 elm)
  then show ?case by (simp add: rb_inv_def)
next
  case (2 elm pf)
  then show ?case
    by (cases pf) (auto intro!: set_black_inv root_of_inv simp: rb_inv_def inorder_root_of)
next
  case (3 elm pf gc g tmp up)
  then show ?case
    by (cases pf) (auto simp: inorder_root_of bheight_set_black elim!: is_redE
        intro!: set_black_inv root_of_inv)
next
  case (4 elm pf tmp gc g up)
  then show ?case
    by (cases pf) (auto simp: inorder_root_of bheight_set_black elim!: is_redE
        intro!: set_black_inv root_of_inv)
qed

lemma set_black_id: "\<not> is_red t \<Longrightarrow> set_color RB_BLACK t = t"
  by (cases t rule: is_red.cases) auto

text \<open>
  \<open>repaired\<close> says what one round leaves when the hole was one black node short:
  either the parent is now the short one, or the subtree has its full height.
\<close>

definition repaired :: "rb_color \<Rightarrow> nat \<Rightarrow> 'a list \<Rightarrow> ('a rbt + 'a rbt) option \<Rightarrow> bool" where
  "repaired pc n xs res \<longleftrightarrow>
     (case res of
        Some (Inl e) \<Rightarrow> invh e \<and> invc (set_color RB_BLACK e) \<and> (is_red e \<longleftrightarrow> pc = RB_RED)
          \<and> bheight e = n + (if pc = RB_BLACK then 1 else 0) \<and> inorder e = xs
      | Some (Inr s) \<Rightarrow> invh s \<and> invc s \<and> (is_red s \<longleftrightarrow> pc = RB_RED)
          \<and> bheight s = n + 1 + (if pc = RB_BLACK then 1 else 0) \<and> inorder s = xs
      | None \<Rightarrow> False)"

lemma remove_left_repaired:
  assumes "invh elm" "invc elm" "\<not> is_red elm" "invh tmp" "invc tmp" "\<not> is_red tmp"
    "bheight tmp = bheight elm + 1"
  shows "repaired pc (bheight elm) (inorder elm @ p # inorder tmp) (remove_left elm pc p tmp)"
  using assms
  by (cases tmp) (auto simp: repaired_def bheight_set_black elim!: is_redE split: if_splits)

lemma remove_right_repaired:
  assumes "invh elm" "invc elm" "\<not> is_red elm" "invh tmp" "invc tmp" "\<not> is_red tmp"
    "bheight tmp = bheight elm + 1"
  shows "repaired pc (bheight elm) (inorder tmp @ p # inorder elm) (remove_right tmp p pc elm)"
  using assms
  by (cases tmp) (auto simp: repaired_def bheight_set_black elim!: is_redE split: if_splits)

lemma rb_remove_color_red:
  "is_red e \<Longrightarrow> rb_remove_color e up = Some (root_of (set_color RB_BLACK e) up)"
  by (cases "(e, up)" rule: rb_remove_color.cases) auto

lemma rb_remove_color_left:
  assumes "\<not> is_red elm" "\<not> is_red tmp"
  shows "rb_remove_color elm (FromLeft pc p tmp # up) =
    (case remove_left elm pc p tmp of
       None \<Rightarrow> None
     | Some (Inl elm') \<Rightarrow> rb_remove_color elm' up
     | Some (Inr sub) \<Rightarrow> Some (set_color RB_BLACK (root_of sub up)))"
  using assms by (cases tmp rule: is_red.cases) simp_all

lemma rb_remove_color_right:
  assumes "\<not> is_red elm" "\<not> is_red tmp"
  shows "rb_remove_color elm (FromRight tmp pc p # up) =
    (case remove_right tmp p pc elm of
       None \<Rightarrow> None
     | Some (Inl elm') \<Rightarrow> rb_remove_color elm' up
     | Some (Inr sub) \<Rightarrow> Some (set_color RB_BLACK (root_of sub up)))"
  using assms by (cases tmp rule: is_red.cases) simp_all

text \<open>A round that finishes, or that leaves a red parent, has repaired the whole tree.\<close>

lemma repaired_done:
  assumes "repaired pc n xs res" "up_invh (n + 1 + (if pc = RB_BLACK then 1 else 0)) up"
    "up_invc up" "pc = RB_RED \<Longrightarrow> \<not> no_black_parent up"
    and "\<And>e. res = Some (Inl e) \<Longrightarrow> pc = RB_RED"
  shows "\<exists>t. (case res of
                None \<Rightarrow> None
              | Some (Inl elm') \<Rightarrow> rb_remove_color elm' up
              | Some (Inr sub) \<Rightarrow> Some (set_color RB_BLACK (root_of sub up))) = Some t
           \<and> rb_inv t \<and> inorder t = before up @ xs @ after up"
proof (cases res)
  case None
  then show ?thesis using assms by (simp add: repaired_def)
next
  case (Some r)
  show ?thesis
  proof (cases r)
    case (Inl e)
    then show ?thesis
      using assms Some
      by (auto simp: repaired_def rb_remove_color_red inorder_root_of bheight_set_black
          intro!: root_of_inv)
  next
    case (Inr sub)
    then show ?thesis
      using assms Some
      by (auto simp: repaired_def inorder_root_of intro!: set_black_inv root_of_inv)
  qed
qed

lemma repaired_round:
  assumes "repaired pc n xs res" "up_invh (n + 1 + (if pc = RB_BLACK then 1 else 0)) up"
    "up_invc up" "pc = RB_RED \<Longrightarrow> \<not> no_black_parent up"
    and "\<And>e. res = Some (Inl e) \<Longrightarrow> invh e \<Longrightarrow> invc (set_color RB_BLACK e) \<Longrightarrow>
           up_invh (bheight e + 1) up \<Longrightarrow>
           \<exists>t. rb_remove_color e up = Some t \<and> rb_inv t
             \<and> inorder t = before up @ inorder e @ after up"
  shows "\<exists>t. (case res of
                None \<Rightarrow> None
              | Some (Inl elm') \<Rightarrow> rb_remove_color elm' up
              | Some (Inr sub) \<Rightarrow> Some (set_color RB_BLACK (root_of sub up))) = Some t
           \<and> rb_inv t \<and> inorder t = before up @ xs @ after up"
proof (cases "\<exists>e. res = Some (Inl e)")
  case True
  then obtain e where e: "res = Some (Inl e)"
    by blast
  then have "invh e" "invc (set_color RB_BLACK e)" "up_invh (bheight e + 1) up" "inorder e = xs"
    using assms(1,2) by (simp_all add: repaired_def split: if_splits)
  then show ?thesis
    using assms(5) [OF e] e by simp
next
  case False
  then show ?thesis
    using assms by (intro repaired_done) auto
qed

lemma rb_remove_color_ok:
  assumes "invh elm" "invc (set_color RB_BLACK elm)" "up_invh (bheight elm + 1) up" "up_invc up"
  shows "\<exists>t. rb_remove_color elm up = Some t \<and> rb_inv t
           \<and> inorder t = before up @ inorder elm @ after up"
  using assms
proof (induction elm up rule: rb_remove_color.induct)
  case (1 elm)
  then show ?case by (simp add: rb_inv_def)
next
  case (2 elm pc p tmp up)
  consider (red) "is_red elm" | (nephew) "\<not> is_red elm" "is_red tmp" | (black) "\<not> is_red elm" "\<not> is_red tmp"
    by blast
  then show ?case
  proof cases
    case red
    then show ?thesis
      using 2(4-) by (auto intro!: root_of_inv simp: rb_remove_color_red inorder_root_of bheight_set_black)
  next
    case nephew
    from nephew(2) obtain ta t tb where tmp: "tmp = Elm ta RB_RED t tb"
      by (elim is_redE)
    have "repaired RB_RED (bheight elm) (inorder elm @ p # inorder ta) (remove_left elm RB_RED p ta)"
      using 2(4-) nephew tmp by (intro remove_left_repaired) (auto simp: set_black_id)
    from repaired_done [OF this, of "FromLeft RB_BLACK t tb # up"] show ?thesis
      using 2(4-) nephew tmp by auto
  next
    case black
    have "repaired pc (bheight elm) (inorder elm @ p # inorder tmp) (remove_left elm pc p tmp)"
      using 2(4-) black by (intro remove_left_repaired) (auto simp: set_black_id)
    from repaired_round [OF this, of up] show ?thesis
      using 2 black by (cases tmp rule: is_red.cases) (auto simp: rb_remove_color_left)
  qed
next
  case (3 elm tmp pc p up)
  consider (red) "is_red elm" | (nephew) "\<not> is_red elm" "is_red tmp" | (black) "\<not> is_red elm" "\<not> is_red tmp"
    by blast
  then show ?case
  proof cases
    case red
    then show ?thesis
      using 3(4-) by (auto intro!: root_of_inv simp: rb_remove_color_red inorder_root_of bheight_set_black)
  next
    case nephew
    from nephew(2) obtain ta t tb where tmp: "tmp = Elm ta RB_RED t tb"
      by (elim is_redE)
    have "repaired RB_RED (bheight elm) (inorder tb @ p # inorder elm) (remove_right tb p RB_RED elm)"
      using 3(4-) nephew tmp by (intro remove_right_repaired) (auto simp: set_black_id)
    from repaired_done [OF this, of "FromRight ta RB_BLACK t # up"] show ?thesis
      using 3(4-) nephew tmp by auto
  next
    case black
    have "repaired pc (bheight elm) (inorder tmp @ p # inorder elm) (remove_right tmp p pc elm)"
      using 3(4-) black by (intro remove_right_repaired) (auto simp: set_black_id)
    from repaired_round [OF this, of up] show ?thesis
      using 3 black by (cases tmp rule: is_red.cases) (auto simp: rb_remove_color_right)
  qed
qed

text \<open>Positions: the subtree and the frames of a position fit together to the tree they came from.\<close>

lemma locate_root: "locate e t up = Some (s, up') \<Longrightarrow> root_of s up' = root_of t up"
  by (induction e t up rule: locate.induct) (auto split: if_splits option.splits)

lemma locate_elm: "locate e t up = Some (s, up') \<Longrightarrow> \<exists>l c r. s = Elm l c e r"
  by (induction e t up rule: locate.induct) (auto split: if_splits option.splits)

lemma locate_Some: "e \<in> set (inorder t) \<Longrightarrow> \<exists>pos. locate e t up = Some pos"
proof (induction e t up rule: locate.induct)
  case (2 e l c x r up)
  then show ?case
    by (cases "locate e l (FromLeft c x r # up)") auto
qed simp

lemma rb_inv_root_ofD:
  assumes "rb_inv (root_of t up)"
  shows "invh t \<and> invc t \<and> up_invh (bheight t) up \<and> up_invc up
       \<and> (is_red t \<longrightarrow> \<not> no_black_parent up)"
  using assms
proof (induction t up rule: root_of.induct)
  case (2 t f up)
  then show ?case by (cases f; cases up) auto
qed (simp add: rb_inv_def)

lemma root_of_append: "root_of t (below @ up) = root_of (root_of t below) up"
  by (induction t below rule: root_of.induct) auto

lemma min_pos_root: "min_pos t up = Some (c, y, r, up') \<Longrightarrow> root_of (Elm Null c y r) up' = root_of t up"
  by (induction t up rule: min_pos.induct) auto

lemma min_pos_Some: "t \<noteq> Null \<Longrightarrow> \<exists>c y r up'. min_pos t up = Some (c, y, r, up')"
  by (induction t up rule: min_pos.induct) auto

lemma min_pos_before: "min_pos t up = Some (c, y, r, up') \<Longrightarrow> before up' = before up"
  by (induction t up rule: min_pos.induct) auto

lemma before_append: "before (below @ up) = before up @ before below"
  by (induction below rule: before.induct) auto

lemma after_append: "after (below @ up) = after below @ after up"
  by (induction below rule: after.induct) auto

lemma rb_inv_swap: "rb_inv (root_of (Elm l c x r) up) \<Longrightarrow> rb_inv (root_of (Elm l c y r) up)"
  using rb_inv_root_ofD [of "Elm l c x r" up] by (intro root_of_inv) auto

lemma unlink_ok:
  assumes "rb_inv (root_of (Elm l c x r) up)" "l = Null \<and> child = r \<or> r = Null \<and> child = l"
  shows "\<exists>t. unlink c child up = Some t \<and> rb_inv t \<and> inorder t = before up @ inorder child @ after up"
proof (cases c)
  case RB_BLACK
  then show ?thesis
    using rb_inv_root_ofD [OF assms(1)] assms(2)
    by (auto simp: unlink_def intro!: rb_remove_color_ok)
next
  case RB_RED
  then show ?thesis
    using rb_inv_root_ofD [OF assms(1)] assms(2)
    by (auto simp: unlink_def inorder_root_of intro!: root_of_inv)
qed

lemma remove_at_ok:
  assumes "rb_inv (root_of (Elm l c x r) up)"
  shows "\<exists>t. remove_at (Elm l c x r) up = Some t \<and> rb_inv t
           \<and> inorder t = before up @ inorder l @ inorder r @ after up"
proof (cases "l = Null \<or> r = Null")
  case True
  then show ?thesis
    using unlink_ok [OF assms] by (cases l; cases r) auto
next
  case False
  then obtain yc y child below where m: "min_pos r [] = Some (yc, y, child, below)"
    using min_pos_Some by blast
  have r: "root_of (Elm Null yc y child) below = r" and b: "before below = []"
    using min_pos_root [OF m] min_pos_before [OF m] by simp_all
  have "rb_inv (root_of (Elm Null yc y child) (below @ FromRight l c y # up))"
    using rb_inv_swap [OF assms] by (simp add: root_of_append r)
  from unlink_ok [OF this] obtain t where
    t: "unlink yc child (below @ FromRight l c y # up) = Some t" "rb_inv t"
       "inorder t = before up @ inorder l @ y # inorder child @ after below @ after up"
    by (auto simp: before_append after_append b)
  moreover have "inorder r = y # inorder child @ after below"
    using inorder_root_of [of "Elm Null yc y child" below] by (simp add: r b)
  moreover have "remove_at (Elm l c x r) up = unlink yc child (below @ FromRight l c y # up)"
    using False m by (cases l; cases r) auto
  ultimately show ?thesis by simp
qed

lemma rb_remove_ok:
  assumes "rb_inv t" "e \<in> set (inorder t)" "distinct (inorder t)"
  shows "\<exists>t'. rb_remove e t = Some t' \<and> rb_inv t' \<and> inorder t' = remove1 e (inorder t)"
proof -
  obtain s up where loc: "locate e t [] = Some (s, up)"
    using locate_Some [OF assms(2)] by (metis surj_pair)
  obtain l c r where s: "s = Elm l c e r"
    using locate_elm [OF loc] by blast
  have root: "root_of s up = t"
    using locate_root [OF loc] by simp
  then have "inorder t = before up @ (inorder l @ e # inorder r) @ after up"
    using inorder_root_of [of s up] s by simp
  then have "remove1 e (inorder t) = before up @ inorder l @ inorder r @ after up"
    using assms(3) by (auto simp: remove1_append)
  then show ?thesis
    using remove_at_ok [of l c e r up] assms(1) root s loc by (auto simp: rb_remove_def)
qed

section \<open>Lookup, insertion and traversal in terms of the order\<close>

lemma probe_mono_append:
  "probe_mono f (xs @ ys) \<longleftrightarrow>
     probe_mono f xs \<and> probe_mono f ys
     \<and> (\<forall>x\<in>set xs. \<forall>y\<in>set ys. (f x < 0 \<longrightarrow> f y < 0) \<and> (0 < f y \<longrightarrow> 0 < f x))"
  by (auto simp: probe_mono_def sorted_wrt_append)

lemma probe_mono_Cons:
  "probe_mono f (x # ys) \<longleftrightarrow>
     (\<forall>y\<in>set ys. (f x < 0 \<longrightarrow> f y < 0) \<and> (0 < f y \<longrightarrow> 0 < f x)) \<and> probe_mono f ys"
  by (auto simp: probe_mono_def)

lemma probe_mono_signs:
  assumes "\<forall>x\<in>set xs. 0 < f x" "\<forall>y\<in>set ys. f y < 0"
  shows "probe_mono f (xs @ ys)"
proof -
  have "probe_mono f xs" using assms(1) by (induction xs) (auto simp: probe_mono_def)
  moreover have "probe_mono f ys" using assms(2) by (induction ys) (auto simp: probe_mono_def)
  ultimately show ?thesis using assms by (auto simp: probe_mono_append)
qed

lemma rb_find_ok:
  assumes "probe_mono f (inorder t)"
  shows "case rb_find f t of None \<Rightarrow> \<forall>x\<in>set (inorder t). f x \<noteq> 0
                      | Some x \<Rightarrow> x \<in> set (inorder t) \<and> f x = 0"
  using assms
proof (induction f t rule: rb_find.induct)
  case (2 f l c x r)
  then show ?case
    by (force simp: probe_mono_append probe_mono_Cons split: option.splits)
qed simp

lemma insert_pos_Inl:
  "insert_pos f t up = Inl x \<Longrightarrow> rb_find f t = Some x"
  by (induction f t up rule: insert_pos.induct) (auto split: if_splits)

lemma insert_pos_Inr:
  "insert_pos f t up = Inr up' \<Longrightarrow> root_of Null up' = root_of t up \<and> rb_find f t = None"
  by (induction f t up rule: insert_pos.induct) (auto split: if_splits)

lemma insert_pos_before:
  assumes "insert_pos f t up = Inr up'" "probe_mono f (inorder t)"
  shows "before up' = before up @ filter (\<lambda>x. 0 < f x) (inorder t)"
  using assms
proof (induction f t up rule: insert_pos.induct)
  case (2 f l c x r up)
  have "f x < 0 \<Longrightarrow> \<forall>y\<in>set (inorder r). f y < 0" "0 < f x \<Longrightarrow> \<forall>y\<in>set (inorder l). 0 < f y"
    using 2(4) by (auto simp: probe_mono_append probe_mono_Cons)
  then show ?case
    using 2 by (fastforce simp: probe_mono_append probe_mono_Cons filter_empty_conv split: if_splits)
qed simp

lemma rb_insert_ok:
  assumes "rb_inv t" "probe_mono f (inorder t)" "\<forall>x\<in>set (inorder t). f x \<noteq> 0"
  shows "\<exists>t'. rb_insert f e t = Some (Inr t') \<and> rb_inv t'
           \<and> inorder t' = filter (\<lambda>x. 0 < f x) (inorder t) @ e # filter (\<lambda>x. f x < 0) (inorder t)"
proof (cases "insert_pos f t []")
  case (Inl x)
  then show ?thesis
    using insert_pos_Inl [OF Inl] rb_find_ok [OF assms(2)] assms(3) by auto
next
  case (Inr up)
  have root: "root_of Null up = t" and b: "before up = filter (\<lambda>x. 0 < f x) (inorder t)"
    using insert_pos_Inr [OF Inr] insert_pos_before [OF Inr assms(2)] by simp_all
  have i: "inorder t = before up @ after up"
    using inorder_root_of [of Null up] root by simp
  have "filter (\<lambda>x. 0 < f x) (before up) = before up"
    by (simp add: b)
  then have "filter (\<lambda>x. 0 < f x) (after up) = []"
    using b i by (metis append_self_conv filter_append)
  then have "\<forall>x\<in>set (after up). \<not> 0 < f x \<and> f x \<noteq> 0"
    using assms(3) i by (simp add: filter_empty_conv)
  then have "\<forall>x\<in>set (after up). f x < 0"
    by force
  then have "filter (\<lambda>x. f x < 0) (after up) = after up"
    by simp
  moreover have "filter (\<lambda>x. f x < 0) (before up) = []"
    by (auto simp: b filter_empty_conv)
  ultimately have a: "after up = filter (\<lambda>x. f x < 0) (inorder t)"
    by (simp add: i)
  have "up_invh 0 up" "up_invc up"
    using rb_inv_root_ofD [of Null up] assms(1) root by simp_all
  then show ?thesis
    using rb_insert_color_ok [of "Elm Null RB_RED e Null" up] Inr a b
    by (auto simp: rb_insert_def)
qed

lemma rb_insert_clash:
  assumes "probe_mono f (inorder t)" "x \<in> set (inorder t)" "f x = 0"
  shows "\<exists>y. rb_insert f e t = Some (Inl y) \<and> y \<in> set (inorder t) \<and> f y = 0"
  using rb_find_ok [OF assms(1)] assms(2,3) insert_pos_Inl [of f t "[]"] insert_pos_Inr [of f t "[]"]
  by (cases "insert_pos f t []") (auto simp: rb_insert_def)

lemma rb_insert_never_null: "rb_inv t \<Longrightarrow> probe_mono f (inorder t) \<Longrightarrow> \<exists>r. rb_insert f e t = Some r"
  using rb_insert_ok [of t f e] rb_insert_clash [of f t _ e] by (metis (no_types))

lemma rb_nfind_from_ok:
  assumes "probe_mono f (inorder t)" "\<forall>x\<in>set (inorder t). f x \<noteq> 0"
  shows "rb_nfind_from f t res =
           (case filter (\<lambda>x. f x < 0) (inorder t) of [] \<Rightarrow> res | x # _ \<Rightarrow> Some x)"
  using assms
proof (induction f t res rule: rb_nfind_from.induct)
  case (2 f l c x r res)
  have "0 < f x \<Longrightarrow> filter (\<lambda>x. f x < 0) (inorder l) = []"
    using 2(3) by (fastforce simp: probe_mono_append probe_mono_Cons filter_empty_conv)
  then show ?case
    using 2 by (auto simp: probe_mono_append probe_mono_Cons split: list.splits)
qed simp

lemma rb_min_ok: "rb_min t = (if inorder t = [] then None else Some (hd (inorder t)))"
  by (induction t rule: rb_min.induct) (auto simp: hd_append)

lemma rb_max_ok: "rb_max t = (if inorder t = [] then None else Some (last (inorder t)))"
  by (induction t rule: rb_max.induct) auto

lemma climb_next_ok: "climb_next up = (if after up = [] then None else Some (hd (after up)))"
  by (induction up rule: climb_next.induct) auto

lemma climb_prev_ok: "climb_prev up = (if before up = [] then None else Some (last (before up)))"
  by (induction up rule: climb_prev.induct) auto

lemma rb_next_locate:
  assumes "locate e t [] = Some (Elm l c e r, up)"
  shows "rb_next e t = (if inorder r @ after up = [] then None else Some (hd (inorder r @ after up)))"
  using assms by (cases r) (auto simp: rb_next_def rb_min_ok climb_next_ok hd_append)

lemma rb_prev_locate:
  assumes "locate e t [] = Some (Elm l c e r, up)"
  shows "rb_prev e t = (if before up @ inorder l = [] then None else Some (last (before up @ inorder l)))"
  using assms by (cases l) (auto simp: rb_prev_def rb_max_ok climb_prev_ok)

lemma distinct_split_unique:
  assumes "distinct (xs @ e # ys)" "xs @ e # ys = xs' @ e # ys'"
  shows "xs = xs' \<and> ys = ys'"
proof -
  have "e \<notin> set xs" "e \<notin> set ys"
    using assms(1) by auto
  then show ?thesis
    using assms(2) by (simp add: append_Cons_eq_iff)
qed

lemma locate_split:
  assumes "inorder t = xs @ e # ys" "distinct (inorder t)"
  obtains l c r up where "locate e t [] = Some (Elm l c e r, up)"
    "before up @ inorder l = xs" "inorder r @ after up = ys"
proof -
  obtain s up where loc: "locate e t [] = Some (s, up)"
    using locate_Some [of e t "[]"] assms(1) by auto
  obtain l c r where s: "s = Elm l c e r"
    using locate_elm [OF loc] by blast
  have "inorder t = (before up @ inorder l) @ e # (inorder r @ after up)"
    using locate_root [OF loc] inorder_root_of [of s up] s by simp
  then have "before up @ inorder l = xs \<and> inorder r @ after up = ys"
    using assms distinct_split_unique [of xs e ys "before up @ inorder l" "inorder r @ after up"] by simp
  then show thesis
    using that loc s by blast
qed

lemma rb_next_ok:
  "inorder t = xs @ e # ys \<Longrightarrow> distinct (inorder t) \<Longrightarrow>
   rb_next e t = (if ys = [] then None else Some (hd ys))"
  by (elim locate_split) (auto simp: rb_next_locate)

lemma rb_prev_ok:
  "inorder t = xs @ e # ys \<Longrightarrow> distinct (inorder t) \<Longrightarrow>
   rb_prev e t = (if xs = [] then None else Some (last xs))"
  by (elim locate_split) (auto simp: rb_prev_locate)

section \<open>The interface of an ordered index\<close>

text \<open>
  What mm.c relies on: a container that keeps its elements in an order, finds
  the element a monotone probe calls equal, refuses an element that clashes with
  one it has, and gives the predecessor of an element.
\<close>

locale ordered_index =
  fixes elems :: "'t \<Rightarrow> 'a list"
    and good :: "'t \<Rightarrow> bool"
    and lookup :: "('a \<Rightarrow> int) \<Rightarrow> 't \<Rightarrow> 'a option"
    and add :: "('a \<Rightarrow> int) \<Rightarrow> 'a \<Rightarrow> 't \<Rightarrow> ('a + 't) option"
    and del :: "'a \<Rightarrow> 't \<Rightarrow> 't option"
    and pred :: "'a \<Rightarrow> 't \<Rightarrow> 'a option"
  assumes lookup_ok: "probe_mono f (elems t) \<Longrightarrow>
      (case lookup f t of None \<Rightarrow> \<forall>x\<in>set (elems t). f x \<noteq> 0
                        | Some x \<Rightarrow> x \<in> set (elems t) \<and> f x = 0)"
    and add_ok: "good t \<Longrightarrow> probe_mono f (elems t) \<Longrightarrow> \<forall>x\<in>set (elems t). f x \<noteq> 0 \<Longrightarrow>
      \<exists>t'. add f e t = Some (Inr t') \<and> good t'
         \<and> elems t' = filter (\<lambda>x. 0 < f x) (elems t) @ e # filter (\<lambda>x. f x < 0) (elems t)"
    and add_clash: "probe_mono f (elems t) \<Longrightarrow> x \<in> set (elems t) \<Longrightarrow> f x = 0 \<Longrightarrow>
      \<exists>y. add f e t = Some (Inl y) \<and> y \<in> set (elems t) \<and> f y = 0"
    and del_ok: "good t \<Longrightarrow> e \<in> set (elems t) \<Longrightarrow> distinct (elems t) \<Longrightarrow>
      \<exists>t'. del e t = Some t' \<and> good t' \<and> elems t' = remove1 e (elems t)"
    and pred_ok: "elems t = xs @ e # ys \<Longrightarrow> distinct (elems t) \<Longrightarrow>
      pred e t = (if xs = [] then None else Some (last xs))"
begin

lemma lookup_iff:
  assumes "probe_mono f (elems t)" "\<And>x y. x \<in> set (elems t) \<Longrightarrow> y \<in> set (elems t) \<Longrightarrow>
             f x = 0 \<Longrightarrow> f y = 0 \<Longrightarrow> x = y"
  shows "lookup f t = Some x \<longleftrightarrow> x \<in> set (elems t) \<and> f x = 0"
  using lookup_ok [OF assms(1)] assms(2) by (auto split: option.splits)

lemma lookup_None:
  "probe_mono f (elems t) \<Longrightarrow> lookup f t = None \<longleftrightarrow> (\<forall>x\<in>set (elems t). f x \<noteq> 0)"
  using lookup_ok [of f t] by (auto split: option.splits)

lemma add_total: "good t \<Longrightarrow> probe_mono f (elems t) \<Longrightarrow> \<exists>r. add f e t = Some r"
  using add_ok [of t f e] add_clash [of f t _ e] by (metis (no_types))

lemma add_between:
  assumes "good t" "elems t = xs @ ys" "\<forall>x\<in>set xs. 0 < f x" "\<forall>y\<in>set ys. f y < 0"
  shows "\<exists>t'. add f e t = Some (Inr t') \<and> good t' \<and> elems t' = xs @ e # ys"
proof -
  have "filter (\<lambda>x. 0 < f x) ys = []" "filter (\<lambda>x. f x < 0) xs = []"
    using assms(3,4) by (force simp: filter_empty_conv)+
  moreover have "filter (\<lambda>x. 0 < f x) xs = xs" "filter (\<lambda>x. f x < 0) ys = ys"
    using assms(3,4) by (simp_all add: filter_id_conv)
  moreover have "probe_mono f (elems t)" "\<forall>x\<in>set (elems t). f x \<noteq> 0"
    using assms(2-4) probe_mono_signs [of xs f ys] by auto
  ultimately show ?thesis
    using add_ok [OF assms(1), of f e] assms(2) by simp
qed

lemma del_between:
  assumes "good t" "elems t = xs @ e # ys" "distinct (elems t)"
  shows "\<exists>t'. del e t = Some t' \<and> good t' \<and> elems t' = xs @ ys"
  using del_ok [OF assms(1), of e] assms by (auto simp: remove1_append)

end

interpretation rb: ordered_index inorder rb_inv rb_find rb_insert rb_remove rb_prev
proof (unfold_locales, goal_cases)
  case 1 then show ?case by (rule rb_find_ok)
next
  case 2 then show ?case by (rule rb_insert_ok)
next
  case 3 then show ?case by (rule rb_insert_clash)
next
  case 4 then show ?case by (rule rb_remove_ok)
next
  case 5 then show ?case by (rule rb_prev_ok)
qed

section \<open>Depth\<close>

fun rb_depth :: "'a rbt \<Rightarrow> nat" where
  "rb_depth Null = 0"
| "rb_depth (Elm l c x r) = Suc (max (rb_depth l) (rb_depth r))"

lemma depth_bheight: "invh t \<Longrightarrow> invc t \<Longrightarrow> rb_depth t \<le> 2 * bheight t + (if is_red t then 1 else 0)"
  by (induction t) (auto split: if_splits)

lemma bheight_elems: "invh t \<Longrightarrow> 2 ^ bheight t \<le> length (inorder t) + 1"
proof (induction t)
  case (Elm l c x r)
  then have "2 ^ bheight l \<le> length (inorder l) + 1" "2 ^ bheight l \<le> length (inorder r) + 1"
    by auto
  then show ?case by auto
qed simp

lemma rb_inv_depth: "rb_inv t \<Longrightarrow> 2 ^ (rb_depth t div 2) \<le> length (inorder t) + 1"
proof -
  assume i: "rb_inv t"
  then have "rb_depth t div 2 \<le> bheight t"
    using depth_bheight [of t] by (auto simp: rb_inv_def)
  then have "(2::nat) ^ (rb_depth t div 2) \<le> 2 ^ bheight t"
    by (simp add: power_increasing)
  also have "\<dots> \<le> length (inorder t) + 1"
    using bheight_elems [of t] i by (simp only: rb_inv_def)
  finally show ?thesis .
qed

section \<open>Properties\<close>

definition rb_sample :: "int rbt" where
  "rb_sample = Elm (Elm Null RB_RED 3 Null) RB_BLACK 4 (Elm Null RB_RED 7 Null)"

definition rb_sample2 :: "int rbt" where
  "rb_sample2 = Elm (Elm Null RB_BLACK 3 Null) RB_BLACK 4 (Elm (Elm Null RB_RED 6 Null) RB_BLACK 7 Null)"

text \<open>
  C8: RB_INSERT on a red-black tree whose nodes are in the order of the comparison
  either returns a node the comparison calls equal, or gives a red-black tree with
  the element at its place in the order and no node deeper than twice the logarithm
  of their number; it never follows a NULL pointer.
\<close>

theorem rb_insert_correct:
  assumes "rb_inv t" "probe_mono f (inorder t)"
  shows "(\<exists>y\<in>set (inorder t). f y = 0 \<and> rb_insert f e t = Some (Inl y))
    \<or> (\<exists>t'. rb_insert f e t = Some (Inr t') \<and> rb_inv t'
        \<and> inorder t' = filter (\<lambda>x. 0 < f x) (inorder t) @ e # filter (\<lambda>x. f x < 0) (inorder t)
        \<and> 2 ^ (rb_depth t' div 2) \<le> length (inorder t') + 1)"
proof (cases "\<exists>x\<in>set (inorder t). f x = 0")
  case True
  then show ?thesis
    using rb_insert_clash [OF assms(2)] by blast
next
  case False
  then obtain t' where t': "rb_insert f e t = Some (Inr t')" "rb_inv t'"
      "inorder t' = filter (\<lambda>x. 0 < f x) (inorder t) @ e # filter (\<lambda>x. f x < 0) (inorder t)"
    using rb_insert_ok [OF assms, of e] by blast
  show ?thesis
    using t' rb_inv_depth [OF t'(2)] by (intro disjI2 exI [of _ t']) simp
qed

theorem rb_insert_correct_witness:
  "rb_inv rb_sample \<and> probe_mono (\<lambda>x. 5 - x) (inorder rb_sample) \<and>
   (\<exists>t'. rb_insert (\<lambda>x. 5 - x) 5 rb_sample = Some (Inr t') \<and> rb_inv t' \<and> inorder t' = [3, 4, 5, 7])"
proof -
  have "rb_inv rb_sample" "probe_mono (\<lambda>x. 5 - x) (inorder rb_sample)"
    by (simp_all add: rb_sample_def rb_inv_def probe_mono_def)
  then show ?thesis
    using rb_insert_correct [of rb_sample "\<lambda>x. 5 - x" 5] by (auto simp: rb_sample_def)
qed

text \<open>
  C9: RB_REMOVE of a node of a red-black tree takes exactly that node out of the
  order and gives a red-black tree, again with logarithmic depth; neither it nor
  RB_REMOVE_COLOR follows a NULL pointer.
\<close>

theorem rb_remove_correct:
  assumes "rb_inv t" "inorder t = xs @ e # ys" "distinct (inorder t)"
  shows "\<exists>t'. rb_remove e t = Some t' \<and> rb_inv t' \<and> inorder t' = xs @ ys
    \<and> 2 ^ (rb_depth t' div 2) \<le> length (inorder t') + 1"
proof -
  obtain t' where "rb_remove e t = Some t'" "rb_inv t'" "inorder t' = xs @ ys"
    using rb.del_between [OF assms] by blast
  then show ?thesis
    using rb_inv_depth [of t'] by auto
qed

theorem rb_remove_correct_witness:
  "rb_inv rb_sample2 \<and> inorder rb_sample2 = [] @ 3 # [4, 6, 7] \<and> distinct (inorder rb_sample2) \<and>
   (\<exists>t'. rb_remove 3 rb_sample2 = Some t' \<and> rb_inv t' \<and> inorder t' = [4, 6, 7])"
proof -
  have "rb_inv rb_sample2" "inorder rb_sample2 = [] @ 3 # [4, 6, 7]" "distinct (inorder rb_sample2)"
    by (simp_all add: rb_sample2_def rb_inv_def)
  then show ?thesis
    using rb_remove_correct [of rb_sample2 "[]" 3 "[4, 6, 7]"] by auto
qed

end
