(* ===== verification/Mm_Region.thy ===== *)
theory Mm_Region
  imports Rb_Tree
begin

text \<open>
  The record of a guest's mappings (\<^verbatim>\<open>src/mm/mm.c\<close>, \<^verbatim>\<open>include/mm.h\<close>): the
  regions, the list and the red-black tree that index them, and the operations
  that find, split, merge and record them.

  A region is a heap object reached from the list and from the tree, and the
  code updates it in place.  The model has a store from region identities to
  records; the list and the tree hold identities, so an update of a region is
  seen through both.  \<^verbatim>\<open>malloc\<close> hands out the next unused identity, \<^verbatim>\<open>free\<close>
  drops one that is in neither index any more.

  A crash - a failed \<^verbatim>\<open>assert\<close>, a \<^verbatim>\<open>panic\<close>, a NULL dereference - is \<^term>\<open>None\<close>.
\<close>

section \<open>Constants\<close>

abbreviation (input) LINUX_PROT_NONE :: u32 where "LINUX_PROT_NONE \<equiv> 0"
abbreviation (input) LINUX_PROT_READ :: u32 where "LINUX_PROT_READ \<equiv> 1"
abbreviation (input) LINUX_PROT_WRITE :: u32 where "LINUX_PROT_WRITE \<equiv> 2"
abbreviation (input) LINUX_PROT_EXEC :: u32 where "LINUX_PROT_EXEC \<equiv> 4"
abbreviation (input) LINUX_MAP_SHARED :: u32 where "LINUX_MAP_SHARED \<equiv> 1"
abbreviation (input) LINUX_MAP_PRIVATE :: u32 where "LINUX_MAP_PRIVATE \<equiv> 2"
abbreviation (input) LINUX_MAP_FIXED :: u32 where "LINUX_MAP_FIXED \<equiv> 0x10"
abbreviation (input) LINUX_MAP_ANON :: u32 where "LINUX_MAP_ANON \<equiv> 0x20"
abbreviation (input) PAGE_SIZE :: u64 where "PAGE_SIZE \<equiv> 0x1000"
abbreviation (input) GUEST_MMAP_GRANULE :: u64 where "GUEST_MMAP_GRANULE \<equiv> 0x1000"
abbreviation (input) HOST_BLOCK_GRANULE :: u64 where "HOST_BLOCK_GRANULE \<equiv> 0x4000"
abbreviation (input) user_addr_max :: gaddr where "user_addr_max \<equiv> 0x0000007fc0000000"

definition is_page_aligned :: "u64 \<Rightarrow> bool" where
  "is_page_aligned a \<longleftrightarrow> a AND (PAGE_SIZE - 1) = 0"

definition untag_gaddr :: "gaddr \<Rightarrow> gaddr" where
  "untag_gaddr a = a AND 0x00ffffffffffffff"

section \<open>Regions and address spaces\<close>

text \<open>\<open>arena_off\<close>, \<open>mm_fd\<close>, \<open>shm_id\<close> and \<open>pgoff\<close> are signed in the source, with -1 for none.\<close>

record mm_region =
  haddr :: u64
  arena_off :: int
  gaddr :: gaddr
  msize :: u64
  prot :: u32
  sealed :: bool
  mm_flags :: u32
  mm_fd :: int
  reserved :: bool
  owns_fd :: bool
  shm_id :: int
  pgoff :: int
  is_global :: bool

record mm =
  mm_store :: "nat \<Rightarrow> mm_region"
  mm_next :: nat
  mm_region_tree :: "nat rbt"
  mm_regions :: "nat list"
  start_brk :: u64
  current_brk :: u64
  current_mmap_top :: u64

text \<open>
  What the functions need of the host: \<^verbatim>\<open>dup\<close>, which answers a descriptor or a
  negative number, and the contents of the one field of a freshly allocated
  region that \<^verbatim>\<open>split_region\<close> does not write.
\<close>

record host =
  h_dup :: "int \<Rightarrow> int"
  h_junk :: bool

definition region_compare :: "mm_region \<Rightarrow> mm_region \<Rightarrow> int" where
  "region_compare r1 r2 =
     (if gaddr r1 \<ge> gaddr r2 + msize r2 then 1
      else if gaddr r1 + msize r1 \<le> gaddr r2 then -1
      else 0)"

text \<open>A region on the stack with only \<open>gaddr\<close> and \<open>size\<close> set, the rest zero.\<close>

definition probe :: "gaddr \<Rightarrow> u64 \<Rightarrow> mm_region" where
  "probe a s = \<lparr> haddr = 0, arena_off = 0, gaddr = a, msize = s, prot = 0, sealed = False,
     mm_flags = 0, mm_fd = 0, reserved = False, owns_fd = False, shm_id = 0, pgoff = 0,
     is_global = False \<rparr>"

definition cmp_in :: "mm \<Rightarrow> mm_region \<Rightarrow> nat \<Rightarrow> int" where
  "cmp_in mm r n = region_compare r (mm_store mm n)"

definition find_region :: "gaddr \<Rightarrow> mm \<Rightarrow> nat option" where
  "find_region a mm = rb_find (cmp_in mm (probe a 1)) (mm_region_tree mm)"

fun left_chain :: "('a \<Rightarrow> int) \<Rightarrow> 'a rbt \<Rightarrow> 'a option" where
  "left_chain f Null = None"
| "left_chain f (Elm Null c x r) = Some x"
| "left_chain f (Elm (Elm ll lc y lr) c x r) =
     (if f y = 0 then left_chain f (Elm ll lc y lr) else Some x)"

definition find_region_range :: "gaddr \<Rightarrow> u64 \<Rightarrow> mm \<Rightarrow> nat option" where
  "find_region_range a s mm =
     (case rb_find (cmp_in mm (probe a s)) (mm_region_tree mm) of
        None \<Rightarrow> None
      | Some leftmost \<Rightarrow>
          (case locate leftmost (mm_region_tree mm) [] of
             None \<Rightarrow> None
           | Some (sub, up) \<Rightarrow> left_chain (cmp_in mm (probe a s)) sub))"

definition guest_to_host :: "mm \<Rightarrow> mm \<Rightarrow> gaddr \<Rightarrow> u64 option" where
  "guest_to_host mm vkern_mm a =
     (let a = untag_gaddr a;
          region = (case find_region a mm of
                      Some i \<Rightarrow> Some (mm_store mm i)
                    | None \<Rightarrow> map_option (mm_store vkern_mm) (find_region a vkern_mm))
      in case region of
           None \<Rightarrow> None
         | Some r \<Rightarrow> if reserved r then None else Some (haddr r + a - gaddr r))"

section \<open>The linked list\<close>

text \<open>\<^verbatim>\<open>list_add\<close> after an entry, \<^verbatim>\<open>list_del\<close>, and the neighbours of an entry.\<close>

fun list_add_after :: "'a \<Rightarrow> 'a \<Rightarrow> 'a list \<Rightarrow> 'a list" where
  "list_add_after new entry [] = []"
| "list_add_after new entry (x # xs) =
     (if x = entry then x # new # xs else x # list_add_after new entry xs)"

fun list_next :: "'a \<Rightarrow> 'a list \<Rightarrow> 'a option" where
  "list_next e (x # y # xs) = (if x = e then Some y else list_next e (y # xs))"
| "list_next e xs = None"

fun list_prev :: "'a \<Rightarrow> 'a list \<Rightarrow> 'a option" where
  "list_prev e (x # y # xs) = (if y = e then Some x else list_prev e (y # xs))"
| "list_prev e xs = None"

section \<open>Split, merge, record\<close>

text \<open>The C code keeps the offset of the split in an \<^verbatim>\<open>int\<close>.\<close>

definition split_offset :: "mm_region \<Rightarrow> gaddr \<Rightarrow> u64" where
  "split_offset region a = scast (ucast (a - gaddr region) :: 32 word)"

definition split_tail :: "host \<Rightarrow> mm_region \<Rightarrow> gaddr \<Rightarrow> mm_region" where
  "split_tail h region a =
     (let offset = split_offset region a;
          dupped = h_dup h (mm_fd region);
          own = owns_fd region \<and> mm_fd region \<ge> 0
      in \<lparr> haddr = haddr region + offset,
           arena_off = (if arena_off region < 0 then -1 else arena_off region + sint offset),
           gaddr = a,
           msize = msize region - offset,
           prot = prot region,
           sealed = sealed region,
           mm_flags = mm_flags region,
           mm_fd = (if own \<and> dupped \<ge> 0 then dupped else mm_fd region),
           reserved = reserved region,
           owns_fd = own \<and> dupped \<ge> 0,
           shm_id = shm_id region,
           pgoff = pgoff region,
           is_global = h_junk h \<rparr>)"

definition split_region :: "host \<Rightarrow> mm \<Rightarrow> nat \<Rightarrow> gaddr \<Rightarrow> mm option" where
  "split_region h mm region a =
     (if \<not> is_page_aligned a then None
      else
        let r = mm_store mm region;
            tail = mm_next mm;
            mm1 = mm\<lparr> mm_store := (mm_store mm)(tail := split_tail h r a,
                                               region := r\<lparr> msize := split_offset r a \<rparr>),
                      mm_next := Suc tail,
                      mm_regions := list_add_after tail region (mm_regions mm) \<rparr>
        in case rb_insert (cmp_in mm1 (split_tail h r a)) tail (mm_region_tree mm1) of
             None \<Rightarrow> None
           | Some (Inl clash) \<Rightarrow> Some mm1
           | Some (Inr tree) \<Rightarrow> Some (mm1\<lparr> mm_region_tree := tree \<rparr>))"

definition regions_adjoin :: "mm_region \<Rightarrow> mm_region \<Rightarrow> bool" where
  "regions_adjoin a b \<longleftrightarrow>
     gaddr a + msize a = gaddr b \<and>
     haddr a + msize a = haddr b \<and>
     prot a = prot b \<and> mm_flags a = mm_flags b \<and>
     sealed a = sealed b \<and> reserved a = reserved b \<and>
     shm_id a = shm_id b \<and> is_global a = is_global b \<and>
     \<not> (mm_fd a \<ge> 0 \<or> mm_fd b \<ge> 0) \<and>
     mm_flags a AND LINUX_MAP_ANON \<noteq> 0 \<and>
     (arena_off a < 0 \<longleftrightarrow> arena_off b < 0) \<and>
     \<not> (arena_off a \<ge> 0 \<and> arena_off a + sint (msize a) \<noteq> arena_off b)"

text \<open>One round of either loop of \<^verbatim>\<open>merge_region\<close>: \<open>gone\<close> is taken out, \<open>keep\<close> grows over it.\<close>

definition absorb :: "mm \<Rightarrow> nat \<Rightarrow> nat \<Rightarrow> mm option" where
  "absorb mm keep gone =
     (case rb_remove gone (mm_region_tree mm) of
        None \<Rightarrow> None
      | Some tree \<Rightarrow>
          let k = mm_store mm keep
          in Some (mm\<lparr> mm_regions := remove1 gone (mm_regions mm),
                       mm_region_tree := tree,
                       mm_store := (mm_store mm)(keep := k\<lparr> msize := msize k + msize (mm_store mm gone) \<rparr>) \<rparr>))"

lemma list_prev_mem: "list_prev e xs = Some p \<Longrightarrow> e \<in> set xs"
  by (induction e xs rule: list_prev.induct) (auto split: if_splits)

lemma list_next_mem: "list_next e xs = Some n \<Longrightarrow> n \<in> set xs"
  by (induction e xs rule: list_next.induct) (auto split: if_splits)

lemma absorb_length:
  "absorb mm keep gone = Some mm' \<Longrightarrow> gone \<in> set (mm_regions mm) \<Longrightarrow>
   length (mm_regions mm') < length (mm_regions mm)"
  using length_pos_if_in_set [of gone "mm_regions mm"]
  by (auto simp: absorb_def Let_def length_remove1 split: option.splits)

function merge_back :: "mm \<Rightarrow> nat \<Rightarrow> (mm \<times> nat) option" where
  "merge_back mm region =
     (case list_prev region (mm_regions mm) of
        None \<Rightarrow> Some (mm, region)
      | Some prev \<Rightarrow>
          if regions_adjoin (mm_store mm prev) (mm_store mm region)
          then (case absorb mm prev region of None \<Rightarrow> None | Some mm' \<Rightarrow> merge_back mm' prev)
          else Some (mm, region))"
  by pat_completeness auto
termination
  by (relation "measure (\<lambda>(mm, r). length (mm_regions mm))")
     (auto dest: absorb_length list_prev_mem)

function merge_forward :: "mm \<Rightarrow> nat \<Rightarrow> mm option" where
  "merge_forward mm region =
     (case list_next region (mm_regions mm) of
        None \<Rightarrow> Some mm
      | Some nxt \<Rightarrow>
          if regions_adjoin (mm_store mm region) (mm_store mm nxt)
          then (case absorb mm region nxt of None \<Rightarrow> None | Some mm' \<Rightarrow> merge_forward mm' region)
          else Some mm)"
  by pat_completeness auto
termination
  by (relation "measure (\<lambda>(mm, r). length (mm_regions mm))")
     (auto dest: absorb_length list_next_mem)

declare merge_back.simps [simp del] merge_forward.simps [simp del]

definition merge_region :: "mm \<Rightarrow> nat \<Rightarrow> mm option" where
  "merge_region mm region =
     (case merge_back mm region of None \<Rightarrow> None | Some (mm', r) \<Rightarrow> merge_forward mm' r)"

definition new_region :: "u64 \<Rightarrow> gaddr \<Rightarrow> u64 \<Rightarrow> u32 \<Rightarrow> u32 \<Rightarrow> int \<Rightarrow> int \<Rightarrow> mm_region" where
  "new_region ha a s pr fl fd off =
     \<lparr> haddr = ha, arena_off = -1, gaddr = a, msize = s, prot = pr, sealed = False,
       mm_flags = fl, mm_fd = fd, reserved = False, owns_fd = False, shm_id = -1, pgoff = off,
       is_global = False \<rparr>"

text \<open>\<^verbatim>\<open>record_region\<close>; the identity of the new region is the answer, a clash is a panic.\<close>

definition record_region ::
  "mm \<Rightarrow> u64 \<Rightarrow> gaddr \<Rightarrow> u64 \<Rightarrow> u32 \<Rightarrow> u32 \<Rightarrow> int \<Rightarrow> int \<Rightarrow> (mm \<times> nat) option" where
  "record_region mm ha a s pr fl fd off =
     (if a = 0 then None
      else
        let region = mm_next mm;
            r = new_region ha a s pr fl fd off;
            mm1 = mm\<lparr> mm_store := (mm_store mm)(region := r), mm_next := Suc region \<rparr>
        in case rb_insert (cmp_in mm1 r) region (mm_region_tree mm1) of
             Some (Inr tree) \<Rightarrow>
               Some (mm1\<lparr> mm_region_tree := tree,
                          mm_regions := (case rb_prev region tree of
                                           None \<Rightarrow> region # mm_regions mm1
                                         | Some prev \<Rightarrow> list_add_after region prev (mm_regions mm1)) \<rparr>,
                     region)
           | _ \<Rightarrow> None)"

definition is_region_private :: "mm_region \<Rightarrow> bool" where
  "is_region_private r \<longleftrightarrow> mm_flags r AND LINUX_MAP_SHARED = 0 \<and> mm_fd r = -1"

definition init_mm :: mm where
  "init_mm = \<lparr> mm_store = (\<lambda>_. probe 0 0), mm_next = 0, mm_region_tree = Null, mm_regions = [],
     start_brk = 0, current_brk = 0, current_mmap_top = 0x00000000c0000000 \<rparr>"

section \<open>The invariant\<close>

text \<open>
  \<open>rlo\<close> and \<open>rhi\<close> are the ends of a region as numbers, so that a statement about
  them is not disturbed by wrap-around.
\<close>

definition rlo :: "mm_region \<Rightarrow> nat" where
  "rlo r = unat (gaddr r)"

definition rhi :: "mm_region \<Rightarrow> nat" where
  "rhi r = unat (gaddr r) + unat (msize r)"

definition region_ok :: "mm_region \<Rightarrow> bool" where
  "region_ok r \<longleftrightarrow> 0 < msize r \<and> rhi r < 2 ^ 63 \<and> 4096 dvd rlo r \<and> 4096 dvd rhi r"

definition mm_inv :: "mm \<Rightarrow> bool" where
  "mm_inv mm \<longleftrightarrow>
     rb_inv (mm_region_tree mm) \<and> inorder (mm_region_tree mm) = mm_regions mm \<and>
     distinct (mm_regions mm) \<and>
     (\<forall>i\<in>set (mm_regions mm). i < mm_next mm \<and> region_ok (mm_store mm i)) \<and>
     sorted_wrt (\<lambda>i j. rhi (mm_store mm i) \<le> rlo (mm_store mm j)) (mm_regions mm)"

text \<open>
  What the guest's address space looks like from outside: for an address, where
  its byte is on the host and what may be done with it.  \<open>view\<close> asks the code's
  own lookup.
\<close>

record cell =
  c_haddr :: u64
  c_arena :: "int option"
  c_prot :: u32
  c_flags :: u32
  c_sealed :: bool
  c_reserved :: bool
  c_shm :: int

definition cell_of :: "mm_region \<Rightarrow> gaddr \<Rightarrow> cell" where
  "cell_of r a =
     \<lparr> c_haddr = haddr r + (a - gaddr r),
       c_arena = (if arena_off r < 0 then None else Some (arena_off r + int (unat a - rlo r))),
       c_prot = prot r, c_flags = mm_flags r, c_sealed = sealed r, c_reserved = reserved r,
       c_shm = shm_id r \<rparr>"

definition view :: "mm \<Rightarrow> gaddr \<Rightarrow> cell option" where
  "view mm a = map_option (\<lambda>i. cell_of (mm_store mm i) a) (find_region a mm)"

definition in_region :: "mm_region \<Rightarrow> gaddr \<Rightarrow> bool" where
  "in_region r a \<longleftrightarrow> rlo r \<le> unat a \<and> unat a < rhi r"

section \<open>Lookup\<close>

lemma region_compare_nat:
  assumes "region_ok r2" "unat (gaddr r1) + unat (msize r1) < 2 ^ 64"
  shows "region_compare r1 r2 = (if rhi r2 \<le> rlo r1 then 1 else if rhi r1 \<le> rlo r2 then -1 else 0)"
proof -
  have "unat (gaddr r2 + msize r2) = rhi r2" "unat (gaddr r1 + msize r1) = rhi r1"
    using assms by (simp_all add: rhi_def region_ok_def unat_word_ariths)
  then show ?thesis
    by (simp add: region_compare_def rlo_def word_le_nat_alt)
qed

lemma mm_invD:
  assumes "mm_inv mm"
  shows "rb_inv (mm_region_tree mm)" "inorder (mm_region_tree mm) = mm_regions mm"
    "distinct (mm_regions mm)" "i \<in> set (mm_regions mm) \<Longrightarrow> i < mm_next mm"
    "i \<in> set (mm_regions mm) \<Longrightarrow> region_ok (mm_store mm i)"
    "sorted_wrt (\<lambda>i j. rhi (mm_store mm i) \<le> rlo (mm_store mm j)) (mm_regions mm)"
  using assms by (auto simp: mm_inv_def)

lemma probe_sel [simp]: "gaddr (probe a s) = a" "msize (probe a s) = s"
  by (simp_all add: probe_def)

lemma region_ok_less: "region_ok r \<Longrightarrow> rlo r < rhi r"
  by (simp add: region_ok_def rlo_def rhi_def word_less_nat_alt)

text \<open>An interval probe is monotone along regions that follow one another.\<close>

lemma cmp_in_mono_aux:
  assumes "sorted_wrt (\<lambda>i j. rhi (st i) \<le> rlo (st j)) xs" "\<forall>i\<in>set xs. region_ok (st i)"
    and "unat (gaddr r) + unat (msize r) < 2 ^ 64"
  shows "probe_mono (\<lambda>n. region_compare r (st n)) xs"
  using assms(1,2)
proof (induction xs)
  case (Cons x xs)
  have "(region_compare r (st x) < 0 \<longrightarrow> region_compare r (st y) < 0) \<and>
        (0 < region_compare r (st y) \<longrightarrow> 0 < region_compare r (st x))" if "y \<in> set xs" for y
  proof -
    have "region_ok (st x)" "region_ok (st y)" "rhi (st x) \<le> rlo (st y)"
      using Cons.prems that by auto
    then show ?thesis
      using region_compare_nat [OF _ assms(3)] region_ok_less [of "st x"] region_ok_less [of "st y"]
      by (auto split: if_splits)
  qed
  then show ?case
    using Cons by (simp add: probe_mono_Cons)
qed (simp add: probe_mono_def)

lemma cmp_in_mono:
  assumes "mm_inv mm" "unat (gaddr r) + unat (msize r) < 2 ^ 64"
  shows "probe_mono (cmp_in mm r) (inorder (mm_region_tree mm))"
  using cmp_in_mono_aux [of "mm_store mm" "mm_regions mm" r] mm_invD [OF assms(1)] assms(2)
  by (simp add: cmp_in_def [abs_def])

lemma disjoint_regions:
  assumes "mm_inv mm" "i \<in> set (mm_regions mm)" "j \<in> set (mm_regions mm)"
    "in_region (mm_store mm i) a" "in_region (mm_store mm j) a"
  shows "i = j"
proof (rule ccontr)
  assume "i \<noteq> j"
  have "sorted_wrt (\<lambda>i j. rhi (st i) \<le> rlo (st j)) xs \<Longrightarrow> i \<in> set xs \<Longrightarrow> j \<in> set xs \<Longrightarrow>
     rhi (st i) \<le> rlo (st j) \<or> rhi (st j) \<le> rlo (st i)" for xs and st :: "nat \<Rightarrow> mm_region"
    using \<open>i \<noteq> j\<close> by (induction xs) auto
  then have "rhi (mm_store mm i) \<le> rlo (mm_store mm j) \<or> rhi (mm_store mm j) \<le> rlo (mm_store mm i)"
    using mm_invD(6) [OF assms(1)] assms(2,3) by blast
  then show False
    using assms(4,5) by (auto simp: in_region_def)
qed

lemma cmp_in_probe:
  assumes "mm_inv mm" "i \<in> set (mm_regions mm)" "unat a + unat s < 2 ^ 64"
  shows "cmp_in mm (probe a s) i = 0 \<longleftrightarrow>
    unat a < rhi (mm_store mm i) \<and> rlo (mm_store mm i) < unat a + unat s"
  using region_compare_nat [of "mm_store mm i" "probe a s"] mm_invD(5) [OF assms(1,2)] assms(3)
  by (auto simp: cmp_in_def rlo_def rhi_def)

lemma find_region_probe:
  assumes "mm_inv mm" "unat a + 1 < 2 ^ 64"
  shows "find_region a mm = Some i \<longleftrightarrow> i \<in> set (mm_regions mm) \<and> in_region (mm_store mm i) a"
proof -
  have eq: "cmp_in mm (probe a 1) j = 0 \<longleftrightarrow> in_region (mm_store mm j) a"
    if "j \<in> set (mm_regions mm)" for j
    using cmp_in_probe [OF assms(1) that, of a 1] assms(2) by (auto simp: in_region_def)
  show ?thesis
    unfolding find_region_def
    using rb.lookup_iff [OF cmp_in_mono [OF assms(1), of "probe a 1"], of i]
      disjoint_regions [OF assms(1)] eq assms(2)
    by (simp add: mm_invD(2) [OF assms(1)])
       (metis eq)
qed

text \<open>The last address wraps in the probe, but every region ends below it.\<close>

lemma find_region_last:
  assumes "mm_inv mm" "unat a + 1 = 2 ^ 64"
  shows "find_region a mm = None \<and> (\<forall>i\<in>set (mm_regions mm). \<not> in_region (mm_store mm i) a)"
proof -
  have r: "rhi (mm_store mm i) \<le> unat a" "0 < cmp_in mm (probe a 1) i"
    if "i \<in> set (mm_regions mm)" for i
  proof -
    have ok: "region_ok (mm_store mm i)"
      using mm_invD(5) [OF assms(1) that] .
    then show le: "rhi (mm_store mm i) \<le> unat a"
      using assms(2) by (simp add: region_ok_def)
    have "unat (gaddr (mm_store mm i) + msize (mm_store mm i)) = rhi (mm_store mm i)"
      using ok by (simp add: rhi_def region_ok_def unat_word_ariths)
    then show "0 < cmp_in mm (probe a 1) i"
      using le by (simp add: cmp_in_def region_compare_def word_le_nat_alt)
  qed
  have "probe_mono (cmp_in mm (probe a 1)) (mm_regions mm @ [])"
    using r(2) by (intro probe_mono_signs) auto
  then have "find_region a mm = None"
    unfolding find_region_def
    using r(2) by (subst rb.lookup_None) (force simp: mm_invD(2) [OF assms(1)])+
  then show ?thesis
    using r(1) by (simp add: in_region_def not_less)
qed

lemma find_region_iff:
  assumes "mm_inv mm"
  shows "find_region a mm = Some i \<longleftrightarrow> i \<in> set (mm_regions mm) \<and> in_region (mm_store mm i) a"
proof (cases "unat a + 1 < 2 ^ 64")
  case True
  then show ?thesis by (rule find_region_probe [OF assms])
next
  case False
  moreover have "unat a < 2 ^ 64"
    using unsigned_less [of a] by simp
  ultimately show ?thesis
    using find_region_last [OF assms, of a] by auto
qed

lemma view_Some:
  assumes "mm_inv mm"
  shows "view mm a = Some c \<longleftrightarrow>
    (\<exists>i\<in>set (mm_regions mm). in_region (mm_store mm i) a \<and> c = cell_of (mm_store mm i) a)"
  by (auto simp: view_def find_region_iff [OF assms])

definition overlaps :: "mm_region \<Rightarrow> nat \<Rightarrow> nat \<Rightarrow> bool" where
  "overlaps r lo hi \<longleftrightarrow> lo < rhi r \<and> rlo r < hi"

lemma left_chain_ok:
  "t \<noteq> Null \<Longrightarrow> f (rb_elm t) = 0 \<Longrightarrow> \<exists>y. left_chain f t = Some y \<and> y \<in> set (inorder t) \<and> f y = 0"
  by (induction f t rule: left_chain.induct) auto

lemma find_region_range_ok:
  assumes "mm_inv mm" "unat a + unat s < 2 ^ 64"
  shows "case find_region_range a s mm of
      None \<Rightarrow> \<forall>i\<in>set (mm_regions mm). \<not> overlaps (mm_store mm i) (unat a) (unat a + unat s)
    | Some i \<Rightarrow> i \<in> set (mm_regions mm) \<and> overlaps (mm_store mm i) (unat a) (unat a + unat s)"
proof -
  let ?f = "cmp_in mm (probe a s)" and ?t = "mm_region_tree mm"
  have z: "?f i = 0 \<longleftrightarrow> overlaps (mm_store mm i) (unat a) (unat a + unat s)"
    if "i \<in> set (mm_regions mm)" for i
    using cmp_in_probe [OF assms(1) that assms(2)] by (simp add: overlaps_def)
  have m: "probe_mono ?f (inorder ?t)"
    using cmp_in_mono [OF assms(1), of "probe a s"] assms(2) by simp
  note i = mm_invD(2) [OF assms(1)]
  show ?thesis
  proof (cases "rb_find ?f ?t")
    case None
    then show ?thesis
      using rb.lookup_None [OF m] z i by (simp add: find_region_range_def)
  next
    case (Some x)
    then have x: "x \<in> set (inorder ?t)" "?f x = 0"
      using rb.lookup_ok [OF m] by simp_all
    obtain sub up where loc: "locate x ?t [] = Some (sub, up)"
      using locate_Some [OF x(1), of "[]"] by auto
    obtain l c r where sub: "sub = Elm l c x r"
      using locate_elm [OF loc] by blast
    have "inorder ?t = before up @ inorder sub @ after up"
      using locate_root [OF loc] inorder_root_of [of sub up] by simp
    moreover obtain y where y: "left_chain ?f sub = Some y" "y \<in> set (inorder sub)" "?f y = 0"
      using left_chain_ok [of sub ?f] x(2) sub by auto
    ultimately have mem: "y \<in> set (mm_regions mm)"
      using i by simp
    have "find_region_range a s mm = Some y"
      by (simp add: find_region_range_def Some loc y(1))
    then show ?thesis
      using mem z [OF mem] y(3) by simp
  qed
qed

section \<open>Splitting\<close>

lemma page_aligned_dvd: "is_page_aligned a \<longleftrightarrow> 4096 dvd unat a"
  using and_mask_dvd_nat [of 12 a] by (simp add: is_page_aligned_def mask_eq_exp_minus_1)

lemma list_add_after_split:
  "e \<notin> set xs \<Longrightarrow> list_add_after n e (xs @ e # ys) = xs @ e # n # ys"
  by (induction xs) auto

lemma sorted_store_cong:
  assumes "\<And>i. i \<in> set xs \<Longrightarrow> st' i = st i"
  shows "sorted_wrt (\<lambda>i j. rhi (st' i) \<le> rlo (st' j)) xs
     = sorted_wrt (\<lambda>i j. rhi (st i) \<le> rlo (st j)) xs"
proof
  assume "sorted_wrt (\<lambda>i j. rhi (st' i) \<le> rlo (st' j)) xs"
  then show "sorted_wrt (\<lambda>i j. rhi (st i) \<le> rlo (st j)) xs"
    by (rule sorted_wrt_mono_rel [rotated]) (simp add: assms)
next
  assume "sorted_wrt (\<lambda>i j. rhi (st i) \<le> rlo (st j)) xs"
  then show "sorted_wrt (\<lambda>i j. rhi (st' i) \<le> rlo (st' j)) xs"
    by (rule sorted_wrt_mono_rel [rotated]) (simp add: assms)
qed

text \<open>The invariant at one region of the list, and how to establish it for an updated list.\<close>

definition in_order :: "(nat \<Rightarrow> mm_region) \<Rightarrow> nat list \<Rightarrow> bool" where
  "in_order st xs \<longleftrightarrow>
     distinct xs \<and> (\<forall>i\<in>set xs. region_ok (st i)) \<and>
     sorted_wrt (\<lambda>i j. rhi (st i) \<le> rlo (st j)) xs"

lemma mm_inv_alt:
  "mm_inv mm \<longleftrightarrow>
     rb_inv (mm_region_tree mm) \<and> inorder (mm_region_tree mm) = mm_regions mm \<and>
     (\<forall>i\<in>set (mm_regions mm). i < mm_next mm) \<and> in_order (mm_store mm) (mm_regions mm)"
  by (auto simp: mm_inv_def in_order_def)

lemma in_order_cong: "(\<And>i. i \<in> set xs \<Longrightarrow> st' i = st i) \<Longrightarrow> in_order st' xs = in_order st xs"
  using sorted_store_cong [of xs st' st] by (auto simp: in_order_def)

lemma in_order_append:
  "in_order st (xs @ ys) \<longleftrightarrow>
     in_order st xs \<and> in_order st ys \<and> set xs \<inter> set ys = {} \<and>
     (\<forall>x\<in>set xs. \<forall>y\<in>set ys. rhi (st x) \<le> rlo (st y))"
  by (auto simp: in_order_def sorted_wrt_append)

lemma in_order_Cons:
  "in_order st (x # ys) \<longleftrightarrow>
     region_ok (st x) \<and> x \<notin> set ys \<and> in_order st ys \<and> (\<forall>y\<in>set ys. rhi (st x) \<le> rlo (st y))"
  by (auto simp: in_order_def)

lemma in_order_Nil [simp]: "in_order st []"
  by (simp add: in_order_def)

lemmas in_order_simps = in_order_append in_order_Cons

lemma split_tail_ends:
  assumes "region_ok r" "rlo r < unat a" "unat a < rhi r" "unat a - rlo r < 2 ^ 31"
  shows "rlo (split_tail h r a) = unat a" "rhi (split_tail h r a) = rhi r"
    "split_offset r a = a - gaddr r" "unat (a - gaddr r) = unat a - rlo r"
proof -
  show u: "unat (a - gaddr r) = unat a - rlo r"
    using unat_between [of "gaddr r" a] assms(2) by (simp add: rlo_def)
  then show off: "split_offset r a = a - gaddr r"
    using scast_ucast_small(1) [of "a - gaddr r"] assms(4) by (simp add: split_offset_def)
  show "rlo (split_tail h r a) = unat a"
    by (simp add: rlo_def split_tail_def Let_def)
  have "unat (msize r - (a - gaddr r)) = unat (msize r) - (unat a - rlo r)"
    using unat_between [of "a - gaddr r" "msize r"] assms(3) u by (simp add: rhi_def rlo_def)
  then show "rhi (split_tail h r a) = rhi r"
    using assms(2,3) by (simp add: rhi_def rlo_def split_tail_def Let_def off)
qed

lemma split_tail_cell:
  assumes "region_ok r" "rlo r < unat a" "unat a < rhi r" "unat a - rlo r < 2 ^ 31"
    and "in_region (split_tail h r a) b"
  shows "cell_of (split_tail h r a) b = cell_of r b"
proof -
  note ends = split_tail_ends [OF assms(1-4)]
  have le: "unat a \<le> unat b"
    using assms(5) ends(1) by (simp add: in_region_def)
  have s: "sint (a - gaddr r) = int (unat a - rlo r)"
    using scast_ucast_small(2) [of "a - gaddr r"] ends(4) assms(4) by simp
  have d: "unat b - rlo r = (unat a - rlo r) + (unat b - unat a)"
    using le assms(2) by simp
  define d1 d2 where "d1 = unat a - rlo r" and "d2 = unat b - unat a"
  have f: "haddr (split_tail h r a) = haddr r + (a - gaddr r)"
    "arena_off (split_tail h r a) = (if arena_off r < 0 then -1 else arena_off r + int d1)"
    "gaddr (split_tail h r a) = a" "prot (split_tail h r a) = prot r"
    "mm_flags (split_tail h r a) = mm_flags r" "sealed (split_tail h r a) = sealed r"
    "reserved (split_tail h r a) = reserved r" "shm_id (split_tail h r a) = shm_id r"
    using s by (simp_all add: split_tail_def Let_def ends(3) d1_def)
  have "unat b - rlo r = d1 + d2" "unat b - rlo (split_tail h r a) = d2"
    using d ends(1) by (simp_all add: d1_def d2_def)
  then show ?thesis
    by (simp add: cell_of_def f)
qed

lemma region_okI: "rlo r < rhi r \<Longrightarrow> rhi r < 2 ^ 63 \<Longrightarrow> 4096 dvd rlo r \<Longrightarrow> 4096 dvd rhi r \<Longrightarrow> region_ok r"
  by (simp add: region_ok_def rlo_def rhi_def word_less_nat_alt)

lemma rsize_update [simp]:
  "rlo (r\<lparr> msize := s \<rparr>) = rlo r" "rhi (r\<lparr> msize := s \<rparr>) = rlo r + unat s"
  "cell_of (r\<lparr> msize := s \<rparr>) b = cell_of r b"
  by (simp_all add: rlo_def rhi_def cell_of_def)

lemma region_ok_split:
  assumes "region_ok r" "rlo r < unat a" "unat a < rhi r" "unat a - rlo r < 2 ^ 31"
    "is_page_aligned a"
  shows "region_ok (split_tail h r a)" "region_ok (r\<lparr> msize := a - gaddr r \<rparr>)"
    "rhi (r\<lparr> msize := a - gaddr r \<rparr>) = unat a"
proof -
  note ends = split_tail_ends [OF assms(1-4)]
  show e: "rhi (r\<lparr> msize := a - gaddr r \<rparr>) = unat a"
    using ends(4) assms(2) by simp
  show "region_ok (split_tail h r a)"
    using assms ends(1,2) by (intro region_okI) (simp_all add: region_ok_def page_aligned_dvd)
  show "region_ok (r\<lparr> msize := a - gaddr r \<rparr>)"
    using assms e by (intro region_okI) (simp_all add: region_ok_def page_aligned_dvd)
qed

lemma in_order_okD: "in_order st xs \<Longrightarrow> i \<in> set xs \<Longrightarrow> region_ok (st i)"
  by (simp add: in_order_def)

lemma cmp_after:
  "region_ok r \<Longrightarrow> region_ok (mm_store mm i) \<Longrightarrow> rhi (mm_store mm i) \<le> rlo r \<Longrightarrow> 0 < cmp_in mm r i"
  using region_compare_nat [of "mm_store mm i" r]
  by (simp add: cmp_in_def region_ok_def rhi_def)

lemma cmp_before:
  assumes "region_ok r" "region_ok (mm_store mm i)" "rhi r \<le> rlo (mm_store mm i)"
  shows "cmp_in mm r i < 0"
proof -
  have "\<not> rhi (mm_store mm i) \<le> rlo r"
    using assms region_ok_less [of r] region_ok_less [of "mm_store mm i"] by linarith
  then show ?thesis
    using region_compare_nat [of "mm_store mm i" r] assms
    by (simp add: cmp_in_def region_ok_def rhi_def)
qed

text \<open>
  What every operation of this theory leaves alone: the break and the place
  where the next mapping goes.
\<close>

definition same_brk :: "mm \<Rightarrow> mm \<Rightarrow> bool" where
  "same_brk mm mm' \<longleftrightarrow> start_brk mm' = start_brk mm \<and> current_brk mm' = current_brk mm
     \<and> current_mmap_top mm' = current_mmap_top mm"

definition split_store :: "host \<Rightarrow> mm \<Rightarrow> nat \<Rightarrow> gaddr \<Rightarrow> nat \<Rightarrow> mm_region" where
  "split_store h mm i a =
     (let r = mm_store mm i
      in (mm_store mm)(mm_next mm := split_tail h r a, i := r\<lparr> msize := a - gaddr r \<rparr>))"

lemma split_region_ok:
  assumes inv: "mm_inv mm" and regs: "mm_regions mm = xs @ i # ys"
    and al: "is_page_aligned a"
    and in1: "rlo (mm_store mm i) < unat a" and in2: "unat a < rhi (mm_store mm i)"
    and small: "unat a - rlo (mm_store mm i) < 2 ^ 31"
  shows "\<exists>mm'. split_region h mm i a = Some mm' \<and> mm_inv mm'
    \<and> mm_regions mm' = xs @ i # mm_next mm # ys \<and> mm_store mm' = split_store h mm i a
    \<and> mm_next mm' = Suc (mm_next mm) \<and> same_brk mm mm'"
proof -
  let ?t = "mm_next mm" and ?r = "mm_store mm i" and ?st = "split_store h mm i a"
  have i: "i \<in> set (mm_regions mm)"
    by (simp add: regs)
  have ok: "region_ok ?r" and fresh: "\<And>j. j \<in> set (mm_regions mm) \<Longrightarrow> j < ?t"
    using mm_invD(4,5) [OF inv] i by auto
  have ti: "?t \<noteq> i"
    using fresh [OF i] by simp
  note ends = split_tail_ends [OF ok in1 in2 small] and oks = region_ok_split [OF ok in1 in2 small al]
  have stt: "?st ?t = split_tail h ?r a" and sti: "?st i = ?r\<lparr> msize := a - gaddr ?r \<rparr>"
    using ti by (simp_all add: split_store_def Let_def)
  have sto: "?st j = mm_store mm j" if "j \<in> set xs \<union> set ys" for j
    using that fresh [of j] mm_invD(3) [OF inv] regs by (auto simp: split_store_def Let_def)
  have old: "in_order (mm_store mm) (xs @ i # ys)"
    using inv regs by (simp add: mm_inv_alt)
  have new: "in_order ?st (xs @ i # ?t # ys)"
    using old in_order_cong [of xs ?st "mm_store mm"] in_order_cong [of ys ?st "mm_store mm"]
      sto stt sti oks ends in1 in2 fresh regs ti
    by (force simp: in_order_simps)
  define mm1 where "mm1 = mm\<lparr> mm_store := ?st, mm_next := Suc ?t,
    mm_regions := list_add_after ?t i (mm_regions mm) \<rparr>"
  have lst: "mm_regions mm1 = xs @ i # ?t # ys"
    using mm_invD(3) [OF inv] regs list_add_after_split [of i xs ?t ys] by (simp add: mm1_def)
  have "0 < cmp_in mm1 (split_tail h ?r a) x" if "x \<in> set (xs @ [i])" for x
    using that new oks(1) stt by (intro cmp_after) (auto simp: in_order_simps mm1_def dest: in_order_okD)
  moreover have "cmp_in mm1 (split_tail h ?r a) y < 0" if "y \<in> set ys" for y
    using that new oks(1) stt by (intro cmp_before) (auto simp: in_order_simps mm1_def dest: in_order_okD)
  ultimately obtain tree where tree: "rb_insert (cmp_in mm1 (split_tail h ?r a)) ?t (mm_region_tree mm)
      = Some (Inr tree)" "rb_inv tree" "inorder tree = (xs @ [i]) @ ?t # ys"
    using rb.add_between [of "mm_region_tree mm" "xs @ [i]" ys "cmp_in mm1 (split_tail h ?r a)" ?t]
      mm_invD(1,2) [OF inv] regs by auto
  have "split_region h mm i a = Some (mm1\<lparr> mm_region_tree := tree \<rparr>)"
    using al ends(3) tree(1)
    by (simp add: split_region_def Let_def mm1_def split_store_def)
  moreover have "mm_inv (mm1\<lparr> mm_region_tree := tree \<rparr>)"
    using tree(2,3) new lst fresh regs by (auto simp: mm_inv_alt mm1_def less_Suc_eq)
  ultimately show ?thesis
    using lst by (auto simp: mm1_def same_brk_def)
qed

lemma in_region_split:
  assumes "region_ok r" "rlo r < unat a" "unat a < rhi r" "unat a - rlo r < 2 ^ 31"
  shows "in_region r b \<longleftrightarrow> in_region (r\<lparr> msize := a - gaddr r \<rparr>) b \<or> in_region (split_tail h r a) b"
  using split_tail_ends [OF assms] assms(2,3) by (auto simp: in_region_def)

lemma view_cong_regions:
  assumes "mm_inv mm" "mm_inv mm'"
    and "\<And>b c. (\<exists>i\<in>set (mm_regions mm). in_region (mm_store mm i) b \<and> c = cell_of (mm_store mm i) b) \<longleftrightarrow>
           (\<exists>i\<in>set (mm_regions mm'). in_region (mm_store mm' i) b \<and> c = cell_of (mm_store mm' i) b)"
  shows "view mm = view mm'"
  by (rule map_eqI) (simp only: view_Some [OF assms(1)] view_Some [OF assms(2)] assms(3))

lemma split_region_view:
  assumes inv: "mm_inv mm" and regs: "mm_regions mm = xs @ i # ys"
    and al: "is_page_aligned a"
    and in1: "rlo (mm_store mm i) < unat a" and in2: "unat a < rhi (mm_store mm i)"
    and small: "unat a - rlo (mm_store mm i) < 2 ^ 31"
    and "split_region h mm i a = Some mm'"
  shows "view mm' = view mm"
proof -
  let ?r = "mm_store mm i"
  have i: "i \<in> set (mm_regions mm)"
    by (simp add: regs)
  have ok: "region_ok ?r" and ti: "mm_next mm \<noteq> i"
    using mm_invD(4,5) [OF inv i] by auto
  have mm': "mm_inv mm'" "mm_regions mm' = xs @ i # mm_next mm # ys" "mm_store mm' = split_store h mm i a"
    using split_region_ok [OF assms(1-6), of h] assms(7) by auto
  have sto: "mm_store mm' j = mm_store mm j" if "j \<in> set xs \<union> set ys" for j
    using that mm_invD(3,4) [OF inv] regs by (auto simp: mm'(3) split_store_def Let_def)
  have stt: "mm_store mm' (mm_next mm) = split_tail h ?r a"
    and sti: "mm_store mm' i = ?r\<lparr> msize := a - gaddr ?r \<rparr>"
    using ti by (simp_all add: mm'(3) split_store_def Let_def)
  show ?thesis
  proof (rule view_cong_regions [OF mm'(1) inv])
    fix b c
    show "(\<exists>i\<in>set (mm_regions mm'). in_region (mm_store mm' i) b \<and> c = cell_of (mm_store mm' i) b) \<longleftrightarrow>
      (\<exists>i\<in>set (mm_regions mm). in_region (mm_store mm i) b \<and> c = cell_of (mm_store mm i) b)"
      using in_region_split [OF ok in1 in2 small, of b h] split_tail_cell [OF ok in1 in2 small, of h b]
        sto stt sti by (auto simp: mm'(2) regs)
  qed
qed

section \<open>Merging\<close>

lemma list_prev_split:
  "list_prev e xs = Some p \<Longrightarrow> distinct xs \<Longrightarrow> \<exists>as bs. xs = as @ p # e # bs"
proof (induction e xs rule: list_prev.induct)
  case (1 e x y xs)
  show ?case
  proof (cases "y = e")
    case True
    then show ?thesis using 1(2) by (intro exI [of _ "[]"] exI [of _ xs]) simp
  next
    case False
    then obtain as bs where "y # xs = as @ p # e # bs"
      using 1 by auto
    then show ?thesis by (intro exI [of _ "x # as"] exI [of _ bs]) simp
  qed
qed auto

lemma list_next_split:
  "list_next e xs = Some n \<Longrightarrow> distinct xs \<Longrightarrow> \<exists>as bs. xs = as @ e # n # bs"
proof (induction e xs rule: list_next.induct)
  case (1 e x y xs)
  show ?case
  proof (cases "x = e")
    case True
    then show ?thesis using 1(2) by (intro exI [of _ "[]"] exI [of _ xs]) simp
  next
    case False
    then obtain as bs where "y # xs = as @ e # n # bs"
      using 1 by auto
    then show ?thesis by (intro exI [of _ "x # as"] exI [of _ bs]) simp
  qed
qed auto

lemma sint_msize: "region_ok r \<Longrightarrow> sint (msize r) = int (unat (msize r))"
proof -
  assume "region_ok r"
  then have "unat (msize r) < 2 ^ 63"
    by (simp add: region_ok_def rhi_def)
  then have "uint (msize r) < 2 ^ 63"
    by (simp add: uint_nat [of "msize r"] del: of_nat_unat)
  moreover have "- (2 ^ 63) \<le> uint (msize r)"
    by (rule order_trans [OF _ uint_ge_0]) simp
  ultimately have "signed_take_bit 63 (uint (msize r)) = uint (msize r)"
    by (intro signed_take_bit_int_eq_self)
  then show ?thesis
    by (simp add: sint_uint)
qed

definition merged :: "mm_region \<Rightarrow> mm_region \<Rightarrow> mm_region" where
  "merged k g = k\<lparr> msize := msize k + msize g \<rparr>"

lemma merged_ends:
  assumes "region_ok k" "region_ok g" "regions_adjoin k g"
  shows "rhi k = rlo g" "rlo (merged k g) = rlo k" "rhi (merged k g) = rhi g"
    "region_ok (merged k g)"
proof -
  have "gaddr g = gaddr k + msize k"
    using assms(3) by (simp add: regions_adjoin_def)
  then show e: "rhi k = rlo g"
    using assms(1) by (simp add: rhi_def rlo_def region_ok_def unat_word_ariths)
  show l: "rlo (merged k g) = rlo k"
    by (simp add: merged_def)
  have "unat (msize k + msize g) = unat (msize k) + unat (msize g)"
    using e assms(2) by (simp add: rhi_def rlo_def region_ok_def unat_word_ariths)
  then show h: "rhi (merged k g) = rhi g"
    using e by (simp add: merged_def rhi_def rlo_def)
  show "region_ok (merged k g)"
    using l h e assms(1,2) region_ok_less [OF assms(1)] region_ok_less [OF assms(2)]
    by (intro region_okI) (simp_all add: region_ok_def)
qed

lemma merged_cells:
  assumes "region_ok k" "region_ok g" "regions_adjoin k g"
  shows "in_region (merged k g) b \<longleftrightarrow> in_region k b \<or> in_region g b"
    "cell_of (merged k g) b = cell_of k b"
    "in_region g b \<Longrightarrow> cell_of g b = cell_of k b"
proof -
  note ends = merged_ends [OF assms]
  show "in_region (merged k g) b \<longleftrightarrow> in_region k b \<or> in_region g b"
    using ends region_ok_less [OF assms(1)] region_ok_less [OF assms(2)] by (auto simp: in_region_def)
  show "cell_of (merged k g) b = cell_of k b"
    by (simp add: merged_def)
  assume b: "in_region g b"
  define d1 d2 where "d1 = unat (msize k)" and "d2 = unat b - rlo g"
  have "unat b - rlo k = d1 + d2"
    using b ends(1) by (simp add: in_region_def d1_def d2_def rhi_def rlo_def)
  moreover have "\<not> arena_off g < 0 \<longrightarrow> arena_off g = arena_off k + int d1"
    "arena_off k < 0 \<longleftrightarrow> arena_off g < 0"
    using assms(3) sint_msize [OF assms(1)] by (auto simp: regions_adjoin_def d1_def)
  moreover have "haddr g = haddr k + msize k" "gaddr g = gaddr k + msize k"
    "prot g = prot k" "mm_flags g = mm_flags k" "sealed g = sealed k" "reserved g = reserved k"
    "shm_id g = shm_id k"
    using assms(3) by (simp_all add: regions_adjoin_def)
  ultimately show "cell_of g b = cell_of k b"
    by (simp add: cell_of_def d2_def [symmetric])
qed

text \<open>What a merge keeps: the invariant, the view and the bookkeeping; only regions go.\<close>

definition merge_keeps :: "mm \<Rightarrow> mm \<Rightarrow> bool" where
  "merge_keeps mm mm' \<longleftrightarrow> mm_inv mm' \<and> view mm' = view mm \<and> same_brk mm mm'
     \<and> mm_next mm' = mm_next mm \<and> set (mm_regions mm') \<subseteq> set (mm_regions mm)"

lemma merge_keeps_refl: "mm_inv mm \<Longrightarrow> merge_keeps mm mm"
  by (simp add: merge_keeps_def same_brk_def)

lemma merge_keeps_trans: "merge_keeps a b \<Longrightarrow> merge_keeps b c \<Longrightarrow> merge_keeps a c"
  by (auto simp: merge_keeps_def same_brk_def)

lemma in_order_upd [simp]: "k \<notin> set xs \<Longrightarrow> in_order (st(k := v)) xs = in_order st xs"
  by (rule in_order_cong) auto

lemma absorb_ok:
  assumes inv: "mm_inv mm" and regs: "mm_regions mm = xs @ k # g # ys"
    and adj: "regions_adjoin (mm_store mm k) (mm_store mm g)"
  shows "\<exists>mm'. absorb mm k g = Some mm' \<and> mm_regions mm' = xs @ k # ys
    \<and> mm_store mm' = (mm_store mm)(k := merged (mm_store mm k) (mm_store mm g)) \<and> merge_keeps mm mm'"
proof -
  let ?st = "mm_store mm" and ?st' = "(mm_store mm)(k := merged (mm_store mm k) (mm_store mm g))"
  have old: "in_order ?st (xs @ k # g # ys)" and d: "distinct (xs @ k # g # ys)"
    using inv regs by (simp_all add: mm_inv_alt in_order_def)
  have ok: "region_ok (?st k)" "region_ok (?st g)"
    using old by (simp_all add: in_order_simps)
  note ends = merged_ends [OF ok adj] and cells = merged_cells [OF ok adj]
  obtain tree where tree: "rb_remove g (mm_region_tree mm) = Some tree" "rb_inv tree"
      "inorder tree = xs @ k # ys"
    using rb.del_between [of "mm_region_tree mm" "xs @ [k]" g ys] mm_invD(1,2) [OF inv] regs d by auto
  define mm' where "mm' = mm\<lparr> mm_regions := remove1 g (mm_regions mm), mm_region_tree := tree,
    mm_store := ?st' \<rparr>"
  have "absorb mm k g = Some mm'"
    by (simp add: absorb_def tree(1) mm'_def merged_def Let_def)
  moreover have regs': "mm_regions mm' = xs @ k # ys"
    using d by (auto simp: mm'_def regs remove1_append)
  moreover have "in_order ?st' (xs @ k # ys)"
    using old ends d by (auto simp: in_order_simps)
  then have inv': "mm_inv mm'"
    using tree(2,3) regs' mm_invD(4) [OF inv] regs by (auto simp: mm_inv_alt mm'_def)
  have sto: "mm_store mm' k = merged (?st k) (?st g)"
    "\<And>j. j \<in> set xs \<union> set ys \<Longrightarrow> mm_store mm' j = ?st j"
    using d by (auto simp: mm'_def)
  have "view mm' = view mm"
  proof (rule view_cong_regions [OF inv' inv])
    fix b c
    show "(\<exists>i\<in>set (mm_regions mm'). in_region (mm_store mm' i) b \<and> c = cell_of (mm_store mm' i) b) \<longleftrightarrow>
      (\<exists>i\<in>set (mm_regions mm). in_region (mm_store mm i) b \<and> c = cell_of (mm_store mm i) b)"
      using sto cells [of b] by (auto simp: regs regs')
  qed
  then have "merge_keeps mm mm'"
    using inv' regs regs' by (auto simp: merge_keeps_def same_brk_def) (simp_all add: mm'_def)
  ultimately show ?thesis
    by (auto simp: mm'_def)
qed

definition joins_prev :: "mm \<Rightarrow> nat \<Rightarrow> bool" where
  "joins_prev mm i \<longleftrightarrow> (case list_prev i (mm_regions mm) of
     None \<Rightarrow> False | Some p \<Rightarrow> regions_adjoin (mm_store mm p) (mm_store mm i))"

definition joins_next :: "mm \<Rightarrow> nat \<Rightarrow> bool" where
  "joins_next mm i \<longleftrightarrow> (case list_next i (mm_regions mm) of
     None \<Rightarrow> False | Some n \<Rightarrow> regions_adjoin (mm_store mm i) (mm_store mm n))"

lemma merge_back_ok:
  assumes "mm_inv mm" "i \<in> set (mm_regions mm)"
  shows "\<exists>mm' r. merge_back mm i = Some (mm', r) \<and> merge_keeps mm mm' \<and> r \<in> set (mm_regions mm')
    \<and> \<not> joins_prev mm' r"
  using assms
proof (induction mm i rule: merge_back.induct)
  case (1 mm i)
  show ?case
  proof (cases "joins_prev mm i")
    case False
    then have "merge_back mm i = Some (mm, i)"
      by (subst merge_back.simps) (auto simp: joins_prev_def split: option.splits)
    then show ?thesis
      using False 1(2,3) merge_keeps_refl by blast
  next
    case True
    then obtain p where p: "list_prev i (mm_regions mm) = Some p"
        "regions_adjoin (mm_store mm p) (mm_store mm i)"
      by (auto simp: joins_prev_def split: option.splits)
    obtain as bs where "mm_regions mm = as @ p # i # bs"
      using list_prev_split [OF p(1) mm_invD(3) [OF 1(2)]] by blast
    from absorb_ok [OF 1(2) this p(2)] obtain mm1 where
      mm1: "absorb mm p i = Some mm1" "mm_regions mm1 = as @ p # bs" "merge_keeps mm mm1"
      by blast
    have "mm_inv mm1" "p \<in> set (mm_regions mm1)"
      using mm1 by (simp_all add: merge_keeps_def)
    from 1(1) [OF p mm1(1) this] show ?thesis
      using p mm1 merge_keeps_trans [OF mm1(3)]
      by (subst merge_back.simps) (auto simp del: merge_back.simps)
  qed
qed

lemma merge_forward_ok:
  assumes "mm_inv mm" "i \<in> set (mm_regions mm)"
  shows "\<exists>mm'. merge_forward mm i = Some mm' \<and> merge_keeps mm mm' \<and> i \<in> set (mm_regions mm')
    \<and> \<not> joins_next mm' i"
  using assms
proof (induction mm i rule: merge_forward.induct)
  case (1 mm i)
  show ?case
  proof (cases "joins_next mm i")
    case False
    then have "merge_forward mm i = Some mm"
      by (subst merge_forward.simps) (auto simp: joins_next_def split: option.splits)
    then show ?thesis
      using False 1(2,3) merge_keeps_refl by blast
  next
    case True
    then obtain n where n: "list_next i (mm_regions mm) = Some n"
        "regions_adjoin (mm_store mm i) (mm_store mm n)"
      by (auto simp: joins_next_def split: option.splits)
    obtain as bs where "mm_regions mm = as @ i # n # bs"
      using list_next_split [OF n(1) mm_invD(3) [OF 1(2)]] by blast
    from absorb_ok [OF 1(2) this n(2)] obtain mm1 where
      mm1: "absorb mm i n = Some mm1" "mm_regions mm1 = as @ i # bs" "merge_keeps mm mm1"
      by blast
    have "mm_inv mm1" "i \<in> set (mm_regions mm1)"
      using mm1 by (simp_all add: merge_keeps_def)
    from 1(1) [OF n mm1(1) this] show ?thesis
      using n mm1 merge_keeps_trans [OF mm1(3)]
      by (subst merge_forward.simps) (auto simp del: merge_forward.simps)
  qed
qed

lemma merge_region_ok:
  assumes "mm_inv mm" "i \<in> set (mm_regions mm)"
  shows "\<exists>mm'. merge_region mm i = Some mm' \<and> merge_keeps mm mm'"
proof -
  obtain mm1 r where 1: "merge_back mm i = Some (mm1, r)" "merge_keeps mm mm1" "r \<in> set (mm_regions mm1)"
    using merge_back_ok [OF assms] by blast
  obtain mm2 where "merge_forward mm1 r = Some mm2" "merge_keeps mm1 mm2"
    using merge_forward_ok [of mm1 r] 1 by (auto simp: merge_keeps_def)
  then show ?thesis
    using 1 merge_keeps_trans by (auto simp: merge_region_def)
qed

section \<open>Recording\<close>

lemma probe_mono_partition:
  assumes "probe_mono f xs" "\<forall>x\<in>set xs. f x \<noteq> 0"
  shows "filter (\<lambda>x. 0 < f x) xs @ filter (\<lambda>x. f x < 0) xs = xs"
  using assms
proof (induction xs)
  case (Cons x xs)
  show ?case
  proof (cases "0 < f x")
    case True
    then show ?thesis using Cons by (simp add: probe_mono_Cons)
  next
    case False
    then have "f x < 0" "\<forall>y\<in>set xs. f y < 0"
      using Cons.prems by (auto simp: probe_mono_Cons)
    then have "filter (\<lambda>x. 0 < f x) xs = []" "filter (\<lambda>x. f x < 0) xs = xs"
      by (auto simp: filter_empty_conv filter_id_conv)
    then show ?thesis using \<open>f x < 0\<close> by simp
  qed
qed simp

lemma record_split:
  assumes inv: "mm_inv mm" and ok: "region_ok r"
    and free: "\<forall>i\<in>set (mm_regions mm). \<not> overlaps (mm_store mm i) (rlo r) (rhi r)"
  obtains xs ys where "mm_regions mm = xs @ ys"
    "\<forall>x\<in>set xs. rhi (mm_store mm x) \<le> rlo r" "\<forall>y\<in>set ys. rhi r \<le> rlo (mm_store mm y)"
proof -
  let ?f = "cmp_in mm r"
  have lt: "unat (gaddr r) + unat (msize r) < 2 ^ 64"
    using ok by (simp add: region_ok_def rhi_def)
  have m: "probe_mono ?f (mm_regions mm)"
    using cmp_in_mono [OF inv lt] mm_invD(2) [OF inv] by simp
  have c: "?f i = (if rhi (mm_store mm i) \<le> rlo r then 1 else -1)"
    "\<not> rhi (mm_store mm i) \<le> rlo r \<Longrightarrow> rhi r \<le> rlo (mm_store mm i)"
    if "i \<in> set (mm_regions mm)" for i
    using region_compare_nat [OF mm_invD(5) [OF inv that] lt] free that
    by (auto simp: cmp_in_def overlaps_def not_less)
  have nz: "\<forall>i\<in>set (mm_regions mm). ?f i \<noteq> 0"
    using c(1) by simp
  show thesis
  proof (rule that [OF probe_mono_partition [OF m nz, symmetric]])
    show "\<forall>x\<in>set (filter (\<lambda>x. 0 < ?f x) (mm_regions mm)). rhi (mm_store mm x) \<le> rlo r"
      using c(1) by (auto split: if_splits)
    show "\<forall>y\<in>set (filter (\<lambda>x. ?f x < 0) (mm_regions mm)). rhi r \<le> rlo (mm_store mm y)"
      using c by (auto split: if_splits)
  qed
qed

lemma list_add_after_last:
  "distinct (xs @ ys) \<Longrightarrow> xs \<noteq> [] \<Longrightarrow> list_add_after n (last xs) (xs @ ys) = xs @ n # ys"
proof (induction xs rule: rev_induct)
  case (snoc x xs)
  then show ?case using list_add_after_split [of x xs n ys] by simp
qed simp

lemma new_region_sel [simp]:
  "rlo (new_region ha a s pr fl fd off) = unat a"
  "rhi (new_region ha a s pr fl fd off) = unat a + unat s"
  by (simp_all add: new_region_def rlo_def rhi_def)

lemma record_region_ok:
  assumes inv: "mm_inv mm" and nz: "a \<noteq> 0"
    and r: "r = new_region ha a s pr fl fd off" and ok: "region_ok r"
    and free: "\<forall>i\<in>set (mm_regions mm). \<not> overlaps (mm_store mm i) (rlo r) (rhi r)"
  shows "\<exists>mm'. record_region mm ha a s pr fl fd off = Some (mm', mm_next mm) \<and> mm_inv mm'
    \<and> set (mm_regions mm') = insert (mm_next mm) (set (mm_regions mm))
    \<and> mm_store mm' = (mm_store mm)(mm_next mm := r) \<and> mm_next mm' = Suc (mm_next mm)
    \<and> same_brk mm mm'"
proof -
  let ?n = "mm_next mm"
  obtain xs ys where sp: "mm_regions mm = xs @ ys"
    "\<forall>x\<in>set xs. rhi (mm_store mm x) \<le> rlo r" "\<forall>y\<in>set ys. rhi r \<le> rlo (mm_store mm y)"
    using record_split [OF inv ok free] .
  define mm1 where "mm1 = mm\<lparr> mm_store := (mm_store mm)(?n := r), mm_next := Suc ?n \<rparr>"
  have fresh: "?n \<notin> set xs \<union> set ys"
    using mm_invD(4) [OF inv, of ?n] sp(1) by auto
  have st1: "mm_store mm1 j = mm_store mm j" if "j \<in> set xs \<union> set ys" for j
    using that fresh by (auto simp: mm1_def)
  have old: "in_order (mm_store mm) (xs @ ys)" and d: "distinct (xs @ ys)"
    using inv sp(1) by (simp_all add: mm_inv_alt in_order_def)
  have oks: "region_ok (mm_store mm1 j)" if "j \<in> set xs \<union> set ys" for j
    using that st1 in_order_okD [OF old] by auto
  have "\<forall>x\<in>set xs. 0 < cmp_in mm1 r x" "\<forall>y\<in>set ys. cmp_in mm1 r y < 0"
    using sp(2,3) st1 oks ok by (auto intro!: cmp_after cmp_before)
  then obtain tree where tree: "rb_insert (cmp_in mm1 r) ?n (mm_region_tree mm) = Some (Inr tree)"
      "rb_inv tree" "inorder tree = xs @ ?n # ys"
    using rb.add_between [of "mm_region_tree mm" xs ys "cmp_in mm1 r" ?n] mm_invD(1,2) [OF inv] sp(1)
    by auto
  have "distinct (inorder tree)"
    using tree(3) d fresh by auto
  then have pred: "rb_prev ?n tree = (if xs = [] then None else Some (last xs))"
    using rb.pred_ok [OF tree(3)] by simp
  define mm' where "mm' = mm1\<lparr> mm_region_tree := tree, mm_regions := xs @ ?n # ys \<rparr>"
  have "record_region mm ha a s pr fl fd off = Some (mm', ?n)"
    using nz tree(1) pred sp(1) list_add_after_last [OF d]
    by (cases "xs = []") (simp_all add: record_region_def Let_def r [symmetric] mm'_def mm1_def)
  moreover have "in_order (mm_store mm1) (xs @ ?n # ys)"
    using old sp(2,3) ok fresh by (auto simp: in_order_simps mm1_def)
  then have "mm_inv mm'"
    using tree(2,3) mm_invD(4) [OF inv] sp(1) by (auto simp: mm_inv_alt mm'_def mm1_def less_Suc_eq)
  ultimately show ?thesis
    using sp(1) by (auto simp: mm'_def mm1_def same_brk_def)
qed

lemma record_region_view:
  assumes inv: "mm_inv mm" and nz: "a \<noteq> 0"
    and r: "r = new_region ha a s pr fl fd off" and ok: "region_ok r"
    and free: "\<forall>i\<in>set (mm_regions mm). \<not> overlaps (mm_store mm i) (rlo r) (rhi r)"
    and rec: "record_region mm ha a s pr fl fd off = Some (mm', i)"
  shows "view mm' b = (if in_region r b then Some (cell_of r b) else view mm b)"
proof -
  let ?n = "mm_next mm"
  have mm': "mm_inv mm'" "set (mm_regions mm') = insert ?n (set (mm_regions mm))"
    "mm_store mm' = (mm_store mm)(?n := r)"
    using record_region_ok [OF inv nz r ok free] rec by auto
  have fresh: "?n \<notin> set (mm_regions mm)"
    using mm_invD(4) [OF inv, of ?n] by auto
  have no: "\<not> in_region r b" if "j \<in> set (mm_regions mm)" "in_region (mm_store mm j) b" for j
    using free that by (auto simp: overlaps_def in_region_def)
  have "view mm' b = Some c \<longleftrightarrow>
      (if in_region r b then Some (cell_of r b) else view mm b) = Some c" for c
  proof (cases "in_region r b")
    case True
    then have "\<not> (j \<in> set (mm_regions mm) \<and> in_region (mm_store mm j) b)" for j
      using no by blast
    then show ?thesis
      using True fresh by (auto simp: view_Some [OF mm'(1)] mm'(2,3))
  next
    case False
    have "\<And>j. j \<in> set (mm_regions mm) \<Longrightarrow> mm_store mm' j = mm_store mm j"
      using fresh by (auto simp: mm'(3))
    then show ?thesis
      using False by (auto simp: view_Some [OF mm'(1)] view_Some [OF inv] mm'(2)) (simp_all add: mm'(3))
  qed
  then show ?thesis
    by (metis not_None_eq)
qed

lemma record_region_panics:
  assumes inv: "mm_inv mm" and ok: "region_ok (new_region ha a s pr fl fd off)"
    and clash: "i \<in> set (mm_regions mm)" "overlaps (mm_store mm i) (unat a) (unat a + unat s)"
  shows "record_region mm ha a s pr fl fd off = None"
proof -
  let ?r = "new_region ha a s pr fl fd off" and ?n = "mm_next mm"
  define mm1 where "mm1 = mm\<lparr> mm_store := (mm_store mm)(?n := ?r), mm_next := Suc ?n \<rparr>"
  have lt: "unat (gaddr ?r) + unat (msize ?r) < 2 ^ 64"
    using ok by (simp add: region_ok_def rhi_def)
  have st: "\<And>j. j \<in> set (mm_regions mm) \<Longrightarrow> mm_store mm1 j = mm_store mm j"
    using mm_invD(4) [OF inv] by (force simp: mm1_def)
  have "in_order (mm_store mm1) (mm_regions mm)"
    using inv in_order_cong [of "mm_regions mm" "mm_store mm1" "mm_store mm"] st by (simp add: mm_inv_alt)
  then have m: "probe_mono (cmp_in mm1 ?r) (inorder (mm_region_tree mm))"
    using cmp_in_mono_aux [of "mm_store mm1" "mm_regions mm" ?r] lt mm_invD(2) [OF inv]
    by (auto simp: in_order_def cmp_in_def [abs_def])
  have "cmp_in mm1 ?r i = 0"
    using region_compare_nat [OF mm_invD(5) [OF inv clash(1)] lt] clash st [OF clash(1)]
    by (auto simp: cmp_in_def overlaps_def)
  then obtain y where "rb_insert (cmp_in mm1 ?r) ?n (mm_region_tree mm) = Some (Inl y)"
    using rb.add_clash [OF m, of i ?n] clash(1) mm_invD(2) [OF inv] by auto
  then show ?thesis
    by (simp add: record_region_def Let_def mm1_def)
qed

section \<open>Properties\<close>

text \<open>
  Sample address spaces: two adjoining halves of one private anonymous mapping;
  a mapping of three gigabytes; and three mappings whose tree has the lowest
  one below the left child's right link.
\<close>

definition anon_region :: "u64 \<Rightarrow> int \<Rightarrow> gaddr \<Rightarrow> u64 \<Rightarrow> mm_region" where
  "anon_region ha off a s = (new_region ha a s 3 (LINUX_MAP_PRIVATE OR LINUX_MAP_ANON) (-1) 0)\<lparr> arena_off := off \<rparr>"

definition halves_mm :: mm where
  "halves_mm = init_mm\<lparr>
     mm_store := (\<lambda>_. probe 0 0)(0 := anon_region 0x700000000 0 0x10000 0x4000,
                                 1 := anon_region 0x700004000 0x4000 0x14000 0x1000),
     mm_next := 2, mm_region_tree := Elm Null RB_BLACK 0 (Elm Null RB_RED 1 Null),
     mm_regions := [0, 1] \<rparr>"

definition big_mm :: mm where
  "big_mm = init_mm\<lparr>
     mm_store := (\<lambda>_. probe 0 0)(0 := anon_region 0x700000000 0 0x100000000 0xc0000000),
     mm_next := 1, mm_region_tree := Elm Null RB_BLACK 0 Null, mm_regions := [0] \<rparr>"

definition zigzag_mm :: mm where
  "zigzag_mm = init_mm\<lparr>
     mm_store := (\<lambda>_. probe 0 0)(0 := anon_region 0x700000000 0 0x10000 0x1000,
                                 1 := anon_region 0x700100000 0x8000 0x20000 0x1000,
                                 2 := anon_region 0x700200000 0x10000 0x30000 0x1000),
     mm_next := 3,
     mm_region_tree := Elm (Elm Null RB_BLACK 0 (Elm Null RB_RED 1 Null)) RB_BLACK 2 Null,
     mm_regions := [0, 1, 2] \<rparr>"

lemma halves_mm_inv: "mm_inv halves_mm"
  by (simp add: halves_mm_def init_mm_def mm_inv_def rb_inv_def region_ok_def rlo_def rhi_def
      anon_region_def new_region_def)

lemma init_mm_inv: "mm_inv init_mm"
  by (simp add: init_mm_def mm_inv_def rb_inv_def)

lemma some_region_iff:
  assumes "mm_inv mm"
  shows "(\<exists>i\<in>set (mm_regions mm). in_region (mm_store mm i) a \<and> P i) \<longleftrightarrow>
    (case find_region a mm of None \<Rightarrow> False | Some i \<Rightarrow> P i)"
proof (cases "find_region a mm")
  case None
  then show ?thesis using find_region_iff [OF assms, of a] by auto
next
  case (Some i)
  then have i: "i \<in> set (mm_regions mm)" "in_region (mm_store mm i) a"
    using find_region_iff [OF assms, of a i] by simp_all
  have "j = i" if "j \<in> set (mm_regions mm)" "in_region (mm_store mm j) a" for j
    using disjoint_regions [OF assms that(1) i(1) that(2) i(2)] .
  then show ?thesis
    using i unfolding Some option.case by blast
qed

lemma any_region_iff:
  "mm_inv mm \<Longrightarrow> (\<exists>i\<in>set (mm_regions mm). in_region (mm_store mm i) a) \<longleftrightarrow> find_region a mm \<noteq> None"
  using some_region_iff [of mm a "\<lambda>_. True"] by (auto split: option.splits)

text \<open>
  C16: A pointer from the guest is translated through the region that contains
  it, the guest's own regions before the emulator's; a reservation and an
  address in no region have no host address.
\<close>

theorem guest_to_host_correct:
  assumes "mm_inv mm" "mm_inv vk"
  shows "guest_to_host mm vk a = Some h \<longleftrightarrow>
    (\<exists>i\<in>set (mm_regions mm). in_region (mm_store mm i) (untag_gaddr a)
       \<and> \<not> reserved (mm_store mm i)
       \<and> h = haddr (mm_store mm i) + (untag_gaddr a - gaddr (mm_store mm i)))
    \<or> (\<not> (\<exists>i\<in>set (mm_regions mm). in_region (mm_store mm i) (untag_gaddr a))
       \<and> (\<exists>i\<in>set (mm_regions vk). in_region (mm_store vk i) (untag_gaddr a)
            \<and> \<not> reserved (mm_store vk i)
            \<and> h = haddr (mm_store vk i) + (untag_gaddr a - gaddr (mm_store vk i))))"
  unfolding some_region_iff [OF assms(1)] some_region_iff [OF assms(2)] any_region_iff [OF assms(1)]
  by (auto simp: guest_to_host_def Let_def algebra_simps split: option.splits)

theorem guest_to_host_correct_witness:
  "mm_inv halves_mm \<and> mm_inv init_mm \<and> guest_to_host halves_mm init_mm 0xb400000000014010 = Some 0x700004010"
  using guest_to_host_correct [OF halves_mm_inv init_mm_inv, of "0xb400000000014010" "0x700004010"]
    halves_mm_inv init_mm_inv
  by (simp add: halves_mm_def anon_region_def new_region_def untag_gaddr_def in_region_def rlo_def rhi_def)





text \<open>
  C15: Recording a page-aligned mapping over free addresses below the middle of the
  address space adds exactly its cells to the view and keeps the invariant;
  recording over anything mapped is the panic of the source, never a silent
  second owner.
\<close>

theorem record_region_extends:
  assumes "mm_inv mm" "a \<noteq> 0" "0 < s" "is_page_aligned a" "is_page_aligned s"
    "unat a + unat s < 2 ^ 63"
  shows "(\<forall>i\<in>set (mm_regions mm). \<not> overlaps (mm_store mm i) (unat a) (unat a + unat s)) \<and>
      (\<exists>mm'. record_region mm ha a s pr fl fd off = Some (mm', mm_next mm) \<and> mm_inv mm' \<and>
        (\<forall>b. view mm' b = (if unat a \<le> unat b \<and> unat b < unat a + unat s
             then Some (cell_of (new_region ha a s pr fl fd off) b) else view mm b)))
    \<or> (\<exists>i\<in>set (mm_regions mm). overlaps (mm_store mm i) (unat a) (unat a + unat s)) \<and>
      record_region mm ha a s pr fl fd off = None"
proof (cases "\<exists>i\<in>set (mm_regions mm). overlaps (mm_store mm i) (unat a) (unat a + unat s)")
  case True
  have "region_ok (new_region ha a s pr fl fd off)"
    using assms by (intro region_okI) (simp_all add: page_aligned_dvd word_less_nat_alt)
  then show ?thesis
    using True record_region_panics [OF assms(1)] by blast
next
  case False
  define r where "r = new_region ha a s pr fl fd off"
  have ok: "region_ok r"
    using assms unfolding r_def by (intro region_okI) (simp_all add: page_aligned_dvd word_less_nat_alt)
  have free: "\<forall>i\<in>set (mm_regions mm). \<not> overlaps (mm_store mm i) (rlo r) (rhi r)"
    using False by (simp add: r_def)
  obtain mm' where mm': "record_region mm ha a s pr fl fd off = Some (mm', mm_next mm)" "mm_inv mm'"
    using record_region_ok [OF assms(1,2) r_def ok free] by blast
  have "view mm' b = (if unat a \<le> unat b \<and> unat b < unat a + unat s then Some (cell_of r b) else view mm b)"
    for b
    using record_region_view [OF assms(1,2) r_def ok free mm'(1), of b]
    by (simp add: in_region_def r_def)
  then show ?thesis
    using False mm' by (auto simp: r_def)
qed

theorem record_region_extends_witness:
  "mm_inv halves_mm \<and> (\<exists>mm'. record_region halves_mm 0x700100000 0x20000 0x1000 3 0x22 (-1) 0 = Some (mm', 2)
     \<and> mm_inv mm' \<and> view mm' 0x20010
        = Some (cell_of (new_region 0x700100000 0x20000 0x1000 3 0x22 (-1) 0) 0x20010))"
proof -
  have "\<not> (\<exists>i\<in>set (mm_regions halves_mm). overlaps (mm_store halves_mm i) (unat (0x20000::u64))
      (unat (0x20000::u64) + unat (0x1000::u64)))" "mm_next halves_mm = 2"
    by (simp_all add: halves_mm_def overlaps_def anon_region_def new_region_def rlo_def rhi_def)
  then obtain mm' where mm': "record_region halves_mm 0x700100000 0x20000 0x1000 3 0x22 (-1) 0 = Some (mm', 2)"
     "mm_inv mm'" and v: "\<And>b. view mm' b = (if unat (0x20000::u64) \<le> unat b \<and> unat b < unat (0x20000::u64) + unat (0x1000::u64)
             then Some (cell_of (new_region 0x700100000 0x20000 0x1000 3 0x22 (-1) 0) b) else view halves_mm b)"
    using record_region_extends [OF halves_mm_inv, of "0x20000" "0x1000" "0x700100000" 3 "0x22" "-1" 0]
    by (auto simp: is_page_aligned_def)
  then show ?thesis
    using halves_mm_inv v [of "0x20010"] by (intro conjI exI [of _ mm']) simp_all
qed


text \<open>
  \<^verbatim>\<open>find_region_range\<close> is described as returning the lowest region that overlaps
  the range, but it only follows left links: here two regions overlap and the
  higher one is returned.
\<close>

theorem find_region_range_not_lowest:
  "find_region_range 0x20000 0x11000 zigzag_mm = Some 2 \<and>
   overlaps (mm_store zigzag_mm 1) 0x20000 0x31000 \<and>
   rlo (mm_store zigzag_mm 1) < rlo (mm_store zigzag_mm 2)"
  by (simp add: zigzag_mm_def init_mm_def find_region_range_def cmp_in_def region_compare_def probe_def
      anon_region_def new_region_def overlaps_def rlo_def rhi_def)

end
