(* ===== verification/Arena.thy ===== *)
theory Arena
  imports Nabi_Prelude "HOL-Library.Multiset"
begin

text \<open>
  The guest-memory arena (\<^verbatim>\<open>src/mm/arena.c\<close>): one unlinked file that backs guest
  memory, handed out upwards, with a table of spans that says which file offset is
  mapped at which host address.

  Offsets, addresses and sizes are natural numbers: an offset is a position in a
  file and an address range comes from \<^verbatim>\<open>mmap\<close>, so neither wraps.  The answers of
  the host - the address \<^verbatim>\<open>mmap\<close> chose, whether \<^verbatim>\<open>ftruncate\<close> worked - are arguments.
  A panic is \<^term>\<open>None\<close>.
\<close>

section \<open>State\<close>

record arena_span =
  sp_addr :: nat
  sp_size :: nat
  sp_off :: nat
  sp_priv :: bool

record arena =
  arena_backing_fd :: int
  arena_brk :: nat
  arena_capacity :: nat
  arena_spans :: "arena_span list"

abbreviation (input) ARENA_GRANULE :: nat where "ARENA_GRANULE \<equiv> 0x4000"
abbreviation (input) ARENA_GROW_STEP :: nat where "ARENA_GROW_STEP \<equiv> 0x400000"

definition nroundup :: "nat \<Rightarrow> nat \<Rightarrow> nat" where
  "nroundup x y = (x + y - 1) div y * y"

definition sp_end :: "arena_span \<Rightarrow> nat" where
  "sp_end s = sp_off s + sp_size s"

definition arena_start :: arena where
  "arena_start = \<lparr> arena_backing_fd = -1, arena_brk = 0, arena_capacity = 0, arena_spans = [] \<rparr>"

section \<open>The span table\<close>

definition arena_span_record :: "nat \<Rightarrow> nat \<Rightarrow> nat \<Rightarrow> bool \<Rightarrow> arena_span list \<Rightarrow> arena_span list" where
  "arena_span_record addr sz off priv spans =
     spans @ [\<lparr> sp_addr = addr, sp_size = sz, sp_off = off, sp_priv = priv \<rparr>]"

definition cut_prefix :: "nat \<Rightarrow> arena_span \<Rightarrow> arena_span" where
  "cut_prefix hi s =
     (let cut = hi - sp_off s
      in s\<lparr> sp_addr := sp_addr s + cut, sp_off := sp_off s + cut, sp_size := sp_size s - cut \<rparr>)"

definition cut_suffix :: "nat \<Rightarrow> arena_span \<Rightarrow> arena_span" where
  "cut_suffix lo s = s\<lparr> sp_size := lo - sp_off s \<rparr>"

definition apart :: "nat \<Rightarrow> nat \<Rightarrow> arena_span \<Rightarrow> bool" where
  "apart lo hi s \<longleftrightarrow> hi \<le> sp_off s \<or> lo \<ge> sp_end s"

text \<open>How many spans the loop still has to cut.\<close>

definition pending :: "nat \<Rightarrow> nat \<Rightarrow> nat \<Rightarrow> arena_span list \<Rightarrow> nat" where
  "pending lo hi i spans = length (filter (\<lambda>s. \<not> apart lo hi s) (drop i spans))"

lemma drop_swap_last:
  assumes "i < length xs"
  shows "mset (drop i (butlast (xs[i := last xs]))) = mset (drop (Suc i) xs)"
proof (cases xs rule: rev_cases)
  case (snoc ys z)
  show ?thesis
  proof (cases "i < length ys")
    case True
    then have "drop i (ys[i := z]) = z # drop (Suc i) ys"
      by (simp add: Cons_nth_drop_Suc [symmetric])
    then show ?thesis
      using snoc True by (simp add: list_update_append)
  next
    case False
    then show ?thesis using snoc assms by (simp add: list_update_append)
  qed
qed (use assms in simp)

lemma pending_mset: "pending lo hi i spans = size (filter_mset (\<lambda>s. \<not> apart lo hi s) (mset (drop i spans)))"
  by (simp add: pending_def flip: mset_filter)

lemma pending_step:
  "i < length spans \<Longrightarrow> pending lo hi i spans
     = (if apart lo hi (spans ! i) then 0 else 1) + pending lo hi (Suc i) spans"
  by (simp add: pending_def Cons_nth_drop_Suc [symmetric])

lemma pending_whole:
  "i < length spans \<Longrightarrow> pending lo hi i (butlast (spans[i := last spans])) = pending lo hi (Suc i) spans"
  by (simp add: pending_mset drop_swap_last)

lemma pending_hole:
  "i < length spans \<Longrightarrow>
   pending lo hi (Suc i) (arena_span_record a n hi p (spans[i := s])) = pending lo hi (Suc i) spans"
  by (simp add: pending_def arena_span_record_def apart_def)

lemma pending_update: "pending lo hi (Suc i) (spans[i := s]) = pending lo hi (Suc i) spans"
  by (simp add: pending_def)

text \<open>
  The loop of \<^verbatim>\<open>arena_span_forget\<close> at index \<open>i\<close>.  A whole span is replaced by the last
  one and the index stays; the far side of a hole goes to the end of the table,
  where the loop meets it again.
\<close>

function forget_from :: "nat \<Rightarrow> nat \<Rightarrow> nat \<Rightarrow> arena_span list \<Rightarrow> arena_span list" where
  "forget_from lo hi i spans =
     (if i < length spans then
        let s = spans ! i in
        if apart lo hi s then forget_from lo hi (Suc i) spans
        else if lo \<le> sp_off s \<and> hi \<ge> sp_end s
        then forget_from lo hi i (butlast (spans[i := last spans]))
        else if lo \<le> sp_off s
        then forget_from lo hi (Suc i) (spans[i := cut_prefix hi s])
        else if hi \<ge> sp_end s
        then forget_from lo hi (Suc i) (spans[i := cut_suffix lo s])
        else forget_from lo hi (Suc i)
               (arena_span_record (sp_addr s + (hi - sp_off s)) (sp_end s - hi) hi (sp_priv s)
                  (spans[i := cut_suffix lo s]))
      else spans)"
  by pat_completeness auto
termination
  by (relation "inv_image (less_than <*lex*> less_than)
        (\<lambda>(lo, hi, i, spans). (pending lo hi i spans, length spans - i))")
     (auto simp: pending_step pending_whole pending_hole pending_update)

declare forget_from.simps [simp del]

definition arena_span_forget :: "nat \<Rightarrow> nat \<Rightarrow> arena_span list \<Rightarrow> arena_span list" where
  "arena_span_forget off sz spans = forget_from off (off + sz) 0 spans"

fun arena_hva_of :: "nat \<Rightarrow> arena_span list \<Rightarrow> nat option" where
  "arena_hva_of off [] = None"
| "arena_hva_of off (s # ss) =
     (if off \<ge> sp_off s \<and> off < sp_end s then Some (sp_addr s + (off - sp_off s))
      else arena_hva_of off ss)"

fun arena_offset_of :: "nat \<Rightarrow> arena_span list \<Rightarrow> nat option" where
  "arena_offset_of addr [] = None"
| "arena_offset_of addr (s # ss) =
     (if addr \<ge> sp_addr s \<and> addr < sp_addr s + sp_size s then Some (sp_off s + (addr - sp_addr s))
      else arena_offset_of addr ss)"

definition arena_span_forget_addr :: "nat \<Rightarrow> nat \<Rightarrow> arena_span list \<Rightarrow> arena_span list" where
  "arena_span_forget_addr addr sz spans =
     (case arena_offset_of addr spans of
        None \<Rightarrow> spans
      | Some off \<Rightarrow> arena_span_forget off sz spans)"

section \<open>Allocation\<close>

text \<open>\<open>fd\<close> is what \<^verbatim>\<open>mkstemp\<close> answers; the arena is created on first use.\<close>

definition arena_init :: "int \<Rightarrow> arena \<Rightarrow> arena option" where
  "arena_init fd a =
     (if arena_backing_fd a \<ge> 0 then Some a
      else if fd < 0 then None
      else Some (a\<lparr> arena_backing_fd := fd, arena_brk := 0, arena_capacity := 0 \<rparr>))"

definition arena_grow :: "bool \<Rightarrow> nat \<Rightarrow> arena \<Rightarrow> arena option" where
  "arena_grow truncate_ok brk a =
     (if brk > arena_capacity a
      then if truncate_ok then Some (a\<lparr> arena_capacity := nroundup brk ARENA_GROW_STEP \<rparr>) else None
      else Some a)"

definition arena_alloc ::
  "int \<Rightarrow> bool \<Rightarrow> nat option \<Rightarrow> nat \<Rightarrow> arena \<Rightarrow> (nat \<times> nat \<times> arena) option" where
  "arena_alloc fd truncate_ok mapped sz a0 =
     (case (if arena_backing_fd a0 < 0 then arena_init fd a0 else Some a0) of
        None \<Rightarrow> None
      | Some a \<Rightarrow>
          let sz = nroundup sz ARENA_GRANULE;
              off = arena_brk a
          in case arena_grow truncate_ok (off + sz) (a\<lparr> arena_brk := off + sz \<rparr>) of
               None \<Rightarrow> None
             | Some a1 \<Rightarrow>
                 (case mapped of
                    None \<Rightarrow> None
                  | Some p \<Rightarrow>
                      Some (p, off, a1\<lparr> arena_spans := arena_span_record p sz off False (arena_spans a1) \<rparr>)))"

fun resize_span :: "nat \<Rightarrow> nat \<Rightarrow> nat \<Rightarrow> arena_span list \<Rightarrow> arena_span list option" where
  "resize_span addr off sz [] = None"
| "resize_span addr off sz (s # ss) =
     (if sp_addr s = addr \<and> sp_off s = off then Some (s\<lparr> sp_size := sz \<rparr> # ss)
      else map_option (Cons s) (resize_span addr off sz ss))"

text \<open>
  \<^verbatim>\<open>arena_extend\<close>: the answer is the address, or None for the NULL that sends the
  caller to its slow path.  \<open>mapped\<close> is where the host put the extra memory; it is
  taken back when that is not the hint.
\<close>

definition arena_extend ::
  "bool \<Rightarrow> nat option \<Rightarrow> nat \<Rightarrow> nat \<Rightarrow> nat \<Rightarrow> nat \<Rightarrow> arena \<Rightarrow> nat option \<times> arena" where
  "arena_extend truncate_ok mapped off old_size new_size haddr a =
     (if arena_backing_fd a < 0 \<or> haddr = 0 then (None, a)
      else
        let old_r = nroundup old_size ARENA_GRANULE;
            new_r = nroundup new_size ARENA_GRANULE
        in if new_r \<le> old_r then (Some haddr, a)
           else if off + old_r \<noteq> arena_brk a then (None, a)
           else
             let add = new_r - old_r;
                 want_end = arena_brk a + add
             in case arena_grow truncate_ok want_end a of
                  None \<Rightarrow> (None, a)
                | Some a1 \<Rightarrow>
                    if mapped \<noteq> Some (haddr + old_r) then (None, a1)
                    else
                      (Some haddr,
                       a1\<lparr> arena_brk := want_end,
                           arena_spans :=
                             (case resize_span haddr off new_r (arena_spans a1) of
                                Some spans \<Rightarrow> spans
                              | None \<Rightarrow> arena_span_record (haddr + old_r) add (want_end - add) False
                                          (arena_spans a1)) \<rparr>))"

section \<open>Release\<close>

text \<open>The hole punched in the backing file is an effect on the host and is not part of this state.\<close>

definition arena_free :: "nat \<Rightarrow> nat \<Rightarrow> arena \<Rightarrow> arena" where
  "arena_free off sz a =
     (if arena_backing_fd a < 0 then a
      else a\<lparr> arena_spans := arena_span_forget off (nroundup sz ARENA_GRANULE) (arena_spans a) \<rparr>)"

definition arena_unmap :: "nat \<Rightarrow> nat \<Rightarrow> arena \<Rightarrow> arena" where
  "arena_unmap addr sz a =
     a\<lparr> arena_spans := arena_span_forget_addr addr (nroundup sz ARENA_GRANULE) (arena_spans a) \<rparr>"

section \<open>Handing the arena over\<close>

fun find_private :: "nat \<Rightarrow> nat \<Rightarrow> nat \<Rightarrow> arena_span list \<Rightarrow> nat option" where
  "find_private off block bsize [] = None"
| "find_private off block bsize (s # ss) =
     (if sp_priv s \<and> block \<ge> sp_off s \<and> block + bsize \<le> sp_end s
      then Some (sp_addr s + (off - sp_off s))
      else find_private off block bsize ss)"

text \<open>
  The second loop of \<^verbatim>\<open>arena_map_private\<close>: every private span that overlaps the
  wanted range is taken out of the table and widens the range.
\<close>

function widen_private :: "nat \<Rightarrow> nat \<Rightarrow> nat \<Rightarrow> arena_span list \<Rightarrow> nat \<times> nat \<times> arena_span list" where
  "widen_private lo hi i spans =
     (if i < length spans then
        let s = spans ! i in
        if \<not> sp_priv s \<or> apart lo hi s then widen_private lo hi (Suc i) spans
        else widen_private (min lo (sp_off s)) (max hi (sp_end s)) i (butlast (spans[i := last spans]))
      else (lo, hi, spans))"
  by pat_completeness auto
termination
  by (relation "measure (\<lambda>(lo, hi, i, spans). length spans - i)") auto

declare widen_private.simps [simp del]

definition arena_map_private ::
  "(arena_span list \<Rightarrow> nat \<Rightarrow> nat \<Rightarrow> nat option) \<Rightarrow> nat \<Rightarrow> nat \<Rightarrow> arena \<Rightarrow> (nat \<times> arena) option" where
  "arena_map_private mmap_at off sz a =
     (if arena_backing_fd a < 0 then None
      else
        let block = off div ARENA_GRANULE * ARENA_GRANULE;
            bsize = nroundup (off - block + sz) ARENA_GRANULE
        in case find_private off block bsize (arena_spans a) of
             Some p \<Rightarrow> Some (p, a)
           | None \<Rightarrow>
               (case widen_private block (block + bsize) 0 (arena_spans a) of
                  (lo, hi, spans) \<Rightarrow>
                    (case mmap_at spans (hi - lo) lo of
                       None \<Rightarrow> None
                     | Some p \<Rightarrow>
                         Some (p + (off - lo),
                               a\<lparr> arena_spans := arena_span_record p (hi - lo) lo True spans \<rparr>))))"

text \<open>
  What \<^verbatim>\<open>checkpoint_restore\<close> does with the arena: ask for every range in turn, then look
  every start up again, because a later request may have moved an earlier one.
\<close>

fun map_views :: "(arena_span list \<Rightarrow> nat \<Rightarrow> nat \<Rightarrow> nat option) \<Rightarrow> (nat \<times> nat) list \<Rightarrow> arena \<Rightarrow> arena option" where
  "map_views mmap_at [] a = Some a"
| "map_views mmap_at ((off, sz) # reqs) a =
     (case arena_map_private mmap_at off sz a of
        None \<Rightarrow> None
      | Some (p, a') \<Rightarrow> map_views mmap_at reqs a')"

definition restore_views ::
  "(arena_span list \<Rightarrow> nat \<Rightarrow> nat \<Rightarrow> nat option) \<Rightarrow> (nat \<times> nat) list \<Rightarrow> arena \<Rightarrow> (nat option list \<times> arena) option" where
  "restore_views mmap_at reqs a =
     (case map_views mmap_at reqs a of
        None \<Rightarrow> None
      | Some a' \<Rightarrow> Some (map (\<lambda>(off, sz). arena_hva_of off (arena_spans a')) reqs, a'))"

definition arena_adopt :: "int \<Rightarrow> nat \<Rightarrow> arena \<Rightarrow> arena" where
  "arena_adopt fd st_size a = a\<lparr> arena_backing_fd := fd, arena_capacity := st_size, arena_brk := st_size \<rparr>"

text \<open>
  \<^verbatim>\<open>arena_snapshot\<close>: the new file after the writes, as a function from offsets to
  bytes.  A write that is cut short or interrupted is resumed by the inner loop,
  so one span is one copy; a write that fails is not modelled here but makes the
  whole call fail.
\<close>

definition write_span :: "(nat \<Rightarrow> u8) \<Rightarrow> arena_span \<Rightarrow> (nat \<Rightarrow> u8) \<Rightarrow> nat \<Rightarrow> u8" where
  "write_span memory s file =
     (\<lambda>x. if sp_off s \<le> x \<and> x < sp_end s then memory (sp_addr s + (x - sp_off s)) else file x)"

definition arena_snapshot :: "(nat \<Rightarrow> u8) \<Rightarrow> arena \<Rightarrow> nat \<Rightarrow> u8" where
  "arena_snapshot memory a = fold (write_span memory) (arena_spans a) (\<lambda>_. 0)"
section \<open>What the table says\<close>

text \<open>
  The abstraction of the span table: which offset is mapped where, and whether
  privately.  A span of size \<open>n\<close> stands for \<open>n\<close> such facts.
\<close>

definition span_rel :: "arena_span \<Rightarrow> (nat \<times> nat \<times> bool) set" where
  "span_rel s = {(sp_off s + k, sp_addr s + k, sp_priv s) | k. k < sp_size s}"

definition table :: "arena_span list \<Rightarrow> (nat \<times> nat \<times> bool) set" where
  "table spans = (\<Union>s\<in>set spans. span_rel s)"

lemma table_simps [simp]:
  "table [] = {}" "table (s # ss) = span_rel s \<union> table ss" "table (xs @ ys) = table xs \<union> table ys"
  by (auto simp: table_def)

lemma span_rel_iff:
  "(x, y, p) \<in> span_rel s \<longleftrightarrow>
     sp_off s \<le> x \<and> x < sp_end s \<and> y = sp_addr s + (x - sp_off s) \<and> p = sp_priv s"
  by (auto simp: span_rel_def sp_end_def intro!: exI [of _ "x - sp_off s"])

lemma span_rel_record [simp]:
  "table (arena_span_record a n off p spans) = table spans \<union> {(off + k, a + k, p) | k. k < n}"
  by (auto simp: arena_span_record_def span_rel_def)

definition keep_outside :: "nat \<Rightarrow> nat \<Rightarrow> (nat \<times> nat \<times> bool) set \<Rightarrow> (nat \<times> nat \<times> bool) set" where
  "keep_outside lo hi T = {t \<in> T. \<not> (lo \<le> fst t \<and> fst t < hi)}"

lemma keep_outside_simps [simp]:
  "keep_outside lo hi (S \<union> T) = keep_outside lo hi S \<union> keep_outside lo hi T"
  "keep_outside lo hi {} = {}"
  "keep_outside lo hi (keep_outside lo hi T) = keep_outside lo hi T"
  by (auto simp: keep_outside_def)

lemma keep_apart: "apart lo hi s \<Longrightarrow> keep_outside lo hi (span_rel s) = span_rel s"
  by (auto simp: keep_outside_def apart_def span_rel_iff)

lemma keep_whole: "lo \<le> sp_off s \<Longrightarrow> sp_end s \<le> hi \<Longrightarrow> keep_outside lo hi (span_rel s) = {}"
  by (auto simp: keep_outside_def span_rel_iff)

lemma keep_prefix:
  "\<not> apart lo hi s \<Longrightarrow> lo \<le> sp_off s \<Longrightarrow> \<not> sp_end s \<le> hi \<Longrightarrow>
   span_rel (cut_prefix hi s) = keep_outside lo hi (span_rel s) \<and> apart lo hi (cut_prefix hi s)"
  by (auto simp: keep_outside_def span_rel_iff cut_prefix_def apart_def sp_end_def Let_def)

lemma keep_suffix:
  "\<not> apart lo hi s \<Longrightarrow> \<not> lo \<le> sp_off s \<Longrightarrow> sp_end s \<le> hi \<Longrightarrow>
   span_rel (cut_suffix lo s) = keep_outside lo hi (span_rel s) \<and> apart lo hi (cut_suffix lo s)"
  by (auto simp: keep_outside_def span_rel_iff cut_suffix_def apart_def sp_end_def)

lemma keep_hole:
  "\<not> apart lo hi s \<Longrightarrow> lo \<le> hi \<Longrightarrow> \<not> lo \<le> sp_off s \<Longrightarrow> \<not> sp_end s \<le> hi \<Longrightarrow>
   span_rel (cut_suffix lo s) \<union> {(hi + k, sp_addr s + (hi - sp_off s) + k, sp_priv s) | k. k < sp_end s - hi}
     = keep_outside lo hi (span_rel s) \<and> apart lo hi (cut_suffix lo s)"
proof (intro conjI set_eqI iffI)
  fix t
  assume a: "\<not> apart lo hi s" "lo \<le> hi" "\<not> lo \<le> sp_off s" "\<not> sp_end s \<le> hi"
    and t: "t \<in> keep_outside lo hi (span_rel s)"
  obtain x y p where xyp: "t = (x, y, p)" by (cases t)
  show "t \<in> span_rel (cut_suffix lo s) \<union> {(hi + k, sp_addr s + (hi - sp_off s) + k, sp_priv s) | k. k < sp_end s - hi}"
  proof (cases "x < lo")
    case True
    then show ?thesis using a t xyp
      by (auto simp: keep_outside_def span_rel_iff cut_suffix_def sp_end_def)
  next
    case False
    then have "hi \<le> x" "x < sp_end s" "y = sp_addr s + (x - sp_off s)" "p = sp_priv s"
      using t xyp by (auto simp: keep_outside_def span_rel_iff)
    then have "(x, y, p) = (hi + (x - hi), sp_addr s + (hi - sp_off s) + (x - hi), sp_priv s)" "x - hi < sp_end s - hi"
      using a by auto
    then show ?thesis unfolding xyp by blast
  qed
qed (auto simp: keep_outside_def span_rel_iff cut_suffix_def apart_def sp_end_def)

lemma keep_table: "\<forall>s\<in>set xs. apart lo hi s \<Longrightarrow> keep_outside lo hi (table xs) = table xs"
  by (induction xs) (simp_all add: keep_apart)

lemma set_swap_last:
  "i < length xs \<Longrightarrow> take i (butlast (xs[i := last xs])) = take i xs \<and>
     set (butlast (xs[i := last xs])) = set (take i xs) \<union> set (drop (Suc i) xs)"
proof -
  assume i: "i < length xs"
  have t: "take i (butlast (xs[i := last xs])) = take i xs"
    using i by (auto simp: butlast_conv_take min_def)
  have "set (drop i (butlast (xs[i := last xs]))) = set (drop (Suc i) xs)"
    using drop_swap_last [OF i] by (metis set_mset_mset)
  then show ?thesis
    using t by (metis append_take_drop_id set_append)
qed

lemma forget_from_table:
  assumes "lo \<le> hi" "\<forall>s\<in>set (take i spans). apart lo hi s"
  shows "table (forget_from lo hi i spans) = keep_outside lo hi (table spans)
    \<and> (\<forall>s\<in>set (forget_from lo hi i spans). apart lo hi s)"
  using assms
proof (induction lo hi i spans rule: forget_from.induct)
  case (1 lo hi i spans)
  show ?case
  proof (cases "i < length spans")
    case False
    then have "\<forall>s\<in>set spans. apart lo hi s"
      using 1(7) False by simp
    then show ?thesis
      using False by (subst (1 2) forget_from.simps) (simp add: keep_table)
  next
    case True
    define s xs ys where "s = spans ! i" and "xs = take i spans" and "ys = drop (Suc i) spans"
    have sp: "spans = xs @ s # ys" and li: "length xs = i"
      using True by (simp_all add: s_def xs_def ys_def id_take_nth_drop)
    have upd: "spans[i := s'] = xs @ s' # ys" for s'
      using sp li list_update_length [of xs s ys s'] by simp
    have ax: "\<forall>s\<in>set xs. apart lo hi s" and lh: "lo \<le> hi"
      using 1(6,7) by (simp_all add: xs_def)
    have tx: "keep_outside lo hi (table xs) = table xs"
      using ax by (rule keep_table)
    note IH = 1(1-5) [OF True refl, folded s_def]
    consider (apart) "apart lo hi s" | (whole) "\<not> apart lo hi s" "lo \<le> sp_off s" "sp_end s \<le> hi"
      | (prefix) "\<not> apart lo hi s" "lo \<le> sp_off s" "\<not> sp_end s \<le> hi"
      | (suffix) "\<not> apart lo hi s" "\<not> lo \<le> sp_off s" "sp_end s \<le> hi"
      | (hole) "\<not> apart lo hi s" "\<not> lo \<le> sp_off s" "\<not> sp_end s \<le> hi"
      by blast
    then show ?thesis
    proof cases
      case apart
      have "forget_from lo hi i spans = forget_from lo hi (Suc i) spans"
        using True apart by (subst forget_from.simps) (simp add: s_def [symmetric])
      then show ?thesis
        using IH(1) apart ax lh by (simp add: sp li)
    next
      case whole
      let ?sp = "butlast (spans[i := last spans])"
      have f: "forget_from lo hi i spans = forget_from lo hi i ?sp"
        using True whole by (subst forget_from.simps) (simp add: s_def [symmetric])
      have "take i ?sp = xs" "set ?sp = set xs \<union> set ys"
        using set_swap_last [OF True] by (simp_all add: xs_def ys_def)
      then have "table ?sp = table xs \<union> table ys" "\<forall>s\<in>set (take i ?sp). apart lo hi s"
        using ax by (auto simp: table_def)
      then show ?thesis
        using IH(2) whole lh f keep_whole [OF whole(2,3)] by (simp add: sp)
    next
      case prefix
      have f: "forget_from lo hi i spans = forget_from lo hi (Suc i) (spans[i := cut_prefix hi s])"
        using True prefix by (subst forget_from.simps) (simp add: s_def [symmetric])
      show ?thesis
        using IH(3) prefix lh ax keep_prefix [OF prefix] unfolding f upd by (simp add: sp li)
    next
      case suffix
      have f: "forget_from lo hi i spans = forget_from lo hi (Suc i) (spans[i := cut_suffix lo s])"
        using True suffix by (subst forget_from.simps) (simp add: s_def [symmetric])
      show ?thesis
        using IH(4) suffix lh ax keep_suffix [OF suffix] unfolding f upd by (simp add: sp li)
    next
      case hole
      let ?sp = "arena_span_record (sp_addr s + (hi - sp_off s)) (sp_end s - hi) hi (sp_priv s) (spans[i := cut_suffix lo s])"
      have f: "forget_from lo hi i spans = forget_from lo hi (Suc i) ?sp"
        using True hole by (subst forget_from.simps) (simp add: s_def [symmetric])
      define T where "T = {(hi + k, sp_addr s + (hi - sp_off s) + k, sp_priv s) | k. k < sp_end s - hi}"
      have kh: "span_rel (cut_suffix lo s) \<union> T = keep_outside lo hi (span_rel s)" "apart lo hi (cut_suffix lo s)"
        using keep_hole [OF hole(1) lh hole(2,3)] by (simp_all add: T_def)
      have tb: "table ?sp = table xs \<union> (span_rel (cut_suffix lo s) \<union> table ys) \<union> T"
        by (simp only: span_rel_record upd table_simps T_def)
      have "take (Suc i) ?sp = xs @ [cut_suffix lo s]"
        by (simp add: upd arena_span_record_def li)
      then have r: "table (forget_from lo hi (Suc i) ?sp) = keep_outside lo hi (table ?sp)
          \<and> (\<forall>s\<in>set (forget_from lo hi (Suc i) ?sp). apart lo hi s)"
        using IH(5) [OF hole(1) _ hole(2,3) lh] hole(3) ax kh(2) by (simp del: table_simps span_rel_record)
      have "keep_outside lo hi (span_rel (cut_suffix lo s)) \<union> keep_outside lo hi T = keep_outside lo hi (span_rel s)"
        using kh(1) by (metis keep_outside_simps(1,3))
      then show ?thesis
        using r unfolding f tb by (auto simp: sp)
    qed
  qed
qed

lemma forget_table: "table (arena_span_forget off n spans) = keep_outside off (off + n) (table spans)"
  using forget_from_table [of off "off + n" 0 spans] by (simp add: arena_span_forget_def)

text \<open>The table is a partial bijection: one address per offset and one offset per address.\<close>

definition one_to_one :: "(nat \<times> nat \<times> bool) set \<Rightarrow> bool" where
  "one_to_one T \<longleftrightarrow> (\<forall>x y p x' y' p'. (x, y, p) \<in> T \<longrightarrow> (x', y', p') \<in> T \<longrightarrow> (x = x' \<longleftrightarrow> y = y'))"

lemma one_to_oneD:
  "one_to_one T \<Longrightarrow> (x, y, p) \<in> T \<Longrightarrow> (x', y', p') \<in> T \<Longrightarrow> x = x' \<longleftrightarrow> y = y'"
  unfolding one_to_one_def by blast

lemma one_to_one_subset: "one_to_one T \<Longrightarrow> S \<subseteq> T \<Longrightarrow> one_to_one S"
  unfolding one_to_one_def by blast

lemma keep_outside_subset: "keep_outside lo hi T \<subseteq> T"
  by (auto simp: keep_outside_def)

lemma hva_of_table: "arena_hva_of x spans = Some y \<Longrightarrow> \<exists>p. (x, y, p) \<in> table spans"
  by (induction x spans rule: arena_hva_of.induct) (auto simp: span_rel_iff split: if_splits)

lemma hva_of_Some: "(x, y, p) \<in> table spans \<Longrightarrow> \<exists>z. arena_hva_of x spans = Some z"
  by (induction x spans rule: arena_hva_of.induct) (auto simp: span_rel_iff)

lemma offset_of_table: "arena_offset_of y spans = Some x \<Longrightarrow> \<exists>p. (x, y, p) \<in> table spans"
  by (induction y spans rule: arena_offset_of.induct)
     (auto simp: span_rel_iff sp_end_def split: if_splits)

lemma offset_of_Some: "(x, y, p) \<in> table spans \<Longrightarrow> \<exists>z. arena_offset_of y spans = Some z"
  by (induction y spans rule: arena_offset_of.induct) (auto simp: span_rel_iff sp_end_def)

lemma hva_of_iff:
  assumes "one_to_one (table spans)"
  shows "arena_hva_of x spans = Some y \<longleftrightarrow> (\<exists>p. (x, y, p) \<in> table spans)"
proof
  assume "\<exists>p. (x, y, p) \<in> table spans"
  then obtain p where p: "(x, y, p) \<in> table spans" by blast
  then obtain z q where "arena_hva_of x spans = Some z" "(x, z, q) \<in> table spans"
    using hva_of_Some [OF p] hva_of_table by blast
  then show "arena_hva_of x spans = Some y"
    using one_to_oneD [OF assms p] by auto
qed (rule hva_of_table)

lemma offset_of_iff:
  assumes "one_to_one (table spans)"
  shows "arena_offset_of y spans = Some x \<longleftrightarrow> (\<exists>p. (x, y, p) \<in> table spans)"
proof
  assume "\<exists>p. (x, y, p) \<in> table spans"
  then obtain p where p: "(x, y, p) \<in> table spans" by blast
  then obtain z q where "arena_offset_of y spans = Some z" "(z, y, q) \<in> table spans"
    using offset_of_Some [OF p] offset_of_table by blast
  then show "arena_offset_of y spans = Some x"
    using one_to_oneD [OF assms p] by auto
qed (rule offset_of_table)

section \<open>The invariant and the steps that keep it\<close>

definition arena_inv :: "arena \<Rightarrow> bool" where
  "arena_inv a \<longleftrightarrow>
     one_to_one (table (arena_spans a)) \<and> (\<forall>(x, y, p)\<in>table (arena_spans a). x < arena_brk a) \<and>
     arena_brk a \<le> arena_capacity a \<and> ARENA_GRANULE dvd arena_brk a \<and>
     (arena_backing_fd a < 0 \<longrightarrow> arena_spans a = [])"

text \<open>What \<^verbatim>\<open>mmap\<close> promises: the range it answers with is not one that is mapped.\<close>

definition fresh_at :: "nat \<Rightarrow> nat \<Rightarrow> arena \<Rightarrow> bool" where
  "fresh_at addr n a \<longleftrightarrow> (\<forall>(x, y, p)\<in>table (arena_spans a). \<not> (addr \<le> y \<and> y < addr + n))"

lemma nroundup_ge: "0 < y \<Longrightarrow> x \<le> nroundup x y"
proof -
  assume "0 < y"
  then have "x \<le> (x + y - 1) div y * y \<longleftrightarrow> x \<le> (x + y - 1) - (x + y - 1) mod y"
    by (simp add: minus_mod_eq_div_mult [symmetric])
  moreover have "(x + y - 1) mod y \<le> y - 1"
    using \<open>0 < y\<close> by (simp add: less_Suc_eq_le [symmetric])
  ultimately show ?thesis
    using \<open>0 < y\<close> by (simp add: nroundup_def)
qed

lemma nroundup_dvd: "y dvd nroundup x y"
  by (simp add: nroundup_def)

lemma one_to_one_add:
  assumes "one_to_one T" "\<And>x y p. (x, y, p) \<in> T \<Longrightarrow> \<not> (off \<le> x \<and> x < off + n) \<and> \<not> (addr \<le> y \<and> y < addr + n)"
  shows "one_to_one (T \<union> {(off + k, addr + k, q) | k. k < n})"
proof -
  have "x = x' \<longleftrightarrow> y = y'"
    if "(x, y, p) \<in> T \<union> {(off + k, addr + k, q) | k. k < n}"
       "(x', y', p') \<in> T \<union> {(off + k, addr + k, q) | k. k < n}" for x y p x' y' p'
    using that assms(2) [of x y p] assms(2) [of x' y' p'] one_to_oneD [OF assms(1), of x y p x' y' p'] by auto
  then show ?thesis unfolding one_to_one_def by blast
qed

lemma arena_grow_ok:
  "arena_grow ok b a = Some a' \<Longrightarrow> b \<le> arena_capacity a' \<and> arena_spans a' = arena_spans a
     \<and> arena_brk a' = arena_brk a \<and> arena_backing_fd a' = arena_backing_fd a \<and> arena_capacity a \<le> arena_capacity a'"
  using nroundup_ge [of ARENA_GROW_STEP b] by (auto simp: arena_grow_def split: if_splits)

lemma arena_alloc_inv:
  assumes inv: "arena_inv a" and al: "arena_alloc fd ok (Some p) n a = Some (p', off, a')"
    and fr: "fresh_at p (nroundup n ARENA_GRANULE) a"
  shows "arena_inv a' \<and> p' = p \<and> arena_brk a \<le> off + (if arena_backing_fd a < 0 then arena_brk a else 0)
    \<and> arena_brk a' = off + nroundup n ARENA_GRANULE \<and> ARENA_GRANULE dvd off
    \<and> table (arena_spans a') = table (arena_spans a) \<union> {(off + k, p + k, False) | k. k < nroundup n ARENA_GRANULE}"
proof -
  obtain a0 where a0: "(if arena_backing_fd a < 0 then arena_init fd a else Some a) = Some a0"
    using al by (auto simp: arena_alloc_def split: option.splits)
  have i0: "arena_inv a0" "arena_spans a0 = arena_spans a" "arena_backing_fd a0 \<ge> 0"
    "arena_brk a0 = (if arena_backing_fd a < 0 then 0 else arena_brk a)"
    using a0 inv by (auto simp: arena_init_def arena_inv_def one_to_one_def split: if_splits)
  let ?n = "nroundup n ARENA_GRANULE"
  obtain a1 where a1: "arena_grow ok (arena_brk a0 + ?n) (a0\<lparr> arena_brk := arena_brk a0 + ?n \<rparr>) = Some a1"
      and r: "off = arena_brk a0" "p' = p"
        "a' = a1\<lparr> arena_spans := arena_span_record p ?n off False (arena_spans a1) \<rparr>"
    using al a0 by (auto simp: arena_alloc_def Let_def split: option.splits)
  note g = arena_grow_ok [OF a1]
  have t: "table (arena_spans a') = table (arena_spans a) \<union> {(off + k, p + k, False) | k. k < ?n}"
    using g r i0(2) by simp
  have below: "\<And>x y q. (x, y, q) \<in> table (arena_spans a) \<Longrightarrow> x < off"
    using i0 r(1) by (auto simp: arena_inv_def)
  have "one_to_one (table (arena_spans a'))"
    unfolding t
  proof (rule one_to_one_add)
    show "one_to_one (table (arena_spans a))"
      using inv by (simp add: arena_inv_def)
    show "\<not> (off \<le> x \<and> x < off + ?n) \<and> \<not> (p \<le> y \<and> y < p + ?n)"
      if "(x, y, q) \<in> table (arena_spans a)" for x y q
      using below [OF that] fr that by (auto simp: fresh_at_def)
  qed
  moreover have b: "arena_brk a' = off + ?n"
    using g r by simp
  have "x < arena_brk a'" if "(x, y, q) \<in> table (arena_spans a')" for x y q
    using that below [of x y q] by (auto simp: t b)
  then have "\<forall>(x, y, q)\<in>table (arena_spans a'). x < arena_brk a'"
    by blast
  moreover have "ARENA_GRANULE dvd off"
    using i0 r(1) by (simp add: arena_inv_def)
  ultimately show ?thesis
    using g r i0(3,4) nroundup_dvd [of ARENA_GRANULE n] t by (auto simp: arena_inv_def)
qed

lemma arena_forget_inv:
  "arena_inv a \<Longrightarrow> table spans \<subseteq> table (arena_spans a) \<Longrightarrow> (arena_backing_fd a < 0 \<longrightarrow> spans = []) \<Longrightarrow>
   arena_inv (a\<lparr> arena_spans := spans \<rparr>)"
  by (auto simp: arena_inv_def elim: one_to_one_subset)

lemma arena_free_inv: "arena_inv a \<Longrightarrow> arena_inv (arena_free off n a)"
  using arena_forget_inv [of a] by (auto simp: arena_free_def forget_table keep_outside_def)

lemma forget_Nil [simp]: "arena_span_forget off n [] = []"
  by (simp add: arena_span_forget_def forget_from.simps)

lemma arena_unmap_inv: "arena_inv a \<Longrightarrow> arena_inv (arena_unmap addr n a)"
  unfolding arena_unmap_def
  by (rule arena_forget_inv)
     (auto simp: arena_span_forget_addr_def forget_table keep_outside_def arena_inv_def split: option.splits)

section \<open>The snapshot\<close>

lemma fold_write_outside:
  "(\<nexists>y p. (x, y, p) \<in> table spans) \<Longrightarrow> fold (write_span memory) spans fl x = fl x"
proof (induction spans arbitrary: fl)
  case (Cons s ss)
  then have "\<not> (sp_off s \<le> x \<and> x < sp_end s)" "\<nexists>y p. (x, y, p) \<in> table ss"
    by (auto simp: span_rel_iff)
  then show ?case
    using Cons.IH by (auto simp: write_span_def)
qed simp

lemma fold_write_inside:
  "one_to_one (table spans) \<Longrightarrow> (x, y, p) \<in> table spans \<Longrightarrow> fold (write_span memory) spans fl x = memory y"
proof (induction spans arbitrary: fl p)
  case (Cons s ss)
  have o: "one_to_one (table ss)"
    using Cons.prems(1) by (rule one_to_one_subset) auto
  show ?case
  proof (cases "\<exists>z q. (x, z, q) \<in> table ss")
    case True
    then obtain z q where z: "(x, z, q) \<in> table ss" by blast
    then have "z = y"
      using one_to_oneD [OF Cons.prems(1) Cons.prems(2), of x z q] by simp
    then show ?thesis
      using Cons.IH [OF o] z by simp
  next
    case False
    then have "sp_off s \<le> x \<and> x < sp_end s \<and> y = sp_addr s + (x - sp_off s)"
      using Cons.prems(2) by (auto simp: span_rel_iff)
    then have "write_span memory s fl x = memory y"
      by (simp add: write_span_def)
    then show ?thesis
      using fold_write_outside [OF False, of memory "write_span memory s fl"] by simp
  qed
qed simp

section \<open>Private views\<close>

definition private_apart :: "arena_span list \<Rightarrow> bool" where
  "private_apart spans \<longleftrightarrow>
     (\<forall>s\<in>set spans. sp_priv s \<longrightarrow> 0 < sp_size s \<and>
        (\<forall>t\<in>set spans. sp_priv t \<and> s \<noteq> t \<longrightarrow> apart (sp_off s) (sp_end s) t))"

lemma private_apartD:
  "private_apart spans \<Longrightarrow> s \<in> set spans \<Longrightarrow> t \<in> set spans \<Longrightarrow> sp_priv s \<Longrightarrow> sp_priv t \<Longrightarrow> s \<noteq> t \<Longrightarrow>
   apart (sp_off s) (sp_end s) t"
  "private_apart spans \<Longrightarrow> s \<in> set spans \<Longrightarrow> sp_priv s \<Longrightarrow> 0 < sp_size s"
  by (auto simp: private_apart_def)

lemma private_apart_subset: "private_apart spans \<Longrightarrow> set spans' \<subseteq> set spans \<Longrightarrow> private_apart spans'"
  unfolding private_apart_def by blast

lemma apart_hull:
  assumes "apart lo hi t" "apart (sp_off s) (sp_end s) t" "\<not> apart lo hi s" "0 < sp_size t"
  shows "apart (min lo (sp_off s)) (max hi (sp_end s)) t"
  using assms by (auto simp: apart_def sp_end_def)

lemma find_private_table:
  assumes "find_private off block n spans = Some y" "block \<le> off" "off < block + n"
  shows "(off, y, True) \<in> table spans
    \<and> (\<exists>s\<in>set spans. sp_priv s \<and> sp_off s \<le> block \<and> block + n \<le> sp_end s \<and> y = sp_addr s + (off - sp_off s))"
  using assms
  by (induction off block n spans rule: find_private.induct) (auto simp: span_rel_iff split: if_splits)

text \<open>
  Widening: what is taken out is exactly the private spans that meet the final
  range, and the final range is the hull of the wanted range and those spans.
\<close>

lemma widen_private_ok:
  assumes "widen_private lo hi i spans = (lo', hi', spans')" "i \<le> length spans"
    and "\<forall>s\<in>set (take i spans). sp_priv s \<longrightarrow> apart lo hi s" "private_apart spans"
  shows "lo' \<le> lo \<and> hi \<le> hi' \<and> set spans' \<subseteq> set spans
    \<and> (\<forall>s\<in>set spans'. sp_priv s \<longrightarrow> apart lo' hi' s)
    \<and> (\<forall>s\<in>set spans. s \<in> set spans' \<or> sp_priv s \<and> lo' \<le> sp_off s \<and> sp_end s \<le> hi')"
  using assms
proof (induction lo hi i spans rule: widen_private.induct)
  case (1 lo hi i spans)
  show ?case
  proof (cases "i < length spans")
    case False
    then show ?thesis
      using 1(3-) by (simp add: widen_private.simps)
  next
    case True
    define s where "s = spans ! i"
    have mem: "s \<in> set spans"
      using True by (simp add: s_def)
    show ?thesis
    proof (cases "\<not> sp_priv s \<or> apart lo hi s")
      case skip: True
      have "widen_private lo hi i spans = widen_private lo hi (Suc i) spans"
        using True skip by (subst widen_private.simps) (simp add: s_def [symmetric])
      moreover have "\<forall>t\<in>set (take (Suc i) spans). sp_priv t \<longrightarrow> apart lo hi t"
        using 1(5) skip True by (auto simp: take_Suc_conv_app_nth s_def)
      ultimately show ?thesis
        using 1(1) [OF True s_def skip] 1(3,6) True by simp
    next
      case hit: False
      let ?sp = "butlast (spans[i := last spans])"
        and ?lo = "min lo (sp_off s)" and ?hi = "max hi (sp_end s)"
      have w: "widen_private ?lo ?hi i ?sp = (lo', hi', spans')"
        using 1(3) True hit by (subst (asm) widen_private.simps) (simp add: s_def [symmetric])
      have sw: "take i ?sp = take i spans" "set ?sp = set (take i spans) \<union> set (drop (Suc i) spans)"
        using set_swap_last [OF True] by blast+
      have all: "set spans = insert s (set ?sp)"
        using True unfolding sw(2) s_def
        by (metis Cons_nth_drop_Suc Un_insert_right append_take_drop_id list.simps(15) set_append)
      have "apart ?lo ?hi t" if "t \<in> set (take i spans)" "sp_priv t" for t
      proof (rule apart_hull)
        show "apart lo hi t" using 1(5) that by blast
        then have "t \<noteq> s" using hit by auto
        then show "apart (sp_off s) (sp_end s) t" "0 < sp_size t"
          using private_apartD [OF 1(6)] mem that hit by (auto dest: in_set_takeD)
        show "\<not> apart lo hi s" using hit by blast
      qed
      then have ap: "\<forall>t\<in>set (take i ?sp). sp_priv t \<longrightarrow> apart ?lo ?hi t"
        unfolding sw(1) by blast
      have len: "i \<le> length ?sp" and pa: "private_apart ?sp"
        using True private_apart_subset [OF 1(6), of ?sp] all by (simp, blast)
      have r: "lo' \<le> ?lo \<and> ?hi \<le> hi' \<and> set spans' \<subseteq> set ?sp
          \<and> (\<forall>s\<in>set spans'. sp_priv s \<longrightarrow> apart lo' hi' s)
          \<and> (\<forall>s\<in>set ?sp. s \<in> set spans' \<or> sp_priv s \<and> lo' \<le> sp_off s \<and> sp_end s \<le> hi')"
        by (rule 1(2) [OF True s_def hit w len ap pa])
      show ?thesis
        using r hit unfolding all by auto
    qed
  qed
qed

lemma apart_sym: "apart (sp_off s) (sp_end s) t \<longleftrightarrow> apart (sp_off t) (sp_end t) s"
  by (auto simp: apart_def)

text \<open>The arena of a process that is being restored has only private spans.\<close>

definition restore_inv :: "arena \<Rightarrow> bool" where
  "restore_inv a \<longleftrightarrow>
     arena_backing_fd a \<ge> 0 \<and> one_to_one (table (arena_spans a)) \<and> private_apart (arena_spans a) \<and>
     (\<forall>s\<in>set (arena_spans a). sp_priv s)"

definition mmap_fresh :: "(arena_span list \<Rightarrow> nat \<Rightarrow> nat \<Rightarrow> nat option) \<Rightarrow> bool" where
  "mmap_fresh mmap_at \<longleftrightarrow>
     (\<forall>spans n off p. mmap_at spans n off = Some p \<longrightarrow>
        (\<forall>(x, y, q)\<in>table spans. \<not> (p \<le> y \<and> y < p + n)))"

lemma mmap_freshD:
  "mmap_fresh m \<Longrightarrow> m spans n off = Some p \<Longrightarrow> (x, y, q) \<in> table spans \<Longrightarrow> \<not> (p \<le> y \<and> y < p + n)"
  unfolding mmap_fresh_def by blast

definition covered :: "arena_span list \<Rightarrow> nat \<Rightarrow> nat \<Rightarrow> bool" where
  "covered spans off n \<longleftrightarrow> (\<exists>s\<in>set spans. sp_off s \<le> off \<and> off + n \<le> sp_end s)"

lemma covered_views:
  assumes "one_to_one (table spans)" "covered spans off n"
  shows "\<exists>y. \<forall>k<n. arena_hva_of (off + k) spans = Some (y + k)"
proof -
  obtain s where s: "s \<in> set spans" "sp_off s \<le> off" "off + n \<le> sp_end s"
    using assms(2) by (auto simp: covered_def)
  have "arena_hva_of (off + k) spans = Some (sp_addr s + (off - sp_off s) + k)" if "k < n" for k
  proof -
    have "(off + k, sp_addr s + (off - sp_off s) + k, sp_priv s) \<in> span_rel s"
      using s that by (simp add: span_rel_iff)
    then show ?thesis
      using s(1) by (subst hva_of_iff [OF assms(1)]) (auto simp: table_def)
  qed
  then show ?thesis by blast
qed

lemma nroundup_block: "off - off div ARENA_GRANULE * ARENA_GRANULE + n \<le> nroundup (off - off div ARENA_GRANULE * ARENA_GRANULE + n) ARENA_GRANULE"
  by (rule nroundup_ge) simp

lemma map_private_ok:
  assumes inv: "restore_inv a" and fr: "mmap_fresh mmap_at" and n: "0 < n"
    and m: "arena_map_private mmap_at off n a = Some (y, a')"
  shows "restore_inv a' \<and> covered (arena_spans a') off n
    \<and> (\<forall>off' n'. 0 < n' \<longrightarrow> covered (arena_spans a) off' n' \<longrightarrow> covered (arena_spans a') off' n')
    \<and> arena_hva_of off (arena_spans a') = Some y"
proof -
  define b bn where "b = off div ARENA_GRANULE * ARENA_GRANULE" and "bn = nroundup (off - b + n) ARENA_GRANULE"
  have b: "b \<le> off" "off + n \<le> b + bn"
    using nroundup_block [of off n] unfolding b_def bn_def by simp_all
  have o: "one_to_one (table (arena_spans a))" "private_apart (arena_spans a)"
      "\<forall>s\<in>set (arena_spans a). sp_priv s" "arena_backing_fd a \<ge> 0"
    using inv by (simp_all add: restore_inv_def)
  show ?thesis
  proof (cases "find_private off b bn (arena_spans a)")
    case (Some z)
    then have "a' = a" "y = z"
      using m o(4) by (auto simp: arena_map_private_def Let_def b_def bn_def)
    moreover obtain s where "s \<in> set (arena_spans a)" "sp_off s \<le> b" "b + bn \<le> sp_end s" "(off, z, True) \<in> table (arena_spans a)"
      using find_private_table [OF Some] b n by auto
    ultimately show ?thesis
      using inv b hva_of_iff [OF o(1)] by (auto simp: covered_def intro!: bexI [of _ s])
  next
    case None
    obtain lo hi spans where w: "widen_private b (b + bn) 0 (arena_spans a) = (lo, hi, spans)"
      by (metis prod_cases3)
    then obtain p where p: "mmap_at spans (hi - lo) lo = Some p" "y = p + (off - lo)"
        "a' = a\<lparr> arena_spans := arena_span_record p (hi - lo) lo True spans \<rparr>"
      using m o(4) None by (auto simp: arena_map_private_def Let_def b_def bn_def split: option.splits)
    have wd: "lo \<le> b" "b + bn \<le> hi" "set spans \<subseteq> set (arena_spans a)" "\<forall>s\<in>set spans. sp_priv s \<longrightarrow> apart lo hi s"
        "\<forall>s\<in>set (arena_spans a). s \<in> set spans \<or> sp_priv s \<and> lo \<le> sp_off s \<and> sp_end s \<le> hi"
      using widen_private_ok [OF w] o(2) by auto
    define new where "new = \<lparr> sp_addr = p, sp_size = hi - lo, sp_off = lo, sp_priv = True \<rparr>"
    have sp': "arena_spans a' = spans @ [new]"
      by (simp add: p(3) arena_span_record_def new_def)
    have ne: "sp_off new = lo" "sp_end new = hi" "lo < hi"
      using wd b n by (auto simp: new_def sp_end_def)
    have ap: "apart lo hi s" if "s \<in> set spans" for s
      using that wd(3,4) o(3) by blast
    have "one_to_one (table spans \<union> {(lo + k, p + k, True) | k. k < hi - lo})"
    proof (rule one_to_one_add)
      show "one_to_one (table spans)"
        using o(1) by (rule one_to_one_subset) (use wd(3) in \<open>auto simp: table_def\<close>)
      fix x z q assume xz: "(x, z, q) \<in> table spans"
      then obtain s where "s \<in> set spans" "(x, z, q) \<in> span_rel s"
        by (auto simp: table_def)
      then show "\<not> (lo \<le> x \<and> x < lo + (hi - lo)) \<and> \<not> (p \<le> z \<and> z < p + (hi - lo))"
        using ap [of s] mmap_freshD [OF fr p(1) xz] by (auto simp: apart_def span_rel_iff)
    qed
    then have o': "one_to_one (table (arena_spans a'))"
      by (simp add: p(3))
    have "apart (sp_off s) (sp_end s) new" "apart (sp_off new) (sp_end new) s" if "s \<in> set spans" for s
      using ap [OF that] ne(1,2) apart_sym [of s new] by simp_all
    moreover have "0 < sp_size new" "sp_priv new"
      using ne(3) by (simp_all add: new_def)
    ultimately have "private_apart (spans @ [new])"
      using private_apart_subset [OF o(2) wd(3)] by (auto simp: private_apart_def)
    then have inv': "restore_inv a'"
      using o' o(3,4) wd(3) \<open>sp_priv new\<close> unfolding restore_inv_def sp' by (auto simp: p(3))
    have cov: "covered (arena_spans a') off n"
      using wd b ne by (auto simp: covered_def sp')
    have "covered (arena_spans a') off' n'" if "covered (arena_spans a) off' n'" for off' n'
      using that wd(5) ne unfolding covered_def sp' by (metis Un_iff insertI1 le_trans list.simps(15) set_append)
    moreover have "(off, y, True) \<in> span_rel new"
      using wd b n ne p(2) by (simp add: span_rel_iff new_def sp_end_def)
    then have "arena_hva_of off (arena_spans a') = Some y"
      using o' by (subst hva_of_iff) (auto simp: sp')
    ultimately show ?thesis
      using inv' cov by blast
  qed
qed

lemma map_views_ok:
  assumes "restore_inv a" "mmap_fresh mmap_at" "\<forall>(off, n)\<in>set reqs. 0 < n"
    "map_views mmap_at reqs a = Some a'"
  shows "restore_inv a' \<and> (\<forall>(off, n)\<in>set reqs. covered (arena_spans a') off n)
    \<and> (\<forall>off n. 0 < n \<longrightarrow> covered (arena_spans a) off n \<longrightarrow> covered (arena_spans a') off n)"
  using assms
proof (induction mmap_at reqs a rule: map_views.induct)
  case (2 mmap_at off n reqs a)
  obtain y a1 where 1: "arena_map_private mmap_at off n a = Some (y, a1)" "map_views mmap_at reqs a1 = Some a'"
    using 2(5) by (auto split: option.splits)
  have n: "0 < n" and r: "\<forall>(off, n)\<in>set reqs. 0 < n"
    using 2(4) by auto
  note m = map_private_ok [OF 2(2,3) n 1(1)]
  have "restore_inv a' \<and> (\<forall>(off, n)\<in>set reqs. covered (arena_spans a') off n)
    \<and> (\<forall>off n. 0 < n \<longrightarrow> covered (arena_spans a1) off n \<longrightarrow> covered (arena_spans a') off n)"
    using 2(1) [OF 1(1) refl] m 2(3) r 1(2) by blast
  then show ?case
    using m n by auto
qed auto

section \<open>Growing in place\<close>

lemma one_to_one_extend:
  assumes "one_to_one T" "\<forall>k<m. \<exists>q. (off + k, addr + k, q) \<in> T"
    and "\<And>x y p. (x, y, p) \<in> T \<Longrightarrow> \<not> (off + m \<le> x \<and> x < off + n) \<and> \<not> (addr + m \<le> y \<and> y < addr + n)"
  shows "one_to_one (T \<union> {(off + k, addr + k, q) | k q. k < n})"
proof -
  have mixed: "x = off + k \<longleftrightarrow> y = addr + k" if xy: "(x, y, p) \<in> T" and k: "k < n" for x y p k
  proof (cases "k < m")
    case True
    then obtain q where "(off + k, addr + k, q) \<in> T" using assms(2) by blast
    then show ?thesis using one_to_oneD [OF assms(1) xy] by blast
  next
    case False
    then show ?thesis using assms(3) [OF xy] k by auto
  qed
  show ?thesis
    unfolding one_to_one_def
  proof (intro allI impI)
    fix x y p x' y' p'
    assume "(x, y, p) \<in> T \<union> {(off + k, addr + k, q) | k q. k < n}"
      and "(x', y', p') \<in> T \<union> {(off + k, addr + k, q) | k q. k < n}"
    then show "x = x' \<longleftrightarrow> y = y'"
      using mixed [of x y p] mixed [of x' y' p'] one_to_oneD [OF assms(1), of x y p x' y' p'] by auto
  qed
qed

lemma resize_span_table:
  "resize_span addr off n spans = Some spans' \<Longrightarrow>
   table spans' \<subseteq> table spans \<union> {(off + k, addr + k, q) | k q. k < n}"
proof (induction addr off n spans arbitrary: spans' rule: resize_span.induct)
  case (2 addr off n s ss)
  show ?case
  proof (cases "sp_addr s = addr \<and> sp_off s = off")
    case True
    then show ?thesis using 2(2) by (auto simp: span_rel_def)
  next
    case False
    then obtain ss' where ss: "resize_span addr off n ss = Some ss'" "spans' = s # ss'"
      using 2(2) by auto
    have "table ss' \<subseteq> table ss \<union> {(off + k, addr + k, q) | k q. k < n}"
      by (rule 2(1) [OF False ss(1)])
    then show ?thesis unfolding ss(2) table_simps by blast
  qed
qed simp

text \<open>
  The caller of \<^verbatim>\<open>arena_extend\<close> names a range it has: its rounded size is mapped at the
  address it gives.
\<close>

definition owns_range :: "nat \<Rightarrow> nat \<Rightarrow> nat \<Rightarrow> arena \<Rightarrow> bool" where
  "owns_range off n addr a \<longleftrightarrow> (\<forall>k<n. \<exists>q. (off + k, addr + k, q) \<in> table (arena_spans a))"

lemma arena_extend_inv:
  assumes inv: "arena_inv a" and own: "owns_range off (nroundup old ARENA_GRANULE) h a"
    and fr: "\<And>p. mapped = Some p \<Longrightarrow> fresh_at p (nroundup new ARENA_GRANULE - nroundup old ARENA_GRANULE) a"
    and e: "arena_extend ok mapped off old new h a = (r, a')"
  shows "arena_inv a' \<and> (r \<noteq> None \<longrightarrow> r = Some h)"
proof -
  let ?o = "nroundup old ARENA_GRANULE" and ?n = "nroundup new ARENA_GRANULE"
  let ?add = "?n - ?o"
  define grown_arena where "grown_arena = (\<lambda>a1 :: arena. a1\<lparr> arena_brk := arena_brk a + ?add,
           arena_spans := (case resize_span h off ?n (arena_spans a1) of
             Some spans \<Rightarrow> spans
           | None \<Rightarrow> arena_span_record (h + ?o) ?add (arena_brk a + ?add - ?add) False (arena_spans a1)) \<rparr>)"
  have "(a' = a \<and> (r = None \<or> r = Some h)) \<or>
    (\<exists>a1. arena_grow ok (arena_brk a + ?add) a = Some a1 \<and> a' = a1 \<and> r = None) \<or>
    (\<exists>a1. arena_grow ok (arena_brk a + ?add) a = Some a1 \<and> mapped = Some (h + ?o) \<and>
        ?o < ?n \<and> off + ?o = arena_brk a \<and> arena_backing_fd a \<ge> 0 \<and> r = Some h \<and> a' = grown_arena a1)"
  proof (cases "arena_backing_fd a < 0 \<or> h = 0 \<or> ?n \<le> ?o \<or> off + ?o \<noteq> arena_brk a")
    case True
    then have "a' = a \<and> (r = None \<or> r = Some h)"
      using e by (auto simp: arena_extend_def Let_def split: if_splits)
    then show ?thesis by blast
  next
    case False
    then have n: "\<not> (arena_backing_fd a < 0 \<or> h = 0)" "\<not> ?n \<le> ?o" "\<not> off + ?o \<noteq> arena_brk a"
      by auto
    have e': "(case arena_grow ok (arena_brk a + ?add) a of
        None \<Rightarrow> (None, a)
      | Some a1 \<Rightarrow> if mapped \<noteq> Some (h + ?o) then (None, a1) else (Some h, grown_arena a1)) = (r, a')"
      using e
      unfolding arena_extend_def Let_def if_not_P [OF n(1)] if_not_P [OF n(2)] if_not_P [OF n(3)] grown_arena_def .
    show ?thesis
    proof (cases "arena_grow ok (arena_brk a + ?add) a")
      case None
      then show ?thesis using e' by simp
    next
      case (Some a1)
      then show ?thesis using e' False by (cases "mapped = Some (h + ?o)") auto
    qed
  qed
  then consider (same) "a' = a" "r = None \<or> r = Some h"
    | (moved) a1 where "arena_grow ok (arena_brk a + ?add) a = Some a1" "a' = a1" "r = None"
    | (grown) a1 where "arena_grow ok (arena_brk a + ?add) a = Some a1" "mapped = Some (h + ?o)"
        "?o < ?n" "off + ?o = arena_brk a" "arena_backing_fd a \<ge> 0" "r = Some h" "a' = grown_arena a1"
    by blast
  then show ?thesis
  proof cases
    case same
    then show ?thesis using inv by auto
  next
    case moved
    then show ?thesis
      using inv arena_grow_ok [OF moved(1)] by (auto simp: arena_inv_def)
  next
    case grown
    note g = arena_grow_ok [OF grown(1)]
    let ?N = "{(off + k, h + k, q) | k q. k < ?n}"
    have sub: "table (arena_spans a') \<subseteq> table (arena_spans a) \<union> ?N"
    proof (cases "resize_span h off ?n (arena_spans a1)")
      case None
      have "(arena_brk a + k, h + ?o + k, False) \<in> ?N" if "k < ?add" for k
      proof -
        have "(arena_brk a + k, h + ?o + k, False) = (off + (?o + k), h + (?o + k), False)" "?o + k < ?n"
          using grown(4) that by simp_all
        then show ?thesis by blast
      qed
      then show ?thesis using None g by (auto simp: grown(7) grown_arena_def)
    next
      case (Some spans)
      then show ?thesis using resize_span_table [OF Some] g by (auto simp: grown(7) grown_arena_def)
    qed
    have "one_to_one (table (arena_spans a) \<union> ?N)"
    proof (rule one_to_one_extend)
      show "one_to_one (table (arena_spans a))"
        using inv by (simp add: arena_inv_def)
      show "\<forall>k<?o. \<exists>q. (off + k, h + k, q) \<in> table (arena_spans a)"
        using own by (simp add: owns_range_def)
      fix x y p assume xy: "(x, y, p) \<in> table (arena_spans a)"
      then have "x < off + ?o"
        using inv grown(4) by (auto simp: arena_inv_def)
      then show "\<not> (off + ?o \<le> x \<and> x < off + ?n) \<and> \<not> (h + ?o \<le> y \<and> y < h + ?n)"
        using fr [OF grown(2)] xy grown(3) by (auto simp: fresh_at_def)
    qed
    then have o: "one_to_one (table (arena_spans a'))"
      using sub by (rule one_to_one_subset)
    have b: "arena_brk a' = off + ?n"
      using grown(3,4) by (simp add: grown(7) grown_arena_def)
    have "x < arena_brk a'" if "(x, y, q) \<in> table (arena_spans a')" for x y q
      using subsetD [OF sub that] inv grown(3,4) by (auto simp: b arena_inv_def)
    then have lt: "\<forall>(x, y, q)\<in>table (arena_spans a'). x < arena_brk a'"
      by blast
    have "ARENA_GRANULE dvd arena_brk a + ?add"
      using inv nroundup_dvd [of ARENA_GRANULE] by (simp add: arena_inv_def dvd_diff_nat)
    then show ?thesis
      using o lt g grown(5,6) by (auto simp: arena_inv_def grown(7) grown_arena_def)
  qed
qed

section \<open>Properties\<close>

text \<open>
  The steps of a process that is not being restored.  Every answer of the host is
  one the host can give: the memory it maps is not mapped already.
\<close>

inductive arena_step :: "arena \<Rightarrow> arena \<Rightarrow> bool" where
  alloc: "arena_alloc fd ok (Some p) n a = Some (q, off, a') \<Longrightarrow>
    fresh_at p (nroundup n ARENA_GRANULE) a \<Longrightarrow> arena_step a a'"
| free: "arena_step a (arena_free off n a)"
| unmap: "arena_step a (arena_unmap addr n a)"
| extend: "arena_extend ok mapped off old new h a = (r, a') \<Longrightarrow>
    owns_range off (nroundup old ARENA_GRANULE) h a \<Longrightarrow>
    (\<And>p. mapped = Some p \<Longrightarrow> fresh_at p (nroundup new ARENA_GRANULE - nroundup old ARENA_GRANULE) a) \<Longrightarrow>
    arena_step a a'"

inductive arena_reach :: "arena \<Rightarrow> bool" where
  start: "arena_reach arena_start"
| adopted: "ARENA_GRANULE dvd st_size \<Longrightarrow> fd \<ge> 0 \<Longrightarrow> arena_reach (arena_adopt fd st_size arena_start)"
| step: "arena_reach a \<Longrightarrow> arena_step a a' \<Longrightarrow> arena_reach a'"

lemma arena_step_inv: "arena_step a a' \<Longrightarrow> arena_inv a \<Longrightarrow> arena_inv a'"
proof (induction rule: arena_step.induct)
  case (alloc fd ok p n a q off a')
  then show ?case using arena_alloc_inv by blast
next
  case (extend ok mapped off old new h a r a')
  then show ?case using arena_extend_inv [OF extend(4,2) extend(3) extend(1)] by blast
qed (simp_all add: arena_free_inv arena_unmap_inv)

lemma arena_reach_inv: "arena_reach a \<Longrightarrow> arena_inv a"
proof (induction rule: arena_reach.induct)
  case (step a a')
  then show ?case by (blast intro: arena_step_inv)
qed (simp_all add: arena_start_def arena_adopt_def arena_inv_def one_to_one_def)

definition one_chunk :: arena where
  "one_chunk = \<lparr> arena_backing_fd = 3, arena_brk = 0xc000, arena_capacity = 0x400000,
     arena_spans = [\<lparr> sp_addr = 0x10000, sp_size = 0xc000, sp_off = 0, sp_priv = False \<rparr>] \<rparr>"

text \<open>
  C14: Forgetting a range of the arena removes from the table of spans exactly the
  offsets of that range: every other offset keeps its address, on both sides of a
  hole, and the spans that are moved in the table to fill the gaps lose nothing.
\<close>

theorem arena_forget_exact:
  "table (arena_span_forget off n spans) = {t \<in> table spans. \<not> (off \<le> fst t \<and> fst t < off + n)}"
  by (simp add: forget_table keep_outside_def)



text \<open>
  C18: An allocation in a reachable arena answers with a block-aligned offset range
  that was not in use, above every offset in use, and leaves every earlier offset
  where it was.
\<close>

theorem arena_alloc_disjoint:
  assumes "arena_reach a" "arena_alloc fd ok (Some p) n a = Some (q, off, a')"
    "fresh_at p (nroundup n ARENA_GRANULE) a" "arena_backing_fd a \<ge> 0"
  shows "q = p \<and> ARENA_GRANULE dvd off \<and> off = arena_brk a
    \<and> (\<forall>k<nroundup n ARENA_GRANULE. arena_hva_of (off + k) (arena_spans a) = None
         \<and> arena_hva_of (off + k) (arena_spans a') = Some (p + k))
    \<and> (\<forall>x y. arena_hva_of x (arena_spans a) = Some y \<longrightarrow> arena_hva_of x (arena_spans a') = Some y)"
proof -
  let ?n = "nroundup n ARENA_GRANULE"
  have inv: "arena_inv a" using assms(1) by (rule arena_reach_inv)
  note m = arena_alloc_inv [OF inv assms(2,3)]
  have t: "table (arena_spans a') = table (arena_spans a) \<union> {(off + k, p + k, False) | k. k < ?n}"
    and inv': "arena_inv a'" using m by blast+
  have off: "off = arena_brk a"
    using assms(2,4) by (auto simp: arena_alloc_def Let_def split: option.splits)
  have o: "one_to_one (table (arena_spans a))" "one_to_one (table (arena_spans a'))"
    using inv inv' by (simp_all add: arena_inv_def)
  have "arena_hva_of (off + k) (arena_spans a) = None" for k
  proof (rule ccontr)
    assume "arena_hva_of (off + k) (arena_spans a) \<noteq> None"
    then obtain y q where "(off + k, y, q) \<in> table (arena_spans a)"
      using hva_of_table by blast
    then show False using inv off by (auto simp: arena_inv_def)
  qed
  moreover have "arena_hva_of (off + k) (arena_spans a') = Some (p + k)" if "k < ?n" for k
    using that by (subst hva_of_iff [OF o(2)]) (auto simp: t)
  moreover have "arena_hva_of x (arena_spans a') = Some y" if "arena_hva_of x (arena_spans a) = Some y" for x y
    using that unfolding hva_of_iff [OF o(1)] hva_of_iff [OF o(2)] t by blast
  ultimately show ?thesis
    using m off by simp
qed

theorem arena_alloc_disjoint_witness:
  "\<exists>a a'. arena_reach a \<and> arena_backing_fd a \<ge> 0 \<and> fresh_at 0x50000 0x4000 a
     \<and> arena_alloc 3 True (Some 0x50000) 0x1000 a = Some (0x50000, 0x4000, a')
     \<and> arena_hva_of 0x4001 (arena_spans a') = Some 0x50001"
proof -
  let ?s = "\<lparr> sp_addr = 0x10000, sp_size = 0x4000, sp_off = 0, sp_priv = False \<rparr>"
  let ?t = "\<lparr> sp_addr = 0x50000, sp_size = 0x4000, sp_off = 0x4000, sp_priv = False \<rparr>"
  define a where "a = arena_start\<lparr> arena_backing_fd := 3, arena_brk := 0x4000, arena_capacity := 0x400000,
    arena_spans := [?s] \<rparr>"
  define a' where "a' = a\<lparr> arena_brk := 0x8000, arena_spans := [?s, ?t] \<rparr>"
  have "arena_alloc 3 True (Some 0x10000) 0x1000 arena_start = Some (0x10000, 0, a)"
    by (simp add: a_def arena_start_def arena_alloc_def arena_init_def arena_grow_def nroundup_def
        arena_span_record_def)
  then have r: "arena_reach a"
    by (intro arena_reach.step [OF arena_reach.start] arena_step.alloc)
       (auto simp: fresh_at_def arena_start_def)
  have al: "arena_alloc 3 True (Some 0x50000) 0x1000 a = Some (0x50000, 0x4000, a')"
    by (simp add: a_def a'_def arena_start_def arena_alloc_def arena_grow_def nroundup_def arena_span_record_def)
  have fr: "fresh_at 0x50000 (nroundup 0x1000 ARENA_GRANULE) a"
    by (auto simp: fresh_at_def a_def span_rel_def nroundup_def)
  have fd: "arena_backing_fd a \<ge> 0" by (simp add: a_def)
  have "\<forall>k<0x4000. arena_hva_of (0x4000 + k) (arena_spans a') = Some (0x50000 + k)"
    using arena_alloc_disjoint [OF r al fr fd] by (simp add: nroundup_def)
  from this [rule_format, of 1] have "arena_hva_of (0x4000 + 1) (arena_spans a') = Some (0x50000 + 1)"
    by simp
  then have "arena_hva_of 0x4001 (arena_spans a') = Some 0x50001" by simp
  moreover have "fresh_at 0x50000 0x4000 a" using fr by (simp add: nroundup_def)
  ultimately show ?thesis using r fd al by blast
qed

text \<open>
  What a fresh private view of the file shows: the byte of the snapshot at the
  offset the address stands for.
\<close>

definition private_bytes :: "(nat \<Rightarrow> u8) \<Rightarrow> arena_span list \<Rightarrow> nat \<Rightarrow> u8 option" where
  "private_bytes content spans y = map_option content (arena_offset_of y spans)"

text \<open>Maps every request above everything mapped, so a request never lands on a live view.\<close>

definition mmap_above :: "arena_span list \<Rightarrow> nat \<Rightarrow> nat \<Rightarrow> nat option" where
  "mmap_above spans n off = Some (0x100000 + foldr (\<lambda>s m. max (sp_addr s + sp_size s) m) spans 0)"

lemma foldr_max_bound:
  "(x, y, q) \<in> table spans \<Longrightarrow> y < foldr (\<lambda>s m. max (sp_addr s + sp_size s) m) spans (0::nat)"
  by (induction spans) (auto simp: span_rel_iff sp_end_def less_max_iff_disj)

lemma mmap_above_fresh: "mmap_fresh mmap_above"
  by (auto simp: mmap_fresh_def mmap_above_def dest!: foldr_max_bound)

text \<open>
  C4: A fork carries memory across.  The parent writes a snapshot of its arena; the
  child, which has only the file, maps the ranges it needs one after the other -
  each possibly merging with and moving earlier ones - and looks each start up
  again afterwards.  Every range it asked for and the parent had is then contiguous
  in the child and holds the parent's bytes.
\<close>

theorem fork_carries_memory:
  assumes "arena_reach parent" "mmap_fresh mmap_at" "\<forall>(off, n)\<in>set reqs. 0 < n"
    and "restore_views mmap_at reqs (arena_adopt fd st_size arena_start) = Some (starts, child)" "fd \<ge> 0"
    and "i < length reqs" "reqs ! i = (off, n)"
    and "\<forall>k<n. arena_hva_of (off + k) (arena_spans parent) = Some (y + k)"
  shows "\<exists>z. starts ! i = Some z \<and>
    (\<forall>k<n. private_bytes (arena_snapshot memory parent) (arena_spans child) (z + k) = Some (memory (y + k)))"
proof -
  have mv: "map_views mmap_at reqs (arena_adopt fd st_size arena_start) = Some child"
    and st: "starts = map (\<lambda>(off, sz). arena_hva_of off (arena_spans child)) reqs"
    using assms(4) by (auto simp: restore_views_def split: option.splits)
  have "restore_inv (arena_adopt fd st_size arena_start)"
    using assms(5) by (simp add: restore_inv_def arena_adopt_def arena_start_def one_to_one_def private_apart_def)
  note m = map_views_ok [OF this assms(2,3) mv]
  have c: "covered (arena_spans child) off n" and n: "0 < n"
    using m assms(3,6,7) nth_mem [OF assms(6)] by auto
  have o: "one_to_one (table (arena_spans child))" "one_to_one (table (arena_spans parent))"
    using m arena_reach_inv [OF assms(1)] by (auto simp: restore_inv_def arena_inv_def)
  obtain z where z: "\<forall>k<n. arena_hva_of (off + k) (arena_spans child) = Some (z + k)"
    using covered_views [OF o(1) c] by blast
  have "starts ! i = Some z"
    using z n assms(6,7) by (auto simp: st)
  moreover have "private_bytes (arena_snapshot memory parent) (arena_spans child) (z + k) = Some (memory (y + k))"
    if kn: "k < n" for k
  proof -
    have "arena_offset_of (z + k) (arena_spans child) = Some (off + k)"
      using z kn hva_of_iff [OF o(1)] offset_of_iff [OF o(1)] by auto
    moreover obtain p where "(off + k, y + k, p) \<in> table (arena_spans parent)"
      using assms(8) [rule_format, OF kn] unfolding hva_of_iff [OF o(2)] by blast
    then have "arena_snapshot memory parent (off + k) = memory (y + k)"
      using fold_write_inside [OF o(2)] by (simp add: arena_snapshot_def)
    ultimately show ?thesis by (simp add: private_bytes_def)
  qed
  ultimately show ?thesis by blast
qed

theorem fork_carries_memory_witness:
  "\<exists>parent child z. arena_reach parent \<and>
     restore_views mmap_above [(0x1000, 0x1000), (0x3000, 0x2000)] (arena_adopt 5 0x8000 arena_start)
       = Some ([Some 0x101000, Some 0x103000], child) \<and>
     z = (0x101000 :: nat) \<and>
     private_bytes (arena_snapshot (\<lambda>y. of_nat y) parent) (arena_spans child) (z + 5) = Some (of_nat 0x11005)"
proof -
  let ?s = "\<lparr> sp_addr = 0x10000, sp_size = 0x8000, sp_off = 0, sp_priv = False \<rparr>"
  let ?t = "\<lparr> sp_addr = 0x100000, sp_size = 0x8000, sp_off = 0, sp_priv = True \<rparr>"
  let ?reqs = "[(0x1000, 0x1000), (0x3000, 0x2000)] :: (nat \<times> nat) list"
  define a where "a = arena_start\<lparr> arena_backing_fd := 3, arena_brk := 0x8000, arena_capacity := 0x400000,
    arena_spans := [?s] \<rparr>"
  define c where "c = (arena_adopt 5 0x8000 arena_start)\<lparr> arena_spans := [?t] \<rparr>"
  have "arena_alloc 3 True (Some 0x10000) 0x8000 arena_start = Some (0x10000, 0, a)"
    by (simp add: a_def arena_start_def arena_alloc_def arena_init_def arena_grow_def nroundup_def
        arena_span_record_def)
  then have r: "arena_reach a"
    by (intro arena_reach.step [OF arena_reach.start] arena_step.alloc)
       (auto simp: fresh_at_def arena_start_def)
  have v: "restore_views mmap_above ?reqs (arena_adopt 5 0x8000 arena_start)
      = Some ([Some 0x101000, Some 0x103000], c)"
    by (simp add: c_def arena_adopt_def arena_start_def restore_views_def arena_map_private_def nroundup_def
        mmap_above_def widen_private.simps arena_span_record_def sp_end_def apart_def)
  have h: "\<forall>k<0x1000. arena_hva_of (0x1000 + k) (arena_spans a) = Some (0x11000 + k)"
    by (simp add: a_def sp_end_def)
  have "\<exists>z. [Some 0x101000, Some (0x103000::nat)] ! 0 = Some z \<and>
    (\<forall>k<0x1000. private_bytes (arena_snapshot (\<lambda>y. of_nat y) a) (arena_spans c) (z + k)
       = Some (of_nat (0x11000 + k)))"
    by (rule fork_carries_memory [OF r mmap_above_fresh _ v _ _ _ h]) simp_all
  then have "\<forall>k<0x1000. private_bytes (arena_snapshot (\<lambda>y. of_nat y) a) (arena_spans c) (0x101000 + k)
       = Some (of_nat (0x11000 + k))"
    by simp
  from this [rule_format, of 5] show ?thesis using r v by auto
qed

end
