(* ===== verification/Mmap.thy ===== *)
theory Mmap
  imports Mm_Region Arena "HOL-Library.Monad_Syntax"
begin

text \<open>
  Changing a guest's address space (\<^verbatim>\<open>src/mm/mmap.c\<close>, the arm64 build): the system
  calls mmap, munmap and mseal over the region table of \<^verbatim>\<open>Mm_Region\<close> and the arena of
  \<^verbatim>\<open>Arena\<close>.

  The state is the region table, the arena and the list of calls made on the
  hypervisor and the host so far, oldest first.  What the host answers is an
  argument.  As in \<^verbatim>\<open>Mm_Region\<close>, \<^term>\<open>None\<close> is the end of the process: a failed
  \<^verbatim>\<open>assert\<close>, a \<^verbatim>\<open>panic\<close>, \<^verbatim>\<open>exit\<close> or a NULL dereference.  The address-space lock is
  held around every system call here, so each call is one step.
\<close>

section \<open>State\<close>

datatype host_op =
    Vmm_mmap gaddr u64 u32 u64
  | Vmm_munmap gaddr u64
  | Vmm_protect gaddr u64 u32
  | Vmm_sync_guest_code gaddr u64
  | Host_munmap u64 u64
  | Host_close int
  | Host_pread int u64 u64 int
  | Host_memcpy u64 u64 u64

record vm =
  vm_mm :: mm
  vm_arena :: arena
  vm_ops :: "host_op list"

definition emit :: "host_op \<Rightarrow> vm \<Rightarrow> vm" where
  "emit op st = st\<lparr> vm_ops := vm_ops st @ [op] \<rparr>"

definition region_at :: "vm \<Rightarrow> nat \<Rightarrow> mm_region" where
  "region_at st i = mm_store (vm_mm st) i"

text \<open>A region changed in place.\<close>

definition upd_region :: "nat \<Rightarrow> (mm_region \<Rightarrow> mm_region) \<Rightarrow> mm \<Rightarrow> mm" where
  "upd_region i f mm = mm\<lparr> mm_store := (mm_store mm)(i := f (mm_store mm i)) \<rparr>"

text \<open>
  The host's answers.  A descriptor or a flag word is negative when the call
  fails; an error is given as the Linux error \<^verbatim>\<open>darwin_to_linux_errno\<close> makes of it.
\<close>

record mmap_io =
  io_host :: host
  io_mkstemp :: int
  io_ftruncate :: bool
  io_map_arena :: "nat option"
  io_getfl :: "int \<Rightarrow> int"
  io_getpath :: "int \<Rightarrow> bool"
  io_open_rw :: "int \<Rightarrow> int"
  io_same_file :: "int \<Rightarrow> int \<Rightarrow> bool"
  io_map_shared :: "u64 res"
  io_pread :: "errno option"
  io_binder_is :: "int \<Rightarrow> bool"
  io_binder_mmap :: "errno option"

section \<open>Protection bits\<close>

text \<open>\<^verbatim>\<open>HV_MEMORY_READ\<close>, \<^verbatim>\<open>HV_MEMORY_WRITE\<close> and \<^verbatim>\<open>HV_MEMORY_EXEC\<close> of the Hypervisor framework.\<close>

abbreviation (input) HV_MEMORY_READ :: u32 where "HV_MEMORY_READ \<equiv> 1"
abbreviation (input) HV_MEMORY_WRITE :: u32 where "HV_MEMORY_WRITE \<equiv> 2"
abbreviation (input) HV_MEMORY_EXEC :: u32 where "HV_MEMORY_EXEC \<equiv> 4"

definition bit_if :: "bool \<Rightarrow> u32 \<Rightarrow> u32" where
  "bit_if b m = (if b then m else 0)"

definition hv_mflag_to_linux_mprot :: "u32 \<Rightarrow> u32" where
  "hv_mflag_to_linux_mprot mflag =
     bit_if (mflag AND HV_MEMORY_READ \<noteq> 0) LINUX_PROT_READ
     OR bit_if (mflag AND HV_MEMORY_WRITE \<noteq> 0) LINUX_PROT_WRITE
     OR bit_if (mflag AND HV_MEMORY_EXEC \<noteq> 0) LINUX_PROT_EXEC"

definition linux_mprot_to_hv_mflag :: "u32 \<Rightarrow> u32" where
  "linux_mprot_to_hv_mflag mprot =
     bit_if (mprot AND LINUX_PROT_READ \<noteq> 0) HV_MEMORY_READ
     OR bit_if (mprot AND LINUX_PROT_WRITE \<noteq> 0) HV_MEMORY_WRITE
     OR bit_if (mprot AND LINUX_PROT_EXEC \<noteq> 0) HV_MEMORY_EXEC"

section \<open>Unmapping\<close>

definition init_mmap :: "mm \<Rightarrow> mm" where
  "init_mmap mm = mm\<lparr> current_mmap_top := 0x00000000c0000000 \<rparr>"

definition alloc_region :: "u64 \<Rightarrow> mm \<Rightarrow> gaddr \<times> mm" where
  "alloc_region len mm =
     (let len = roundup len GUEST_MMAP_GRANULE;
          top = current_mmap_top mm + len
      in (top - len, mm\<lparr> current_mmap_top := top \<rparr>))"

text \<open>
  The walk back over the entries before a region, nearest first, to the earliest
  one that still overlaps.
\<close>

fun walk_back :: "(nat \<Rightarrow> int) \<Rightarrow> nat \<Rightarrow> nat list \<Rightarrow> nat" where
  "walk_back f i [] = i"
| "walk_back f i (p # ps) = (if f p \<noteq> 0 then i else walk_back f p ps)"

definition first_overlap :: "gaddr \<Rightarrow> u64 \<Rightarrow> nat \<Rightarrow> mm \<Rightarrow> nat" where
  "first_overlap a s i mm =
     walk_back (cmp_in mm (probe a s)) i (rev (takeWhile (\<lambda>j. j \<noteq> i) (mm_regions mm)))"

text \<open>Cut a region down to the part of it between \<open>a\<close> and \<open>e\<close>; the answer is that part.\<close>

definition isolate :: "host \<Rightarrow> gaddr \<Rightarrow> gaddr \<Rightarrow> nat \<Rightarrow> mm \<Rightarrow> (mm \<times> nat) option" where
  "isolate h a e i mm =
     do { (mm, i) \<leftarrow> (if gaddr (mm_store mm i) < a
                      then do { mm \<leftarrow> split_region h mm i a;
                                j \<leftarrow> list_next i (mm_regions mm);
                                Some (mm, j) }
                      else Some (mm, i));
          mm \<leftarrow> (if gaddr (mm_store mm i) + msize (mm_store mm i) > e
                 then split_region h mm i e
                 else Some mm);
          Some (mm, i) }"

definition delete_region :: "mm \<Rightarrow> nat \<Rightarrow> mm option" where
  "delete_region mm i =
     do { tree \<leftarrow> rb_remove i (mm_region_tree mm);
          Some (mm\<lparr> mm_regions := remove1 i (mm_regions mm), mm_region_tree := tree \<rparr>) }"

text \<open>What is given back when a region goes: stage 2, then its memory, then its descriptor.\<close>

definition release_memory :: "mm_region \<Rightarrow> vm \<Rightarrow> vm" where
  "release_memory r st =
     (if arena_off r < 0
      then if haddr r mod HOST_BLOCK_GRANULE = 0 \<and> msize r mod HOST_BLOCK_GRANULE = 0
           then emit (Host_munmap (haddr r) (msize r)) st
           else st
      else if arena_off r mod 0x4000 = 0 \<and> msize r mod HOST_BLOCK_GRANULE = 0
           then (emit (Host_munmap (haddr r) (msize r)) st)
                  \<lparr> vm_arena := arena_free (nat (arena_off r)) (unat (msize r)) (vm_arena st) \<rparr>
           else st)"

definition release_region :: "mm_region \<Rightarrow> vm \<Rightarrow> vm" where
  "release_region r st =
     (let st = (if reserved r then st
                else release_memory r (emit (Vmm_munmap (gaddr r) (msize r)) st))
      in if owns_fd r \<and> mm_fd r \<ge> 0 then emit (Host_close (mm_fd r)) st else st)"

partial_function (option) unmap_loop :: "host \<Rightarrow> gaddr \<Rightarrow> u64 \<Rightarrow> nat \<Rightarrow> vm \<Rightarrow> vm option" where
  "unmap_loop h a s i st =
     (if region_compare (probe a s) (region_at st i) = 0
      then do { (mm, j) \<leftarrow> isolate h a (a + s) i (vm_mm st);
                mm' \<leftarrow> delete_region mm j;
                let st' = release_region (mm_store mm j) (st\<lparr> vm_mm := mm' \<rparr>);
                (case list_next j (mm_regions mm) of
                   None \<Rightarrow> Some st'
                 | Some n \<Rightarrow> unmap_loop h a s n st') }
      else Some st)"

definition do_munmap :: "host \<Rightarrow> gaddr \<Rightarrow> u64 \<Rightarrow> vm \<Rightarrow> (unit res \<times> vm) option" where
  "do_munmap h a len st =
     (if \<not> is_page_aligned a then Some (Inl LINUX_EINVAL, st)
      else
        let s = roundup len GUEST_MMAP_GRANULE
        in case find_region_range a s (vm_mm st) of
             None \<Rightarrow> Some (Inl LINUX_ENOMEM, st)
           | Some i \<Rightarrow>
               do { st \<leftarrow> unmap_loop h a s (first_overlap a s i (vm_mm st)) st;
                    Some (Inr (), st) })"

definition seals :: "mm_region \<Rightarrow> gaddr \<Rightarrow> u64 \<Rightarrow> bool" where
  "seals r a s \<longleftrightarrow> sealed r \<and> gaddr r < a + s \<and> a < gaddr r + msize r"

definition range_is_sealed :: "gaddr \<Rightarrow> u64 \<Rightarrow> mm \<Rightarrow> bool" where
  "range_is_sealed a s mm \<longleftrightarrow> list_ex (\<lambda>i. seals (mm_store mm i) a s) (mm_regions mm)"

definition sys_munmap :: "host \<Rightarrow> gaddr \<Rightarrow> u64 \<Rightarrow> vm \<Rightarrow> (unit res \<times> vm) option" where
  "sys_munmap h a len st =
     (if len > 0 \<and> range_is_sealed a (roundup len GUEST_MMAP_GRANULE) (vm_mm st)
      then Some (Inl LINUX_EPERM, st)
      else do_munmap h a len st)"

section \<open>Mapping\<close>

abbreviation (input) LINUX_MMAP_MIN_ADDR :: gaddr where "LINUX_MMAP_MIN_ADDR \<equiv> 0x10000"

text \<open>
  The flags that are dropped (MAP_DENYWRITE, MAP_EXECUTABLE, MAP_NORESERVE,
  MAP_POPULATE, MAP_STACK), and those that may be left (MAP_SHARED, MAP_PRIVATE,
  MAP_FIXED, MAP_ANON, MAP_HUGETLB).
\<close>

definition mmap_ignored :: u32 where
  "mmap_ignored = 0x0800 OR 0x1000 OR 0x4000 OR 0x8000 OR 0x20000"

definition mmap_known :: u32 where
  "mmap_known = LINUX_MAP_SHARED OR LINUX_MAP_PRIVATE OR LINUX_MAP_FIXED OR LINUX_MAP_ANON OR 0x40000"

record mmap_req =
  q_addr :: gaddr
  q_len :: u64
  q_prot :: u32
  q_flags :: u32
  q_fd :: int
  q_off :: int

text \<open>
  The arguments as the body uses them: flags dropped, the length rounded, and a
  mapping of the binder device turned into an anonymous one.
\<close>

definition mmap_args :: "mmap_io \<Rightarrow> mmap_req \<Rightarrow> mmap_req" where
  "mmap_args io q =
     (let fl = q_flags q AND NOT mmap_ignored;
          q = q\<lparr> q_flags := fl, q_len := roundup (q_len q) GUEST_MMAP_GRANULE \<rparr>;
          q = (if q_fd q \<ge> 0 \<and> io_binder_is io (q_fd q)
               then q\<lparr> q_fd := -1, q_off := 0,
                       q_flags := (fl AND NOT LINUX_MAP_SHARED) OR LINUX_MAP_PRIVATE OR LINUX_MAP_ANON,
                       q_prot := q_prot q OR LINUX_PROT_READ OR LINUX_PROT_WRITE \<rparr>
               else q)
      in if q_flags q AND LINUX_MAP_ANON \<noteq> 0 then q\<lparr> q_fd := -1, q_off := 0 \<rparr> else q)"

text \<open>Where the mapping goes: a fixed address, a hint that is free, or the next free address.\<close>

definition mmap_place :: "mmap_req \<Rightarrow> mm \<Rightarrow> gaddr \<times> mm" where
  "mmap_place q mm =
     (if q_flags q AND LINUX_MAP_FIXED = 0
      then if q_addr q \<ge> LINUX_MMAP_MIN_ADDR \<and> q_addr q + q_len q > q_addr q \<and>
              find_region_range (q_addr q) (q_len q) mm = None
           then (q_addr q, mm)
           else alloc_region (q_len q) mm
      else (q_addr q, mm))"

definition reserve_only :: "mmap_req \<Rightarrow> bool" where
  "reserve_only q \<longleftrightarrow> q_prot q = LINUX_PROT_NONE \<and> q_fd q < 0 \<and> q_flags q AND LINUX_MAP_SHARED = 0"

definition fd_writable :: "mmap_io \<Rightarrow> int \<Rightarrow> bool" where
  "fd_writable io fd \<longleftrightarrow>
     fd \<ge> 0 \<and> io_getfl io fd \<ge> 0 \<and> (io_getfl io fd AND 3 = 2 \<or> io_getfl io fd AND 3 = 1)"

definition wants_shared :: "mmap_req \<Rightarrow> bool" where
  "wants_shared q \<longleftrightarrow>
     q_fd q \<ge> 0 \<and> q_flags q AND LINUX_MAP_SHARED \<noteq> 0 \<and> q_off q AND 0xfff = 0 \<and>
     q_prot q AND LINUX_PROT_EXEC = 0"

text \<open>
  The writable descriptor of the same file behind a read-only one, or -1, and the
  closing of a candidate that turned out to be another file.
\<close>

definition reopen :: "mmap_io \<Rightarrow> mmap_req \<Rightarrow> vm \<Rightarrow> int \<times> vm" where
  "reopen io q st =
     (let cand = io_open_rw io (q_fd q)
      in if wants_shared q \<and> \<not> fd_writable io (q_fd q) \<and> io_getpath io (q_fd q) \<and> cand \<ge> 0
         then if io_same_file io (q_fd q) cand then (cand, st) else (-1, emit (Host_close cand) st)
         else (-1, st))"

definition close_if :: "int \<Rightarrow> vm \<Rightarrow> vm" where
  "close_if fd st = (if fd \<ge> 0 then emit (Host_close fd) st else st)"

text \<open>
  The memory behind the mapping: its host address, its arena offset or -1, and the
  descriptor the region will own or -1.
\<close>

definition mmap_backing :: "mmap_io \<Rightarrow> mmap_req \<Rightarrow> vm \<Rightarrow> ((u64 \<times> int \<times> int) res \<times> vm) option" where
  "mmap_backing io q st =
     (let (reopened, st) = reopen io q st
      in if reserve_only q then Some (Inr (0, -1, -1), st)
         else if wants_shared q \<and> (fd_writable io (q_fd q) \<or> reopened \<ge> 0)
         then (case io_map_shared io of
                 Inl e \<Rightarrow> Some (Inl e, close_if reopened st)
               | Inr p \<Rightarrow> Some (Inr (p, -1, if reopened \<ge> 0 then reopened else h_dup (io_host io) (q_fd q)), st))
         else
           let st = close_if reopened st
           in do { (p, off, a) \<leftarrow> arena_alloc (io_mkstemp io) (io_ftruncate io) (io_map_arena io)
                                    (unat (q_len q)) (vm_arena st);
                   let st = st\<lparr> vm_arena := a \<rparr>;
                   if q_fd q < 0 then Some (Inr (of_nat p, int off, -1), st)
                   else
                     let st = emit (Host_pread (q_fd q) (of_nat p) (q_len q) (q_off q)) st
                     in case io_pread io of
                          None \<Rightarrow> Some (Inr (of_nat p, int off, -1), st)
                        | Some e \<Rightarrow>
                            Some (Inl e, st\<lparr> vm_arena := arena_free off (unat (q_len q))
                                              (arena_unmap p (unat (q_len q)) a) \<rparr>) })"

text \<open>Stage 2 learns of the memory, and of code that came from a file.\<close>

definition mmap_announce :: "mmap_req \<Rightarrow> gaddr \<Rightarrow> u64 \<Rightarrow> vm \<Rightarrow> vm" where
  "mmap_announce q addr p st =
     (let st = (if reserve_only q then st
                else emit (Vmm_mmap addr (q_len q) (linux_mprot_to_hv_mflag (q_prot q)) p) st)
      in if q_fd q \<ge> 0 then emit (Vmm_sync_guest_code addr (q_len q)) st else st)"

definition do_mmap :: "mmap_io \<Rightarrow> mmap_req \<Rightarrow> vm \<Rightarrow> (gaddr res \<times> vm) option" where
  "do_mmap io q0 st =
     (if q_addr q0 AND 0xfff \<noteq> 0 then None
      else
        let q = mmap_args io q0
        in if q_flags q AND NOT mmap_known \<noteq> 0 then None
           else
             let (addr, mm) = mmap_place q (vm_mm st);
                 st = st\<lparr> vm_mm := mm \<rparr>
             in do { (backing, st) \<leftarrow> mmap_backing io q st;
                     case backing of
                       Inl e \<Rightarrow> Some (Inl e, st)
                     | Inr (p, off, owned) \<Rightarrow>
                         do { (r, st) \<leftarrow> do_munmap (io_host io) addr (q_len q) st;
                              (mm, i) \<leftarrow> record_region (vm_mm st) p addr (q_len q) (q_prot q) (q_flags q)
                                           (if owned \<ge> 0 then owned else q_fd q) (q_off q);
                              let st = st\<lparr> vm_mm := upd_region i (\<lambda>r. r\<lparr> arena_off := off, owns_fd := owned \<ge> 0,
                                                                     reserved := reserve_only q \<rparr>) mm \<rparr>;
                              let st = mmap_announce q addr p st;
                              Some (if q_fd q0 \<ge> 0 \<and> io_binder_is io (q_fd q0)
                                    then (case io_binder_mmap io of Some e \<Rightarrow> Inl e | None \<Rightarrow> Inr addr)
                                    else Inr addr, st) } })"

definition sys_mmap :: "mmap_io \<Rightarrow> mmap_req \<Rightarrow> vm \<Rightarrow> (gaddr res \<times> vm) option" where
  "sys_mmap io q st =
     (if q_len q = 0 then Some (Inl LINUX_EINVAL, st)
      else if q_flags q AND LINUX_MAP_FIXED \<noteq> 0 \<and>
              range_is_sealed (q_addr q) (roundup (q_len q) GUEST_MMAP_GRANULE) (vm_mm st)
      then Some (Inl LINUX_EPERM, st)
      else do_mmap io q st)"

section \<open>What unmapping does to the view\<close>

text \<open>
  The offset of a split is kept in 32 signed bits, so a region must not be longer
  than two gigabytes to be split anywhere.
\<close>

definition small_region :: "mm_region \<Rightarrow> bool" where
  "small_region r \<longleftrightarrow> rhi r - rlo r \<le> 2 ^ 31"

definition small_regions :: "mm \<Rightarrow> bool" where
  "small_regions mm \<longleftrightarrow> (\<forall>i\<in>set (mm_regions mm). small_region (mm_store mm i))"

definition without :: "nat \<Rightarrow> nat \<Rightarrow> (gaddr \<Rightarrow> 'a option) \<Rightarrow> gaddr \<Rightarrow> 'a option" where
  "without lo hi v = (\<lambda>b. if lo \<le> unat b \<and> unat b < hi then None else v b)"

text \<open>A step of the table that leaves the guest's view alone.\<close>

definition same_view :: "mm \<Rightarrow> mm \<Rightarrow> bool" where
  "same_view mm mm' \<longleftrightarrow> mm_inv mm' \<and> view mm' = view mm \<and> same_brk mm mm'
     \<and> (small_regions mm \<longrightarrow> small_regions mm')"

lemma same_view_refl: "mm_inv mm \<Longrightarrow> same_view mm mm"
  by (simp add: same_view_def same_brk_def)

lemma same_view_trans: "same_view a b \<Longrightarrow> same_view b c \<Longrightarrow> same_view a c"
  by (auto simp: same_view_def same_brk_def)

lemma split_step:
  assumes inv: "mm_inv mm" and regs: "mm_regions mm = xs @ i # ys" and al: "is_page_aligned a"
    and in1: "rlo (mm_store mm i) < unat a" and in2: "unat a < rhi (mm_store mm i)"
    and small: "small_region (mm_store mm i)"
  shows "\<exists>mm' t. split_region h mm i a = Some mm' \<and> same_view mm mm' \<and> mm_regions mm' = xs @ i # t # ys
    \<and> (\<forall>j\<in>set xs \<union> set ys. mm_store mm' j = mm_store mm j)
    \<and> rlo (mm_store mm' i) = rlo (mm_store mm i) \<and> rhi (mm_store mm' i) = unat a
    \<and> rlo (mm_store mm' t) = unat a \<and> rhi (mm_store mm' t) = rhi (mm_store mm i)"
proof -
  let ?r = "mm_store mm i" and ?t = "mm_next mm"
  have i: "i \<in> set (mm_regions mm)" by (simp add: regs)
  have ok: "region_ok ?r" and ti: "?t \<noteq> i"
    using mm_invD(4,5) [OF inv i] by auto
  have s31: "unat a - rlo ?r < 2 ^ 31"
    using small in1 in2 unfolding small_region_def by linarith
  obtain mm' where mm': "split_region h mm i a = Some mm'" "mm_inv mm'" "mm_regions mm' = xs @ i # ?t # ys"
      "mm_store mm' = split_store h mm i a" "same_brk mm mm'"
    using split_region_ok [OF inv regs al in1 in2 s31, of h] by blast
  have v: "view mm' = view mm"
    by (rule split_region_view [OF inv regs al in1 in2 s31 mm'(1)])
  have sto: "mm_store mm' j = mm_store mm j" if "j \<in> set xs \<union> set ys" for j
    using that mm_invD(3,4) [OF inv] regs by (auto simp: mm'(4) split_store_def Let_def)
  have stt: "mm_store mm' ?t = split_tail h ?r a" and sti: "mm_store mm' i = ?r\<lparr> msize := a - gaddr ?r \<rparr>"
    using ti by (simp_all add: mm'(4) split_store_def Let_def)
  note ends = split_tail_ends [OF ok in1 in2 s31]
  have e: "rhi (mm_store mm' i) = unat a" "rlo (mm_store mm' i) = rlo ?r"
    "rlo (mm_store mm' ?t) = unat a" "rhi (mm_store mm' ?t) = rhi ?r"
    using ends in1 by (simp_all add: sti stt)
  have "small_region (mm_store mm' i)" "small_region (mm_store mm' ?t)"
    using e in1 in2 small by (simp_all add: small_region_def)
  then have "same_view mm mm'"
    using mm' v sto by (auto simp: same_view_def small_regions_def regs)
  then show ?thesis
    using mm' sto e by blast
qed

lemma list_next_mid: "distinct (xs @ i # ys) \<Longrightarrow> list_next i (xs @ i # ys) = (case ys of [] \<Rightarrow> None | y # _ \<Rightarrow> Some y)"
proof (induction xs)
  case Nil
  then show ?case by (cases ys) auto
next
  case (Cons x xs)
  have "x \<noteq> i" using Cons.prems by auto
  moreover obtain z zs where "xs @ i # ys = z # zs" by (cases "xs @ i # ys") auto
  ultimately show ?case using Cons by simp
qed

text \<open>Where a region lies in the list after \<^term>\<open>isolate\<close>, and where it starts and ends.\<close>

lemma isolate_ok:
  assumes inv: "mm_inv mm" and regs: "mm_regions mm = xs @ i # ys" and sm: "small_region (mm_store mm i)"
    and al: "is_page_aligned a" "is_page_aligned e" and ov: "overlaps (mm_store mm i) (unat a) (unat e)"
    and ae: "unat a < unat e"
  shows "\<exists>mm' j xs' zs. isolate h a e i mm = Some (mm', j) \<and> same_view mm mm'
    \<and> mm_regions mm' = xs' @ j # zs @ ys \<and> length zs \<le> 1
    \<and> (\<forall>k\<in>set xs \<union> set ys. mm_store mm' k = mm_store mm k)
    \<and> (\<forall>x\<in>set xs'. x \<in> set xs \<or> rhi (mm_store mm' x) \<le> unat a)
    \<and> rlo (mm_store mm' j) = max (unat a) (rlo (mm_store mm i))
    \<and> rhi (mm_store mm' j) = min (unat e) (rhi (mm_store mm i))
    \<and> (\<forall>t\<in>set zs. rlo (mm_store mm' t) = unat e)"
proof -
  let ?r = "mm_store mm i"
  have i: "i \<in> set (mm_regions mm)" by (simp add: regs)
  have wf: "region_ok ?r" using mm_invD(5) [OF inv i] .
  obtain mm1 j xs1 where 1: "(if gaddr ?r < a
        then do { mm \<leftarrow> split_region h mm i a; j \<leftarrow> list_next i (mm_regions mm); Some (mm, j) }
        else Some (mm, i)) = Some (mm1, j)"
      "same_view mm mm1" "mm_regions mm1 = xs1 @ j # ys" "\<forall>x\<in>set xs1. x \<in> set xs \<or> rhi (mm_store mm1 x) \<le> unat a"
      "\<forall>k\<in>set xs \<union> set ys. mm_store mm1 k = mm_store mm k"
      "rlo (mm_store mm1 j) = max (unat a) (rlo ?r)" "rhi (mm_store mm1 j) = rhi ?r"
      "small_region (mm_store mm1 j)" "set xs \<subseteq> set xs1"
  proof (cases "gaddr ?r < a")
    case True
    then have lt: "rlo ?r < unat a" by (simp add: rlo_def word_less_nat_alt)
    have lt2: "unat a < rhi ?r" using ov by (simp add: overlaps_def)
    from split_step [OF inv regs al(1) lt lt2 sm, of h] obtain mm1 t where
      s: "split_region h mm i a = Some mm1" "same_view mm mm1" "mm_regions mm1 = xs @ i # t # ys"
        "\<forall>j\<in>set xs \<union> set ys. mm_store mm1 j = mm_store mm j"
        "rlo (mm_store mm1 t) = unat a" "rhi (mm_store mm1 t) = rhi ?r" "rhi (mm_store mm1 i) = unat a"
      by blast
    have d: "distinct (xs @ i # t # ys)"
      using s(2,3) mm_invD(3) [of mm1] by (simp add: same_view_def)
    have "list_next i (mm_regions mm1) = Some t"
      unfolding s(3) list_next_mid [OF d] by simp
    then show ?thesis
      using True s lt sm by (intro that [of mm1 t "xs @ [i]"]) (auto simp: small_region_def)
  next
    case False
    then have "unat a \<le> rlo ?r" by (simp add: rlo_def word_less_nat_alt)
    then show ?thesis
      using False sm regs same_view_refl [OF inv] by (intro that [of mm i xs]) auto
  qed
  have inv1: "mm_inv mm1" using 1(2) by (simp add: same_view_def)
  have wf1: "region_ok (mm_store mm1 j)" using mm_invD(5) [OF inv1, of j] 1(3) by simp
  have end1: "unat (gaddr (mm_store mm1 j) + msize (mm_store mm1 j)) = rhi (mm_store mm1 j)"
    using wf1 by (simp add: rhi_def region_ok_def unat_word_ariths)
  show ?thesis
  proof (cases "gaddr (mm_store mm1 j) + msize (mm_store mm1 j) > e")
    case True
    then have gt: "unat e < rhi (mm_store mm1 j)"
      using end1 by (simp add: word_less_nat_alt)
    have lt: "rlo (mm_store mm1 j) < unat e"
      using ov 1(6) ae by (simp add: overlaps_def)
    from split_step [OF inv1 1(3) al(2) lt gt 1(8), of h] obtain mm2 t where
      s: "split_region h mm1 j e = Some mm2" "same_view mm1 mm2" "mm_regions mm2 = xs1 @ j # t # ys"
        "\<forall>k\<in>set xs1 \<union> set ys. mm_store mm2 k = mm_store mm1 k"
        "rlo (mm_store mm2 j) = rlo (mm_store mm1 j)" "rhi (mm_store mm2 j) = unat e"
        "rlo (mm_store mm2 t) = unat e"
      by blast
    have "isolate h a e i mm = Some (mm2, j)"
      unfolding isolate_def 1(1) using True s(1) by simp
    moreover have "same_view mm mm2" by (rule same_view_trans [OF 1(2) s(2)])
    ultimately show ?thesis
      using s 1 gt by (intro exI [of _ mm2] exI [of _ j]) (rule exI [of _ xs1], rule exI [of _ "[t]"], auto)
  next
    case False
    then have "rhi (mm_store mm1 j) \<le> unat e"
      using end1 by (simp add: word_less_nat_alt)
    moreover have "isolate h a e i mm = Some (mm1, j)"
      unfolding isolate_def 1(1) using False by simp
    ultimately show ?thesis
      using 1 by (intro exI [of _ mm1] exI [of _ j]) (rule exI [of _ xs1], rule exI [of _ "[]"], auto)
  qed
qed

lemma delete_region_ok:
  assumes inv: "mm_inv mm" and regs: "mm_regions mm = xs @ i # ys"
  shows "\<exists>mm'. delete_region mm i = Some mm' \<and> mm_inv mm' \<and> mm_regions mm' = xs @ ys
    \<and> mm_store mm' = mm_store mm \<and> same_brk mm mm'
    \<and> view mm' = without (rlo (mm_store mm i)) (rhi (mm_store mm i)) (view mm)"
proof -
  have old: "in_order (mm_store mm) (xs @ i # ys)" and d: "distinct (xs @ i # ys)"
    using inv regs by (simp_all add: mm_inv_alt in_order_def)
  obtain tree where tree: "rb_remove i (mm_region_tree mm) = Some tree" "rb_inv tree" "inorder tree = xs @ ys"
    using rb.del_between [of "mm_region_tree mm" xs i ys] mm_invD(1,2) [OF inv] regs d by auto
  define mm' where "mm' = mm\<lparr> mm_regions := remove1 i (mm_regions mm), mm_region_tree := tree \<rparr>"
  have del: "delete_region mm i = Some mm'"
    by (simp add: delete_region_def tree(1) mm'_def)
  have regs': "mm_regions mm' = xs @ ys" and sto: "mm_store mm' = mm_store mm"
    using d by (auto simp: mm'_def regs remove1_append)
  have "in_order (mm_store mm) (xs @ ys)"
    using old by (simp add: in_order_simps)
  then have inv': "mm_inv mm'"
    using tree(2,3) regs' mm_invD(4) [OF inv] regs by (auto simp: mm_inv_alt mm'_def)
  have gone: "\<not> in_region (mm_store mm k) b" if "in_region (mm_store mm i) b" "k \<in> set xs \<union> set ys" for k b
    using disjoint_regions [OF inv, of i k b] that d by (auto simp: regs)
  have "view mm' = without (rlo (mm_store mm i)) (rhi (mm_store mm i)) (view mm)"
  proof (rule map_eqI)
    fix b c
    have "view mm' b = Some c \<longleftrightarrow> (\<exists>k\<in>set xs \<union> set ys. in_region (mm_store mm k) b \<and> c = cell_of (mm_store mm k) b)"
      by (simp add: view_Some [OF inv'] regs' sto)
    also have "\<dots> \<longleftrightarrow> \<not> in_region (mm_store mm i) b \<and>
        (\<exists>k\<in>set (mm_regions mm). in_region (mm_store mm k) b \<and> c = cell_of (mm_store mm k) b)"
      using gone [of b] by (auto simp: regs)
    also have "\<dots> \<longleftrightarrow> without (rlo (mm_store mm i)) (rhi (mm_store mm i)) (view mm) b = Some c"
      unfolding view_Some [OF inv, symmetric] by (simp add: without_def in_region_def)
    finally show "view mm' b = Some c \<longleftrightarrow> without (rlo (mm_store mm i)) (rhi (mm_store mm i)) (view mm) b = Some c" .
  qed
  moreover have "same_brk mm mm'" by (simp add: mm'_def same_brk_def)
  ultimately show ?thesis using del inv' regs' sto by blast
qed

section \<open>The region table and the arena together\<close>

text \<open>
  Every address backed by the arena is where the arena's own table says, and no
  two addresses share a byte of the arena.
\<close>

definition backed :: "vm \<Rightarrow> bool" where
  "backed st \<longleftrightarrow>
     (\<forall>b c x. view (vm_mm st) b = Some c \<longrightarrow> c_arena c = Some x \<longrightarrow>
        map_option of_nat (arena_hva_of (nat x) (arena_spans (vm_arena st))) = Some (c_haddr c))"

definition unshared :: "(gaddr \<Rightarrow> cell option) \<Rightarrow> bool" where
  "unshared v \<longleftrightarrow>
     (\<forall>b b' c c' x. v b = Some c \<longrightarrow> v b' = Some c' \<longrightarrow> c_arena c = Some x \<longrightarrow> c_arena c' = Some x \<longrightarrow> b = b')"

definition vm_inv :: "vm \<Rightarrow> bool" where
  "vm_inv st \<longleftrightarrow> mm_inv (vm_mm st) \<and> arena_inv (vm_arena st) \<and> backed st \<and> unshared (view (vm_mm st))"

lemma vm_inv_same_view: "vm_inv st \<Longrightarrow> same_view (vm_mm st) mm' \<Longrightarrow> vm_inv (st\<lparr> vm_mm := mm' \<rparr>)"
  by (simp add: vm_inv_def same_view_def backed_def)

lemma emit_sel [simp]:
  "vm_mm (emit op st) = vm_mm st" "vm_arena (emit op st) = vm_arena st" "vm_ops (emit op st) = vm_ops st @ [op]"
  by (simp_all add: emit_def)

lemma release_mm [simp]: "vm_mm (release_region r st) = vm_mm st"
  by (simp add: release_region_def release_memory_def Let_def)

lemma release_arena:
  "vm_arena (release_region r st) =
     (if \<not> reserved r \<and> \<not> arena_off r < 0 \<and> arena_off r mod 0x4000 = 0 \<and> msize r mod HOST_BLOCK_GRANULE = 0
      then arena_free (nat (arena_off r)) (unat (msize r)) (vm_arena st) else vm_arena st)"
  by (simp add: release_region_def release_memory_def Let_def)

lemma nroundup_exact: "y dvd x \<Longrightarrow> 0 < y \<Longrightarrow> nroundup x y = x"
  by (auto simp: nroundup_def elim!: dvdE intro!: div_nat_eqI)

lemma view_arena_nonneg: "view mm b = Some c \<Longrightarrow> c_arena c = Some x \<Longrightarrow> 0 \<le> x"
  by (auto simp: view_def cell_of_def split: if_splits)

lemma arena_free_outside:
  assumes "arena_inv a" "\<not> (off \<le> x \<and> x < off + nroundup n ARENA_GRANULE)"
  shows "arena_hva_of x (arena_spans (arena_free off n a)) = arena_hva_of x (arena_spans a)"
proof (cases "arena_backing_fd a < 0")
  case False
  have o: "one_to_one (table (arena_spans a))" "one_to_one (table (arena_spans (arena_free off n a)))"
    using assms(1) arena_free_inv [OF assms(1), of off n] by (simp_all add: arena_inv_def)
  have "arena_hva_of x (arena_spans (arena_free off n a)) = Some y \<longleftrightarrow> arena_hva_of x (arena_spans a) = Some y" for y
    unfolding hva_of_iff [OF o(1)] hva_of_iff [OF o(2)] using False assms(2)
    by (simp add: arena_free_def forget_table keep_outside_def)
  then show ?thesis by (cases "arena_hva_of x (arena_spans a)") (metis option.exhaust)+
qed (simp add: arena_free_def)

text \<open>
  \<open>spares st st'\<close>: offsets of the arena that no address of \<open>st\<close> uses are where they
  were, and are still unused.
\<close>

definition unused :: "vm \<Rightarrow> nat \<Rightarrow> bool" where
  "unused st x \<longleftrightarrow> (\<forall>b c. view (vm_mm st) b = Some c \<longrightarrow> c_arena c \<noteq> Some (int x))"

definition spares :: "vm \<Rightarrow> vm \<Rightarrow> bool" where
  "spares st st' \<longleftrightarrow> (\<forall>x. unused st x \<longrightarrow> unused st' x
     \<and> arena_hva_of x (arena_spans (vm_arena st')) = arena_hva_of x (arena_spans (vm_arena st)))"

lemma spares_refl: "spares st st"
  by (simp add: spares_def)

lemma spares_trans: "spares a b \<Longrightarrow> spares b c \<Longrightarrow> spares a c"
  by (simp add: spares_def)

lemma spares_same_view: "same_view (vm_mm st) mm' \<Longrightarrow> spares st (st\<lparr> vm_mm := mm' \<rparr>)"
  by (simp add: spares_def unused_def same_view_def)

text \<open>Releasing a region that has left the table touches no byte that is still mapped.\<close>

lemma release_ok:
  assumes inv: "vm_inv st" and regs: "mm_regions (vm_mm st) = xs @ j # ys"
    and del: "delete_region (vm_mm st) j = Some mm'"
  shows "vm_inv (release_region (region_at st j) (st\<lparr> vm_mm := mm' \<rparr>))"
    "spares st (release_region (region_at st j) (st\<lparr> vm_mm := mm' \<rparr>))"
proof -
  let ?r = "region_at st j" and ?st = "release_region (region_at st j) (st\<lparr> vm_mm := mm' \<rparr>)"
  have mi: "mm_inv (vm_mm st)" and ai: "arena_inv (vm_arena st)" and ba: "backed st"
    and un: "unshared (view (vm_mm st))"
    using inv by (simp_all add: vm_inv_def)
  have mm': "mm_inv mm'" "view mm' = without (rlo ?r) (rhi ?r) (view (vm_mm st))"
    using delete_region_ok [OF mi regs] del by (auto simp: region_at_def)
  have wf: "region_ok ?r" using mm_invD(5) [OF mi, of j] regs by (simp add: region_at_def)
  have own: "view (vm_mm st) b = Some (cell_of ?r b)" if "in_region ?r b" for b
    using that regs by (auto simp: view_Some [OF mi] region_at_def)
  have kept: "arena_hva_of x (arena_spans (vm_arena ?st)) = arena_hva_of x (arena_spans (vm_arena st))"
    if v: "\<And>b. in_region ?r b \<Longrightarrow> c_arena (cell_of ?r b) \<noteq> Some (int x)" for x
  proof (cases "\<not> reserved ?r \<and> \<not> arena_off ?r < 0 \<and> arena_off ?r mod 0x4000 = 0 \<and> msize ?r mod HOST_BLOCK_GRANULE = 0")
    case True
    have "0x4000 dvd unat (msize ?r)"
      using True by (simp add: unat_mod dvd_eq_mod_eq_0 flip: unat_eq_0)
    then have sz: "nroundup (unat (msize ?r)) ARENA_GRANULE = unat (msize ?r)"
      by (simp add: nroundup_exact)
    have "\<not> (nat (arena_off ?r) \<le> x \<and> x < nat (arena_off ?r) + unat (msize ?r))"
    proof
      assume in_rng: "nat (arena_off ?r) \<le> x \<and> x < nat (arena_off ?r) + unat (msize ?r)"
      define k where "k = x - nat (arena_off ?r)"
      have k: "k < unat (msize ?r)" "int x = arena_off ?r + int k"
        using in_rng True unfolding k_def by linarith+
      define b' :: gaddr where "b' = of_nat (rlo ?r + k)"
      have "rlo ?r + k < 2 ^ 63"
        using k(1) wf by (simp add: region_ok_def rhi_def rlo_def)
      then have ub: "unat b' = rlo ?r + k"
        unfolding b'_def by (intro unat_of_nat_small) simp
      then have "in_region ?r b'"
        using k(1) by (simp add: in_region_def rhi_def rlo_def)
      moreover have "c_arena (cell_of ?r b') = Some (int x)"
        using True k(2) ub by (simp add: cell_of_def)
      ultimately show False using v by blast
    qed
    then show ?thesis
      using True arena_free_outside [OF ai, of "nat (arena_off ?r)" x "unat (msize ?r)"]
      by (simp add: release_arena sz)
  next
    case False
    then show ?thesis unfolding release_arena if_not_P [OF False] by simp
  qed
  have "arena_hva_of (nat x) (arena_spans (vm_arena ?st)) = arena_hva_of (nat x) (arena_spans (vm_arena st))"
    if v: "view mm' b = Some c" "c_arena c = Some x" for b c x
  proof (rule kept)
    fix b' assume b': "in_region ?r b'"
    have vb: "view (vm_mm st) b = Some c" "\<not> in_region ?r b"
      using v(1) by (auto simp: mm'(2) without_def in_region_def split: if_splits)
    have "int (nat x) = x" using view_arena_nonneg [OF vb(1) v(2)] by simp
    then show "c_arena (cell_of ?r b') \<noteq> Some (int (nat x))"
      using un own [OF b'] vb b' v(2) unfolding unshared_def by metis
  qed
  then have "backed ?st"
    using ba unfolding backed_def by (auto simp: mm'(2) without_def)
  moreover have "arena_inv (vm_arena ?st)"
    using ai by (simp add: release_arena arena_free_inv)
  moreover have "unshared (view mm')"
    using un unfolding unshared_def mm'(2) without_def by (auto split: if_splits)
  ultimately show "vm_inv ?st"
    using mm'(1) by (simp add: vm_inv_def)
  show "spares st ?st"
    unfolding spares_def
  proof (intro allI impI conjI)
    fix x assume u: "unused st x"
    show "arena_hva_of x (arena_spans (vm_arena ?st)) = arena_hva_of x (arena_spans (vm_arena st))"
      using u own by (intro kept) (auto simp: unused_def)
    show "unused ?st x"
      using u by (auto simp: unused_def mm'(2) without_def)
  qed
qed

lemma without_idle:
  assumes "mm_inv mm" "\<forall>i\<in>set (mm_regions mm). \<not> overlaps (mm_store mm i) lo hi"
  shows "without lo hi (view mm) = view mm"
proof
  fix b
  have "view mm b = None" if "lo \<le> unat b" "unat b < hi"
  proof (rule ccontr)
    assume "view mm b \<noteq> None"
    then obtain i where "i \<in> set (mm_regions mm)" "in_region (mm_store mm i) b"
      using view_Some [OF assms(1)] by auto
    then show False using assms(2) that by (auto simp: overlaps_def in_region_def)
  qed
  then show "without lo hi (view mm) b = view mm b" by (simp add: without_def)
qed

lemma without_within: "lo \<le> l \<Longrightarrow> h \<le> hi \<Longrightarrow> without lo hi (without l h v) = without lo hi v"
  by (auto simp: without_def fun_eq_iff)

lemma same_brk_trans: "same_brk a b \<Longrightarrow> same_brk b c \<Longrightarrow> same_brk a c"
  by (simp add: same_brk_def)

text \<open>One round of the loop.\<close>

lemma unmap_round:
  assumes inv: "vm_inv st" and sm: "small_regions (vm_mm st)" and regs: "mm_regions (vm_mm st) = xs @ i # ys"
    and al: "is_page_aligned a" "is_page_aligned (a + s)" and s: "0 < unat s" "unat (a + s) = unat a + unat s"
    and ov: "overlaps (region_at st i) (unat a) (unat a + unat s)"
    and before: "\<forall>x\<in>set xs. rhi (region_at st x) \<le> unat a"
  shows "\<exists>st' xs' zs. vm_inv st' \<and> small_regions (vm_mm st') \<and> mm_regions (vm_mm st') = xs' @ zs @ ys
    \<and> length zs \<le> 1 \<and> same_brk (vm_mm st) (vm_mm st')
    \<and> (\<forall>x\<in>set xs'. rhi (region_at st' x) \<le> unat a) \<and> (\<forall>t\<in>set zs. rlo (region_at st' t) = unat a + unat s)
    \<and> without (unat a) (unat a + unat s) (view (vm_mm st')) = without (unat a) (unat a + unat s) (view (vm_mm st))
    \<and> (\<forall>y\<in>set ys. region_at st' y = region_at st y) \<and> spares st st'
    \<and> unmap_loop h a s i st = (case zs @ ys of [] \<Rightarrow> Some st' | n # _ \<Rightarrow> unmap_loop h a s n st')"
proof -
  have mi: "mm_inv (vm_mm st)" using inv by (simp add: vm_inv_def)
  have "i \<in> set (mm_regions (vm_mm st))" by (simp add: regs)
  then have c0: "region_compare (probe a s) (region_at st i) = 0" and sm_i: "small_region (mm_store (vm_mm st) i)"
    using cmp_in_probe [OF mi, of i a s] ov s(2) unsigned_less [of "a + s", where ?'a = nat] sm
    by (auto simp: cmp_in_def region_at_def overlaps_def small_regions_def)
  from isolate_ok [OF mi regs sm_i al, of h] obtain mm1 j xs' zs where
    i: "isolate h a (a + s) i (vm_mm st) = Some (mm1, j)" "same_view (vm_mm st) mm1"
      "mm_regions mm1 = xs' @ j # zs @ ys" "length zs \<le> 1"
      "\<forall>k\<in>set xs \<union> set ys. mm_store mm1 k = mm_store (vm_mm st) k"
      "\<forall>x\<in>set xs'. x \<in> set xs \<or> rhi (mm_store mm1 x) \<le> unat a"
      "unat a \<le> rlo (mm_store mm1 j)" "rhi (mm_store mm1 j) \<le> unat a + unat s"
      "\<forall>t\<in>set zs. rlo (mm_store mm1 t) = unat a + unat s"
    using ov s by (auto simp: region_at_def)
  let ?st1 = "st\<lparr> vm_mm := mm1 \<rparr>"
  have inv1: "vm_inv ?st1" and mi1: "mm_inv mm1" and v1: "view mm1 = view (vm_mm st)" and sm1: "small_regions mm1"
    and b1: "same_brk (vm_mm st) mm1"
    using vm_inv_same_view [OF inv i(2)] i(2) sm by (simp_all add: same_view_def)
  obtain mm2 where d: "delete_region mm1 j = Some mm2" "mm_regions mm2 = xs' @ zs @ ys" "mm_store mm2 = mm_store mm1"
      "same_brk mm1 mm2" "view mm2 = without (rlo (mm_store mm1 j)) (rhi (mm_store mm1 j)) (view mm1)"
    using delete_region_ok [OF mi1 i(3)] by blast
  define st' where "st' = release_region (mm_store mm1 j) (st\<lparr> vm_mm := mm2 \<rparr>)"
  have inv': "vm_inv st'" and sp1: "spares ?st1 st'"
    using release_ok [OF inv1, of xs' j "zs @ ys" mm2] i(3) d(1) by (simp_all add: st'_def region_at_def)
  have sp: "spares st st'" by (rule spares_trans [OF spares_same_view [OF i(2)] sp1])
  have mm_st': "vm_mm st' = mm2" by (simp add: st'_def)
  have dis: "distinct (xs' @ j # zs @ ys)" using mm_invD(3) [OF mi1] i(3) by simp
  have nx: "list_next j (mm_regions mm1) = (case zs @ ys of [] \<Rightarrow> None | y # _ \<Rightarrow> Some y)"
    unfolding i(3) by (rule list_next_mid [OF dis])
  have "unmap_loop h a s i st = (case list_next j (mm_regions mm1) of None \<Rightarrow> Some st' | Some n \<Rightarrow> unmap_loop h a s n st')"
    unfolding st'_def by (subst unmap_loop.simps) (simp add: c0 i(1) d(1) Let_def)
  then have "unmap_loop h a s i st = (case zs @ ys of [] \<Rightarrow> Some st' | n # _ \<Rightarrow> unmap_loop h a s n st')"
    unfolding nx by (simp split: list.splits)
  moreover have "small_regions (vm_mm st')"
    using sm1 d(2,3) i(3) by (auto simp: small_regions_def mm_st')
  moreover have "\<forall>x\<in>set xs'. rhi (region_at st' x) \<le> unat a"
    using before i(5,6) d(3) by (auto simp: region_at_def mm_st')
  moreover have "without (unat a) (unat a + unat s) (view (vm_mm st')) = without (unat a) (unat a + unat s) (view (vm_mm st))"
    using i(7,8) by (simp add: mm_st' d(5) v1 without_within)
  ultimately show ?thesis
    using inv' sp d(2,3) i(4,5,9) same_brk_trans [OF b1 d(4)] mm_st'
    by (intro exI [of _ st']) (rule exI [of _ xs'], rule exI [of _ zs], auto simp: region_at_def)
qed

lemma unmap_loop_ok:
  assumes "vm_inv st" "small_regions (vm_mm st)" "mm_regions (vm_mm st) = xs @ i # ys"
    and al: "is_page_aligned a" "is_page_aligned (a + s)" and s: "0 < unat s" "unat (a + s) = unat a + unat s"
    and "unat a < rhi (region_at st i)" "\<forall>x\<in>set xs. rhi (region_at st x) \<le> unat a"
  shows "\<exists>st'. unmap_loop h a s i st = Some st' \<and> vm_inv st' \<and> small_regions (vm_mm st')
    \<and> same_brk (vm_mm st) (vm_mm st') \<and> spares st st'
    \<and> view (vm_mm st') = without (unat a) (unat a + unat s) (view (vm_mm st))"
  using assms(1,2,3,8,9)
proof (induction "length ys" arbitrary: st xs i ys rule: less_induct)
  case less
  note inv = less.prems(1) and sm = less.prems(2) and regs = less.prems(3)
  let ?lo = "unat a" and ?hi = "unat a + unat s"
  have mi: "mm_inv (vm_mm st)" using inv by (simp add: vm_inv_def)
  have ord: "in_order (mm_store (vm_mm st)) (xs @ i # ys)" using mi regs by (simp add: mm_inv_alt)
  have cmp: "region_compare (probe a s) (region_at st' n) = 0 \<longleftrightarrow> overlaps (region_at st' n) ?lo ?hi"
    if "mm_inv (vm_mm st')" "n \<in> set (mm_regions (vm_mm st'))" for n st'
    using cmp_in_probe [OF that, of a s] s(2) unsigned_less [of "a + s", where ?'a = nat]
    by (simp add: cmp_in_def region_at_def overlaps_def)
  have stop: "unmap_loop h a s n st' = Some st'"
    if "mm_inv (vm_mm st')" "n \<in> set (mm_regions (vm_mm st'))" "?hi \<le> rlo (region_at st' n)" for n st'
    using cmp [OF that(1,2)] that(3) by (subst unmap_loop.simps) (auto simp: overlaps_def)
  show ?case
  proof (cases "overlaps (region_at st i) ?lo ?hi")
    case False
    then have hi: "?hi \<le> rlo (region_at st i)"
      using less.prems(4) by (simp add: overlaps_def)
    have "\<not> overlaps (mm_store (vm_mm st) k) ?lo ?hi" if k: "k \<in> set (mm_regions (vm_mm st))" for k
    proof -
      consider "k \<in> set xs" | "k = i" | "k \<in> set ys" using k regs by auto
      then show ?thesis
      proof cases
        case 3
        then have "rhi (mm_store (vm_mm st) i) \<le> rlo (mm_store (vm_mm st) k)" "region_ok (mm_store (vm_mm st) i)"
          using ord by (auto simp: in_order_simps)
        then show ?thesis
          using hi region_ok_less [of "mm_store (vm_mm st) i"] by (simp add: overlaps_def region_at_def)
      qed (use less.prems(5) False in \<open>auto simp: overlaps_def region_at_def\<close>)
    qed
    then have "without ?lo ?hi (view (vm_mm st)) = view (vm_mm st)"
      by (intro without_idle [OF mi]) blast
    then show ?thesis
      using stop [OF mi, of i] hi regs inv sm spares_refl by (auto simp: same_brk_def)
  next
    case True
    from unmap_round [OF inv sm regs al s True less.prems(5), of h] obtain st' xs' zs where
      r: "vm_inv st'" "small_regions (vm_mm st')" "mm_regions (vm_mm st') = xs' @ zs @ ys" "length zs \<le> 1"
        "same_brk (vm_mm st) (vm_mm st')" "\<forall>x\<in>set xs'. rhi (region_at st' x) \<le> ?lo"
        "\<forall>t\<in>set zs. rlo (region_at st' t) = ?hi"
        "without ?lo ?hi (view (vm_mm st')) = without ?lo ?hi (view (vm_mm st))"
        "\<forall>y\<in>set ys. region_at st' y = region_at st y" "spares st st'"
        "unmap_loop h a s i st = (case zs @ ys of [] \<Rightarrow> Some st' | n # _ \<Rightarrow> unmap_loop h a s n st')"
      by blast
    have mi': "mm_inv (vm_mm st')" using r(1) by (simp add: vm_inv_def)
    have ord': "in_order (mm_store (vm_mm st')) (xs' @ zs @ ys)" using mi' r(3) by (simp add: mm_inv_alt)
    have fin: ?thesis
      if "unmap_loop h a s i st = Some st'" "\<forall>k\<in>set (zs @ ys). ?hi \<le> rlo (region_at st' k)"
    proof -
      have "\<not> overlaps (mm_store (vm_mm st') k) ?lo ?hi" if "k \<in> set (mm_regions (vm_mm st'))" for k
        using that r(3,6) \<open>\<forall>k\<in>set (zs @ ys). ?hi \<le> rlo (region_at st' k)\<close>
        by (auto simp: overlaps_def region_at_def not_less dest: leD)
      then have "without ?lo ?hi (view (vm_mm st')) = view (vm_mm st')"
        by (intro without_idle [OF mi']) blast
      then show ?thesis using that(1) r by auto
    qed
    show ?thesis
    proof (cases zs)
      case (Cons t ts)
      then have zs: "zs = [t]" using r(4) by simp
      have "?hi \<le> rlo (region_at st' k)" if "k \<in> set ys" for k
        using that ord' r(7) zs region_ok_less [of "mm_store (vm_mm st') t"]
        by (force simp: in_order_simps region_at_def)
      then show ?thesis
        using fin stop [OF mi', of t] r(3,7,11) zs by simp
    next
      case Nil
      show ?thesis
      proof (cases ys)
        case (Cons n ns)
        have "?lo < rhi (region_at st' n)"
        proof -
          have "rhi (region_at st i) \<le> rlo (region_at st n)" "region_ok (region_at st n)"
            using ord Cons by (simp_all add: in_order_simps region_at_def)
          then show ?thesis
            using True r(9) Cons region_ok_less [of "region_at st n"] by (simp add: overlaps_def)
        qed
        from less.hyps [OF _ r(1,2) _ this r(6), of ns] obtain st'' where
          "unmap_loop h a s n st' = Some st''" "vm_inv st''" "small_regions (vm_mm st'')"
          "same_brk (vm_mm st') (vm_mm st'')" "spares st' st''" "view (vm_mm st'') = without ?lo ?hi (view (vm_mm st'))"
          using r(3) Nil Cons by auto
        then show ?thesis
          using r(5,8,11) Nil Cons same_brk_trans spares_trans [OF r(10)] by auto
      qed (use fin r(11) Nil in simp)
    qed
  qed
qed

section \<open>do\_munmap\<close>

lemma walk_back_split:
  "\<exists>us vs. xs @ [i] = us @ walk_back f i (rev xs) # vs \<and> (us \<noteq> [] \<longrightarrow> f (last us) \<noteq> 0)
     \<and> (walk_back f i (rev xs) = i \<or> f (walk_back f i (rev xs)) = 0)"
proof (induction xs arbitrary: i rule: rev_induct)
  case (snoc p xs)
  show ?case
  proof (cases "f p = 0")
    case True
    define w where "w = walk_back f p (rev xs)"
    obtain us vs where 1: "xs @ [p] = us @ w # vs" "us \<noteq> [] \<longrightarrow> f (last us) \<noteq> 0" "w = p \<or> f w = 0"
      using snoc [of p] unfolding w_def by blast
    have "walk_back f i (rev (xs @ [p])) = w" using True by (simp add: w_def)
    moreover have "(xs @ [p]) @ [i] = us @ w # (vs @ [i])" using 1(1) by simp
    ultimately show ?thesis using 1(2,3) True by metis
  qed (rule exI [of _ "xs @ [p]"], auto)
qed auto

lemma first_overlap_ok:
  assumes inv: "mm_inv mm" and i: "i \<in> set (mm_regions mm)" and b: "unat a + unat s < 2 ^ 64"
    and ov: "overlaps (mm_store mm i) (unat a) (unat a + unat s)"
  shows "\<exists>xs ys. mm_regions mm = xs @ first_overlap a s i mm # ys
    \<and> overlaps (mm_store mm (first_overlap a s i mm)) (unat a) (unat a + unat s)
    \<and> (\<forall>x\<in>set xs. rhi (mm_store mm x) \<le> unat a)"
proof -
  let ?f = "cmp_in mm (probe a s)" and ?k = "first_overlap a s i mm"
  have d: "distinct (mm_regions mm)" and ord: "in_order (mm_store mm) (mm_regions mm)"
    using inv by (simp_all add: mm_inv_alt in_order_def)
  obtain us ys where regs: "mm_regions mm = us @ i # ys" using i by (meson split_list)
  have tw: "takeWhile (\<lambda>j. j \<noteq> i) (mm_regions mm) = us"
    using d regs by (subst regs, subst takeWhile_append2) auto
  have k: "?k = walk_back ?f i (rev us)" by (simp add: first_overlap_def tw)
  obtain ws vs where w: "us @ [i] = ws @ ?k # vs" "ws \<noteq> [] \<longrightarrow> ?f (last ws) \<noteq> 0" "?k = i \<or> ?f ?k = 0"
    using walk_back_split [of us i ?f] unfolding k by blast
  have regs': "mm_regions mm = ws @ ?k # vs @ ys"
    using w(1) regs by (metis append.assoc append_Cons append_Nil)
  have z: "?f x = 0 \<longleftrightarrow> overlaps (mm_store mm x) (unat a) (unat a + unat s)" if "x \<in> set (mm_regions mm)" for x
    using cmp_in_probe [OF inv that b] by (simp add: overlaps_def)
  have ovk: "overlaps (mm_store mm ?k) (unat a) (unat a + unat s)"
    using w(3) ov z [of ?k] regs' by auto
  have "rhi (mm_store mm x) \<le> unat a" if x: "x \<in> set ws" for x
  proof -
    have ne: "ws \<noteq> []" using x by auto
    let ?l = "last ws"
    have l: "?l \<in> set ws" using ne by simp
    have "rhi (mm_store mm ?l) \<le> rlo (mm_store mm ?k)" "region_ok (mm_store mm ?l)"
      using ord l by (auto simp: regs' in_order_simps dest: in_order_okD)
    moreover have "\<not> overlaps (mm_store mm ?l) (unat a) (unat a + unat s)"
      using w(2) ne z [of ?l] l regs' by auto
    ultimately have "rhi (mm_store mm ?l) \<le> unat a"
      using ovk region_ok_less [of "mm_store mm ?l"] by (auto simp: overlaps_def)
    moreover have "rhi (mm_store mm x) \<le> rhi (mm_store mm ?l)"
    proof (cases "x = ?l")
      case False
      have ws: "ws = butlast ws @ [?l]" using ne by simp
      have "x \<in> set (butlast ws)" using x False by (subst (asm) ws) auto
      moreover have "in_order (mm_store mm) (butlast ws @ [?l])"
        using ord regs' ws by (simp add: in_order_append)
      ultimately have "rhi (mm_store mm x) \<le> rlo (mm_store mm ?l)"
        by (auto simp: in_order_simps)
      then show ?thesis using region_ok_less [OF \<open>region_ok (mm_store mm ?l)\<close>] by simp
    qed simp
    ultimately show ?thesis by simp
  qed
  then show ?thesis using regs' ovk by blast
qed

lemma roundup_page:
  assumes "unat len + 0xfff < 2 ^ 64"
  shows "unat (roundup len GUEST_MMAP_GRANULE) = nroundup (unat len) 0x1000"
proof -
  have "unat (len + 0xfff) = unat len + 0xfff"
    using assms by (simp add: unat_word_ariths)
  moreover have "(unat len + 0xfff) div 0x1000 * 0x1000 < 2 ^ 64"
    using assms by (meson div_times_less_eq_dividend le_less_trans)
  ultimately show ?thesis
    by (simp add: roundup_def nroundup_def unat_word_ariths unat_div)
qed

definition free_range :: "nat \<Rightarrow> nat \<Rightarrow> (gaddr \<Rightarrow> 'a option) \<Rightarrow> bool" where
  "free_range lo hi v \<longleftrightarrow> (\<forall>b. lo \<le> unat b \<and> unat b < hi \<longrightarrow> v b = None)"

lemma overlap_address:
  assumes inv: "mm_inv mm" and i: "i \<in> set (mm_regions mm)" and ov: "overlaps (mm_store mm i) lo hi" and lt: "lo < hi"
  shows "\<exists>b. lo \<le> unat b \<and> unat b < hi \<and> in_region (mm_store mm i) b \<and> view mm b = Some (cell_of (mm_store mm i) b)"
proof -
  let ?r = "mm_store mm i"
  define b :: gaddr where "b = of_nat (max lo (rlo ?r))"
  have m: "max lo (rlo ?r) < rhi ?r"
    using ov region_ok_less [OF mm_invD(5) [OF inv i]] by (simp add: overlaps_def)
  then have "max lo (rlo ?r) < 2 ^ 64" using mm_invD(5) [OF inv i] by (simp add: region_ok_def)
  then have "unat b = max lo (rlo ?r)"
    unfolding b_def by (intro unat_of_nat_small) simp
  then have "in_region ?r b" "lo \<le> unat b" "unat b < hi"
    using m ov lt by (auto simp: in_region_def overlaps_def)
  then show ?thesis using i by (auto simp: view_Some [OF inv])
qed

lemma free_range_overlaps:
  assumes "mm_inv mm"
  shows "free_range lo hi (view mm) \<longleftrightarrow> lo \<ge> hi \<or> (\<forall>i\<in>set (mm_regions mm). \<not> overlaps (mm_store mm i) lo hi)"
proof
  assume fr: "free_range lo hi (view mm)"
  show "lo \<ge> hi \<or> (\<forall>i\<in>set (mm_regions mm). \<not> overlaps (mm_store mm i) lo hi)"
  proof (rule ccontr)
    assume "\<not> ?thesis"
    then obtain i where i: "lo < hi" "i \<in> set (mm_regions mm)" "overlaps (mm_store mm i) lo hi" by auto
    obtain b where "lo \<le> unat b" "unat b < hi" "view mm b = Some (cell_of (mm_store mm i) b)"
      using overlap_address [OF assms i(2,3,1)] by blast
    then show False using fr by (auto simp: free_range_def)
  qed
next
  assume "lo \<ge> hi \<or> (\<forall>i\<in>set (mm_regions mm). \<not> overlaps (mm_store mm i) lo hi)"
  then have "without lo hi (view mm) = view mm"
  proof
    assume "lo \<ge> hi"
    then show ?thesis by (auto simp: without_def fun_eq_iff)
  qed (rule without_idle [OF assms])
  then show "free_range lo hi (view mm)"
    by (metis free_range_def without_def)
qed

text \<open>The result of an unmapping that stays below the top of the address space.\<close>

definition unmapped :: "vm \<Rightarrow> nat \<Rightarrow> nat \<Rightarrow> unit res \<Rightarrow> vm \<Rightarrow> bool" where
  "unmapped st lo hi r st' \<longleftrightarrow>
     vm_inv st' \<and> small_regions (vm_mm st') \<and> same_brk (vm_mm st) (vm_mm st') \<and> spares st st'
     \<and> view (vm_mm st') = without lo hi (view (vm_mm st))
     \<and> r = (if free_range lo hi (view (vm_mm st)) then Inl LINUX_ENOMEM else Inr ())"

lemma do_munmap_ok:
  assumes inv: "vm_inv st" and sm: "small_regions (vm_mm st)" and al: "is_page_aligned a"
    and len: "0 < len" "unat a + nroundup (unat len) 0x1000 < 2 ^ 63" "unat len + 0xfff < 2 ^ 64"
  shows "\<exists>r st'. do_munmap h a len st = Some (r, st')
    \<and> unmapped st (unat a) (unat a + nroundup (unat len) 0x1000) r st'"
proof -
  define s where "s = roundup len GUEST_MMAP_GRANULE"
  have us: "unat s = nroundup (unat len) 0x1000" using roundup_page [OF len(3)] by (simp add: s_def)
  have pos: "0 < unat s"
    using len(1) nroundup_ge [of "0x1000" "unat len"] by (simp add: us word_less_nat_alt)
  have uas: "unat (a + s) = unat a + unat s"
    using len(2) by (simp add: us unat_word_ariths)
  have al2: "is_page_aligned (a + s)"
    using al by (auto simp: page_aligned_dvd uas us nroundup_def)
  have b64: "unat a + unat s < 2 ^ 64" using len(2) us by simp
  have mi: "mm_inv (vm_mm st)" using inv by (simp add: vm_inv_def)
  let ?hi = "unat a + unat s"
  show ?thesis
  proof (cases "find_region_range a s (vm_mm st)")
    case None
    then have no: "\<forall>i\<in>set (mm_regions (vm_mm st)). \<not> overlaps (mm_store (vm_mm st) i) (unat a) ?hi"
      using find_region_range_ok [OF mi b64] by simp
    have "unmapped st (unat a) ?hi (Inl LINUX_ENOMEM) st"
      using inv sm no without_idle [OF mi no] free_range_overlaps [OF mi, of "unat a" ?hi]
      by (auto simp: unmapped_def same_brk_def spares_refl)
    then show ?thesis using None al by (auto simp: do_munmap_def s_def [symmetric] us [symmetric])
  next
    case (Some i)
    then have i: "i \<in> set (mm_regions (vm_mm st))" "overlaps (mm_store (vm_mm st) i) (unat a) ?hi"
      using find_region_range_ok [OF mi b64] by simp_all
    obtain xs ys where f: "mm_regions (vm_mm st) = xs @ first_overlap a s i (vm_mm st) # ys"
        "overlaps (mm_store (vm_mm st) (first_overlap a s i (vm_mm st))) (unat a) ?hi"
        "\<forall>x\<in>set xs. rhi (mm_store (vm_mm st) x) \<le> unat a"
      using first_overlap_ok [OF mi i(1) b64 i(2)] by blast
    have "unat a < rhi (region_at st (first_overlap a s i (vm_mm st)))"
      "\<forall>x\<in>set xs. rhi (region_at st x) \<le> unat a"
      using f by (simp_all add: overlaps_def region_at_def)
    from unmap_loop_ok [OF inv sm f(1) al al2 pos uas this, of h] obtain st' where
      "unmap_loop h a s (first_overlap a s i (vm_mm st)) st = Some st'" "vm_inv st'" "small_regions (vm_mm st')"
      "same_brk (vm_mm st) (vm_mm st')" "spares st st'"
      "view (vm_mm st') = without (unat a) ?hi (view (vm_mm st))"
      by blast
    moreover have "\<not> free_range (unat a) ?hi (view (vm_mm st))"
      using i pos free_range_overlaps [OF mi, of "unat a" ?hi] by auto
    ultimately have "do_munmap h a len st = Some (Inr (), st')" "unmapped st (unat a) ?hi (Inr ()) st'"
      using Some al by (auto simp: do_munmap_def s_def [symmetric] unmapped_def)
    then show ?thesis by (auto simp: us [symmetric])
  qed
qed

section \<open>Changing a region in place\<close>

lemma upd_region_sel [simp]:
  "mm_regions (upd_region i f mm) = mm_regions mm" "mm_region_tree (upd_region i f mm) = mm_region_tree mm"
  "mm_next (upd_region i f mm) = mm_next mm" "same_brk mm (upd_region i f mm)"
  "mm_store (upd_region i f mm) i = f (mm_store mm i)"
  "j \<noteq> i \<Longrightarrow> mm_store (upd_region i f mm) j = mm_store mm j"
  by (simp_all add: upd_region_def same_brk_def)

lemma upd_region_ok:
  assumes inv: "mm_inv mm" and i: "i \<in> set (mm_regions mm)"
    and same: "gaddr (f (mm_store mm i)) = gaddr (mm_store mm i)" "msize (f (mm_store mm i)) = msize (mm_store mm i)"
  shows "mm_inv (upd_region i f mm)"
    "view (upd_region i f mm) b =
       (if in_region (mm_store mm i) b then Some (cell_of (f (mm_store mm i)) b) else view mm b)"
    "small_regions mm \<Longrightarrow> small_regions (upd_region i f mm)"
proof -
  let ?r = "mm_store mm i"
  have e: "rlo (f ?r) = rlo ?r" "rhi (f ?r) = rhi ?r" "region_ok (f ?r) = region_ok ?r"
    using same by (simp_all add: rlo_def rhi_def region_ok_def)
  have st: "rlo (mm_store (upd_region i f mm) j) = rlo (mm_store mm j)"
    "rhi (mm_store (upd_region i f mm) j) = rhi (mm_store mm j)"
    "region_ok (mm_store (upd_region i f mm) j) = region_ok (mm_store mm j)" for j
    using e by (cases "j = i"; simp)+
  show inv': "mm_inv (upd_region i f mm)"
    using inv by (simp add: mm_inv_def st)
  show "small_regions mm \<Longrightarrow> small_regions (upd_region i f mm)"
    by (simp add: small_regions_def small_region_def st)
  have fr: "find_region b (upd_region i f mm) = find_region b mm"
  proof -
    have "find_region b (upd_region i f mm) = Some j \<longleftrightarrow> find_region b mm = Some j" for j
      by (simp add: find_region_iff [OF inv'] find_region_iff [OF inv] in_region_def st)
    then show ?thesis by (metis not_Some_eq)
  qed
  show "view (upd_region i f mm) b =
       (if in_region ?r b then Some (cell_of (f ?r) b) else view mm b)"
  proof (cases "in_region ?r b")
    case True
    then have "find_region b mm = Some i" using i by (simp add: find_region_iff [OF inv])
    then show ?thesis using True by (simp add: view_def fr)
  next
    case False
    have "j \<noteq> i" if "find_region b mm = Some j" for j
      using that False by (auto simp: find_region_iff [OF inv])
    then show ?thesis using False by (cases "find_region b mm") (auto simp: view_def fr)
  qed
qed

text \<open>A change of the view that keeps where every byte is.\<close>

definition relabels :: "(gaddr \<Rightarrow> cell option) \<Rightarrow> (gaddr \<Rightarrow> cell option) \<Rightarrow> bool" where
  "relabels v v' \<longleftrightarrow> (\<forall>b. map_option c_arena (v' b) = map_option c_arena (v b)
     \<and> map_option c_haddr (v' b) = map_option c_haddr (v b))"

lemma vm_inv_relabel:
  assumes "vm_inv st" "mm_inv mm'" "relabels (view (vm_mm st)) (view mm')"
  shows "vm_inv (st\<lparr> vm_mm := mm' \<rparr>)"
proof -
  have old: "\<exists>d. view (vm_mm st) b = Some d \<and> c_arena d = c_arena c \<and> c_haddr d = c_haddr c"
    if "view mm' b = Some c" for b c
  proof -
    have "map_option c_arena (view (vm_mm st) b) = Some (c_arena c)"
      "map_option c_haddr (view (vm_mm st) b) = Some (c_haddr c)"
      using assms(3) that unfolding relabels_def by (metis option.simps(9))+
    then show ?thesis by auto
  qed
  have "backed (st\<lparr> vm_mm := mm' \<rparr>)"
    unfolding backed_def
  proof (intro allI impI)
    fix b c x
    assume v: "view (vm_mm (st\<lparr> vm_mm := mm' \<rparr>)) b = Some c" "c_arena c = Some x"
    from v(1) obtain d where d: "view (vm_mm st) b = Some d" "c_arena d = c_arena c" "c_haddr d = c_haddr c"
      using old [of b c] by auto
    have "map_option of_nat (arena_hva_of (nat x) (arena_spans (vm_arena st))) = Some (c_haddr d)"
      using assms(1) d(1,2) v(2) unfolding vm_inv_def backed_def by metis
    then show "map_option of_nat (arena_hva_of (nat x) (arena_spans (vm_arena (st\<lparr> vm_mm := mm' \<rparr>)))) = Some (c_haddr c)"
      using d(3) by simp
  qed
  moreover have "unshared (view mm')"
    unfolding unshared_def
  proof (intro allI impI)
    fix b b' c c' x
    assume v: "view mm' b = Some c" "view mm' b' = Some c'" "c_arena c = Some x" "c_arena c' = Some x"
    obtain d d' where "view (vm_mm st) b = Some d" "view (vm_mm st) b' = Some d'" "c_arena d = Some x" "c_arena d' = Some x"
      using old [OF v(1)] old [OF v(2)] v(3,4) by auto
    then show "b = b'" using assms(1) unfolding vm_inv_def unshared_def by blast
  qed
  ultimately show ?thesis using assms(1,2) by (simp add: vm_inv_def)
qed

section \<open>Sealing\<close>

text \<open>The first pass of \<^verbatim>\<open>mseal\<close>: whether every address from \<open>p\<close> up to \<open>e\<close> is mapped.\<close>

partial_function (option) range_covered :: "mm \<Rightarrow> gaddr \<Rightarrow> gaddr \<Rightarrow> bool option" where
  "range_covered mm p e =
     (if p < e
      then case find_region p mm of
             None \<Rightarrow> Some False
           | Some i \<Rightarrow> range_covered mm (gaddr (mm_store mm i) + msize (mm_store mm i)) e
      else Some True)"

partial_function (option) seal_loop :: "host \<Rightarrow> gaddr \<Rightarrow> gaddr \<Rightarrow> mm \<Rightarrow> mm option" where
  "seal_loop h p e mm =
     (if p < e
      then do { i \<leftarrow> find_region p mm;
                (mm, j) \<leftarrow> isolate h p e i mm;
                let mm = upd_region j (sealed_update (\<lambda>_. True)) mm;
                seal_loop h (gaddr (mm_store mm j) + msize (mm_store mm j)) e mm }
      else Some mm)"

definition sys_mseal :: "host \<Rightarrow> gaddr \<Rightarrow> u64 \<Rightarrow> u64 \<Rightarrow> vm \<Rightarrow> (unit res \<times> vm) option" where
  "sys_mseal h addr len flags st =
     (if flags \<noteq> 0 then Some (Inl LINUX_EINVAL, st)
      else if addr AND (PAGE_SIZE - 1) \<noteq> 0 then Some (Inl LINUX_EINVAL, st)
      else if len = 0 then Some (Inr (), st)
      else if addr + len < addr then Some (Inl LINUX_EINVAL, st)
      else
        let e = roundup (addr + len) PAGE_SIZE
        in do { covered \<leftarrow> range_covered (vm_mm st) addr e;
                if covered
                then do { mm \<leftarrow> seal_loop h addr e (vm_mm st); Some (Inr (), st\<lparr> vm_mm := mm \<rparr>) }
                else Some (Inl LINUX_ENOMEM, st) })"

lemma region_end: "region_ok r \<Longrightarrow> unat (gaddr r + msize r) = rhi r"
  by (simp add: rhi_def region_ok_def unat_word_ariths)

lemma range_covered_ok:
  assumes inv: "mm_inv mm"
  shows "range_covered mm p e = Some (\<forall>b. unat p \<le> unat b \<and> unat b < unat e \<longrightarrow> view mm b \<noteq> None)"
proof (induction "unat e - unat p" arbitrary: p rule: less_induct)
  case less
  show ?case
  proof (cases "p < e")
    case False
    then show ?thesis by (subst range_covered.simps) (auto simp: word_less_nat_alt)
  next
    case True
    show ?thesis
    proof (cases "find_region p mm")
      case None
      then have "view mm p = None" by (simp add: view_def)
      then show ?thesis
        using True None by (subst range_covered.simps) (auto simp: word_less_nat_alt)
    next
      case (Some i)
      let ?r = "mm_store mm i" and ?q = "gaddr (mm_store mm i) + msize (mm_store mm i)"
      have i: "i \<in> set (mm_regions mm)" "in_region ?r p"
        using Some by (simp_all add: find_region_iff [OF inv])
      have q: "unat ?q = rhi ?r" using region_end [OF mm_invD(5) [OF inv i(1)]] .
      have here: "view mm b \<noteq> None" if "unat p \<le> unat b" "unat b < rhi ?r" for b
      proof -
        have "in_region ?r b" using that i(2) by (simp add: in_region_def)
        then show ?thesis using i(1) find_region_iff [OF inv, of b i] by (simp add: view_def)
      qed
      have "(unat ?q \<le> unat b \<and> unat b < unat e \<longrightarrow> view mm b \<noteq> None) \<longleftrightarrow>
          (unat p \<le> unat b \<and> unat b < unat e \<longrightarrow> view mm b \<noteq> None)" for b
        unfolding q using here [of b] i(2) by (cases "unat b < rhi ?r") (auto simp: in_region_def)
      moreover have "unat e - unat ?q < unat e - unat p"
        using True i(2) q by (auto simp: in_region_def word_less_nat_alt)
      ultimately show ?thesis
        using less [of ?q] True Some by (subst range_covered.simps) simp_all
    qed
  qed
qed

definition seal_cells :: "nat \<Rightarrow> nat \<Rightarrow> (gaddr \<Rightarrow> cell option) \<Rightarrow> gaddr \<Rightarrow> cell option" where
  "seal_cells lo hi v = (\<lambda>b. if lo \<le> unat b \<and> unat b < hi then map_option (c_sealed_update (\<lambda>_. True)) (v b) else v b)"

lemma seal_cells_relabels: "relabels v (seal_cells lo hi v)"
  by (simp add: relabels_def seal_cells_def option.map_comp comp_def)

lemma seal_cells_join: "lo \<le> m \<Longrightarrow> m \<le> hi \<Longrightarrow> seal_cells m hi (seal_cells lo m v) = seal_cells lo hi v"
  by (auto simp: seal_cells_def fun_eq_iff)

lemma seal_cells_dom: "seal_cells lo hi v b = None \<longleftrightarrow> v b = None"
  by (simp add: seal_cells_def)

lemma seal_loop_ok:
  assumes "mm_inv mm" "small_regions mm" "is_page_aligned p" "is_page_aligned e" "unat e < 2 ^ 63"
    and "\<forall>b. unat p \<le> unat b \<and> unat b < unat e \<longrightarrow> view mm b \<noteq> None"
  shows "\<exists>mm'. seal_loop h p e mm = Some mm' \<and> mm_inv mm' \<and> small_regions mm' \<and> same_brk mm mm'
    \<and> view mm' = seal_cells (unat p) (unat e) (view mm)"
  using assms
proof (induction "unat e - unat p" arbitrary: p mm rule: less_induct)
  case less
  note inv = less.prems(1)
  show ?case
  proof (cases "p < e")
    case False
    then show ?thesis
      using less.prems by (subst seal_loop.simps)
        (auto simp: word_less_nat_alt seal_cells_def same_brk_def fun_eq_iff)
  next
    case True
    then have pe: "unat p < unat e" by (simp add: word_less_nat_alt)
    then have "view mm p \<noteq> None" using less.prems(6) by blast
    then obtain i where fi: "find_region p mm = Some i" by (auto simp: view_def)
    then have i: "i \<in> set (mm_regions mm)" "in_region (mm_store mm i) p"
      by (simp_all add: find_region_iff [OF inv])
    have sm: "small_region (mm_store mm i)" using less.prems(2) i(1) by (simp add: small_regions_def)
    have ov: "overlaps (mm_store mm i) (unat p) (unat e)" and mx: "max (unat p) (rlo (mm_store mm i)) = unat p"
      using i(2) pe by (auto simp: in_region_def overlaps_def)
    obtain xs ys where regs: "mm_regions mm = xs @ i # ys" using i(1) by (meson split_list)
    from isolate_ok [OF inv regs sm less.prems(3,4) ov pe, of h] obtain mm1 j xs' zs where
      1: "isolate h p e i mm = Some (mm1, j)" "same_view mm mm1" "mm_regions mm1 = xs' @ j # zs @ ys"
        "rlo (mm_store mm1 j) = unat p" "rhi (mm_store mm1 j) = min (unat e) (rhi (mm_store mm i))"
      unfolding mx by blast
    have inv1: "mm_inv mm1" and v1: "view mm1 = view mm" and sm1: "small_regions mm1" and b1: "same_brk mm mm1"
      using 1(2) less.prems(2) by (simp_all add: same_view_def)
    have j: "j \<in> set (mm_regions mm1)" using 1(3) by simp
    let ?f = "sealed_update (\<lambda>_. True)" and ?r = "mm_store mm1 j"
    let ?mm2 = "upd_region j ?f mm1" and ?q = "gaddr ?r + msize ?r"
    note u = upd_region_ok [OF inv1 j, of ?f]
    have wf: "region_ok ?r" using mm_invD(5) [OF inv1 j] .
    have q: "unat ?q = rhi ?r" by (rule region_end [OF wf])
    have v2: "view ?mm2 = seal_cells (unat p) (unat ?q) (view mm)"
    proof
      fix b
      have "in_region ?r b \<Longrightarrow> view mm b = Some (cell_of ?r b)"
        using j unfolding v1 [symmetric] by (auto simp: view_Some [OF inv1])
      moreover have "cell_of (?f ?r) b = (cell_of ?r b)\<lparr> c_sealed := True \<rparr>" by (simp add: cell_of_def rlo_def)
      ultimately show "view ?mm2 b = seal_cells (unat p) (unat ?q) (view mm) b"
        using u(2) [of b] 1(4) by (simp add: seal_cells_def in_region_def q v1)
    qed
    have pq: "unat p < unat ?q" "unat ?q \<le> unat e"
      using 1(4,5) region_ok_less [OF wf] q by simp_all
    have al: "is_page_aligned ?q"
      using wf by (simp add: page_aligned_dvd q region_ok_def)
    have cov: "\<forall>b. unat ?q \<le> unat b \<and> unat b < unat e \<longrightarrow> view ?mm2 b \<noteq> None"
      using less.prems(6) pq unfolding v2 seal_cells_dom by auto
    have "\<exists>mm'. seal_loop h ?q e ?mm2 = Some mm' \<and> mm_inv mm' \<and> small_regions mm' \<and> same_brk ?mm2 mm'
      \<and> view mm' = seal_cells (unat ?q) (unat e) (view ?mm2)"
      using pq u(1,3) sm1 less.prems(4,5) al cov by (intro less.hyps) auto
    then obtain mm' where mm': "seal_loop h ?q e ?mm2 = Some mm'" "mm_inv mm'" "small_regions mm'" "same_brk ?mm2 mm'"
        "view mm' = seal_cells (unat ?q) (unat e) (view ?mm2)"
      by blast
    have "seal_loop h p e mm = Some mm'"
      using True fi 1(1) mm'(1) by (subst seal_loop.simps) (simp add: Let_def)
    moreover have "view mm' = seal_cells (unat p) (unat e) (view mm)"
      using pq by (simp add: mm'(5) v2 seal_cells_join)
    ultimately show ?thesis
      using mm' b1 same_brk_trans [OF b1 same_brk_trans [OF upd_region_sel(4) mm'(4)]] by blast
  qed
qed

section \<open>do\_mmap\<close>

lemma nroundup_shift: "0 < y \<Longrightarrow> nroundup (y * k + x) y = y * k + nroundup x y"
proof -
  assume y: "0 < y"
  then have "y * k + x + y - 1 = (x + y - 1) + k * y" by (simp add: algebra_simps)
  then have "(y * k + x + y - 1) div y = (x + y - 1) div y + k"
    using y div_mult_self1 [of y "x + y - 1" k] by simp
  then show ?thesis
    unfolding nroundup_def by (simp only: add_mult_distrib mult.commute [of k y] add.commute)
qed

definition mapped_range :: "nat \<Rightarrow> nat \<Rightarrow> (gaddr \<Rightarrow> 'a option) \<Rightarrow> bool" where
  "mapped_range lo hi v \<longleftrightarrow> (\<forall>b. lo \<le> unat b \<and> unat b < hi \<longrightarrow> v b \<noteq> None)"

lemma sys_mseal_ok:
  assumes inv: "vm_inv st" and sm: "small_regions (vm_mm st)" and al: "is_page_aligned a" and len: "0 < len"
    and top: "unat a + nroundup (unat len) 0x1000 < 2 ^ 63"
  shows "if mapped_range (unat a) (unat a + nroundup (unat len) 0x1000) (view (vm_mm st))
    then \<exists>st'. sys_mseal h a len 0 st = Some (Inr (), st') \<and> vm_inv st' \<and> small_regions (vm_mm st')
        \<and> view (vm_mm st') = seal_cells (unat a) (unat a + nroundup (unat len) 0x1000) (view (vm_mm st))
    else sys_mseal h a len 0 st = Some (Inl LINUX_ENOMEM, st)"
proof -
  let ?n = "nroundup (unat len) 0x1000"
  have mi: "mm_inv (vm_mm st)" using inv by (simp add: vm_inv_def)
  have ge: "unat len \<le> ?n" by (simp add: nroundup_ge)
  have ua: "unat (a + len) = unat a + unat len"
    using top ge by (simp add: unat_word_ariths)
  define e where "e = roundup (a + len) PAGE_SIZE"
  obtain k where k: "unat a = 0x1000 * k" using al by (auto simp: page_aligned_dvd elim!: dvdE)
  have "unat e = nroundup (unat (a + len)) 0x1000"
    unfolding e_def by (rule roundup_page) (use top ge ua in simp)
  also have "\<dots> = unat a + ?n"
    by (simp add: ua k nroundup_shift)
  finally have ue: "unat e = unat a + ?n" .
  have ale: "is_page_aligned e" using al by (simp add: page_aligned_dvd ue nroundup_def)
  have body: "sys_mseal h a len 0 st =
    do { covered \<leftarrow> range_covered (vm_mm st) a e;
         if covered then do { mm \<leftarrow> seal_loop h a e (vm_mm st); Some (Inr (), st\<lparr> vm_mm := mm \<rparr>) }
         else Some (Inl LINUX_ENOMEM, st) }"
  proof -
    have "len \<noteq> 0" "\<not> a + len < a" using len ua by (auto simp: word_less_nat_alt)
    then show ?thesis
      using al unfolding sys_mseal_def is_page_aligned_def e_def Let_def by simp
  qed
  have e63: "unat e < 2 ^ 63" using ue top by simp
  show ?thesis
  proof (cases "mapped_range (unat a) (unat e) (view (vm_mm st))")
    case True
    then have cov: "\<forall>b. unat a \<le> unat b \<and> unat b < unat e \<longrightarrow> view (vm_mm st) b \<noteq> None"
      by (simp add: mapped_range_def)
    from seal_loop_ok [OF mi sm al ale e63 cov, of h] obtain mm' where
      mm': "seal_loop h a e (vm_mm st) = Some mm'" "mm_inv mm'" "small_regions mm'"
        "view mm' = seal_cells (unat a) (unat e) (view (vm_mm st))"
      by blast
    have "vm_inv (st\<lparr> vm_mm := mm' \<rparr>)"
      by (rule vm_inv_relabel [OF inv mm'(2)]) (simp add: mm'(4) seal_cells_relabels)
    then show ?thesis
      using mm' range_covered_ok [OF mi, of a e] cov True by (simp add: body ue)
  next
    case False
    then have "range_covered (vm_mm st) a e = Some False"
      by (simp only: range_covered_ok [OF mi] mapped_range_def)
    then show ?thesis using False by (simp add: body ue)
  qed
qed

lemma alloc_keeps:
  assumes "arena_inv a" "arena_alloc fd ok (Some p) n a = Some (p', off, a')"
    "fresh_at p (nroundup n ARENA_GRANULE) a"
  shows "arena_hva_of x (arena_spans a) = Some y \<Longrightarrow> arena_hva_of x (arena_spans a') = Some y"
    "arena_hva_of x (arena_spans a) = Some y \<Longrightarrow> x < off"
    "k < nroundup n ARENA_GRANULE \<Longrightarrow> arena_hva_of (off + k) (arena_spans a') = Some (p + k)"
    "k < nroundup n ARENA_GRANULE \<Longrightarrow> arena_offset_of (p + k) (arena_spans a') = Some (off + k)"
    "arena_inv a'" "p' = p"
proof -
  note m = arena_alloc_inv [OF assms]
  show inv': "arena_inv a'" "p' = p" using m by blast+
  have o: "one_to_one (table (arena_spans a))" "one_to_one (table (arena_spans a'))"
    using assms(1) inv' by (simp_all add: arena_inv_def)
  have t: "table (arena_spans a') = table (arena_spans a) \<union> {(off + k, p + k, False) | k. k < nroundup n ARENA_GRANULE}"
    using m by blast
  show "arena_hva_of x (arena_spans a) = Some y \<Longrightarrow> arena_hva_of x (arena_spans a') = Some y"
    unfolding hva_of_iff [OF o(1)] hva_of_iff [OF o(2)] t by blast
  show "k < nroundup n ARENA_GRANULE \<Longrightarrow> arena_hva_of (off + k) (arena_spans a') = Some (p + k)"
    unfolding hva_of_iff [OF o(2)] t by blast
  show "k < nroundup n ARENA_GRANULE \<Longrightarrow> arena_offset_of (p + k) (arena_spans a') = Some (off + k)"
    unfolding offset_of_iff [OF o(2)] t by blast
  show "x < off" if x: "arena_hva_of x (arena_spans a) = Some y"
  proof -
    have "arena_spans a \<noteq> []" using x by auto
    then have "\<not> arena_backing_fd a < 0" using assms(1) by (auto simp: arena_inv_def)
    then have "arena_brk a \<le> off" using m by simp
    moreover have "x < arena_brk a" using x assms(1) unfolding hva_of_iff [OF o(1)] arena_inv_def by blast
    ultimately show ?thesis by simp
  qed
qed

text \<open>A larger arena in which every old offset is where it was.\<close>

lemma vm_inv_arena:
  assumes "vm_inv st" "arena_inv a'"
    and "\<And>x y. arena_hva_of x (arena_spans (vm_arena st)) = Some y \<Longrightarrow> arena_hva_of x (arena_spans a') = Some y"
  shows "vm_inv (st\<lparr> vm_arena := a' \<rparr>)"
proof -
  have "backed (st\<lparr> vm_arena := a' \<rparr>)"
    unfolding backed_def
  proof (intro allI impI)
    fix b c x
    assume "view (vm_mm (st\<lparr> vm_arena := a' \<rparr>)) b = Some c" "c_arena c = Some x"
    then have "map_option of_nat (arena_hva_of (nat x) (arena_spans (vm_arena st))) = Some (c_haddr c)"
      using assms(1) by (simp add: vm_inv_def backed_def)
    then obtain y where "arena_hva_of (nat x) (arena_spans (vm_arena st)) = Some y" "of_nat y = c_haddr c"
      by auto
    then show "map_option of_nat (arena_hva_of (nat x) (arena_spans (vm_arena (st\<lparr> vm_arena := a' \<rparr>)))) = Some (c_haddr c)"
      using assms(3) by simp
  qed
  then show ?thesis using assms(1,2) by (simp add: vm_inv_def)
qed

lemma vm_inv_ops: "vm_inv (st\<lparr> vm_ops := l \<rparr>) = vm_inv st" "vm_inv (emit op st) = vm_inv st"
  by (simp_all add: vm_inv_def backed_def emit_def)

lemma used_below:
  assumes "vm_inv st" "arena_alloc fd ok (Some p) n (vm_arena st) = Some (p', off, a')"
    "fresh_at p (nroundup n ARENA_GRANULE) (vm_arena st)"
  shows "unused st (off + k)"
  unfolding unused_def
proof (intro allI impI notI)
  fix b c assume v: "view (vm_mm st) b = Some c" "c_arena c = Some (int (off + k))"
  then have "map_option of_nat (arena_hva_of (off + k) (arena_spans (vm_arena st))) = Some (c_haddr c)"
    using assms(1) unfolding vm_inv_def backed_def by (metis nat_int)
  then obtain y where "arena_hva_of (off + k) (arena_spans (vm_arena st)) = Some y" by auto
  then show False
    using alloc_keeps(2) [OF _ assms(2,3)] assms(1) by (fastforce simp: vm_inv_def)
qed

text \<open>
  A region put into the table with memory of its own: nothing else uses its part of
  the arena, and the arena has it where the region says.
\<close>

definition own_memory :: "vm \<Rightarrow> mm_region \<Rightarrow> bool" where
  "own_memory st r \<longleftrightarrow> arena_off r < 0 \<or>
     (\<forall>k<unat (msize r). unused st (nat (arena_off r) + k) \<and>
        map_option of_nat (arena_hva_of (nat (arena_off r) + k) (arena_spans (vm_arena st))) = Some (haddr r + of_nat k))"

lemma word_diff_nat: "unat (a :: u64) \<le> unat b \<Longrightarrow> b - a = of_nat (unat b - unat a)"
  by (simp add: of_nat_diff)

lemma own_cell:
  assumes "in_region r b" "c_arena (cell_of r b) = Some x"
  shows "\<exists>k<unat (msize r). k = unat b - rlo r \<and> 0 \<le> arena_off r \<and> x = arena_off r + int k
    \<and> c_haddr (cell_of r b) = haddr r + of_nat k"
proof -
  let ?k = "unat b - rlo r"
  have le: "rlo r \<le> unat b" and lt: "unat b < rhi r" using assms(1) by (simp_all add: in_region_def)
  have "c_haddr (cell_of r b) = haddr r + (b - gaddr r)" by (simp add: cell_of_def)
  also have "b - gaddr r = of_nat ?k" unfolding rlo_def by (rule word_diff_nat) (use le in \<open>simp add: rlo_def\<close>)
  finally have "c_haddr (cell_of r b) = haddr r + of_nat ?k" .
  moreover have "?k < unat (msize r)" using le lt unfolding rlo_def rhi_def by linarith
  moreover have "0 \<le> arena_off r" "x = arena_off r + int ?k"
    using assms(2) by (simp_all add: cell_of_def split: if_splits)
  ultimately show ?thesis by blast
qed

lemma vm_inv_add:
  assumes inv: "vm_inv st" and mm': "mm_inv mm'" and own: "own_memory st r"
    and v: "\<And>b. view mm' b = (if in_region r b then Some (cell_of r b) else view (vm_mm st) b)"
  shows "vm_inv (st\<lparr> vm_mm := mm' \<rparr>)"
proof -
  have ba: "backed st" and un: "unshared (view (vm_mm st))"
    using inv by (simp_all add: vm_inv_def)
  have mine: "map_option of_nat (arena_hva_of (nat x) (arena_spans (vm_arena st))) = Some (c_haddr (cell_of r b))
      \<and> unused st (nat x)" if b: "in_region r b" "c_arena (cell_of r b) = Some x" for b x
  proof -
    obtain k where k: "k < unat (msize r)" "0 \<le> arena_off r" "x = arena_off r + int k"
        "c_haddr (cell_of r b) = haddr r + of_nat k"
      using own_cell [OF b] by blast
    have "nat x = nat (arena_off r) + k" using k(2,3) by simp
    then show ?thesis using own k unfolding own_memory_def by auto
  qed
  have "backed (st\<lparr> vm_mm := mm' \<rparr>)"
    using ba mine unfolding backed_def by (auto simp: v split: if_splits)
  moreover have "unshared (view mm')"
    unfolding unshared_def
  proof (intro allI impI)
    fix b b' c c' x
    assume c: "view mm' b = Some c" "view mm' b' = Some c'" and x: "c_arena c = Some x" "c_arena c' = Some x"
    have old: "\<not> unused st (nat x)" if "view (vm_mm st) d = Some cc" "c_arena cc = Some x" for d cc
      using that view_arena_nonneg [OF that] by (auto simp: unused_def)
    show "b = b'"
    proof (cases "in_region r b")
      case True
      then have cb: "c_arena (cell_of r b) = Some x" using c(1) x(1) by (simp add: v)
      then have b': "in_region r b'" "c_arena (cell_of r b') = Some x"
        using mine [OF True cb] old [of b' c'] c(2) x(2) by (auto simp: v split: if_splits)
      have "unat b - rlo r = unat b' - rlo r"
        using own_cell [OF True cb] own_cell [OF b'] by auto
      then have "unat b = unat b'" using True b'(1) unfolding in_region_def by linarith
      then show ?thesis by (rule unsigned_word_eqI)
    next
      case False
      then have b: "view (vm_mm st) b = Some c" using c(1) by (simp add: v)
      have "\<not> in_region r b'"
        using mine [of b' x] old [OF b x(1)] c(2) x(2) by (auto simp: v)
      then have "view (vm_mm st) b' = Some c'" using c(2) by (simp add: v)
      then show ?thesis using un b x unfolding unshared_def by blast
    qed
  qed
  ultimately show ?thesis using inv mm' by (simp add: vm_inv_def)
qed

lemma reopen_sel:
  assumes "reopen io q st = (fd, st')"
  shows "vm_mm st' = vm_mm st" "vm_arena st' = vm_arena st"
  using assms by (auto simp: reopen_def Let_def split: if_splits)

lemma close_if_sel [simp]: "vm_mm (close_if fd st) = vm_mm st" "vm_arena (close_if fd st) = vm_arena st"
  by (simp_all add: close_if_def)

lemma vm_inv_cong: "vm_mm st' = vm_mm st \<Longrightarrow> vm_arena st' = vm_arena st \<Longrightarrow> vm_inv st' = vm_inv st"
  by (simp add: vm_inv_def backed_def)

definition host_fresh :: "mmap_io \<Rightarrow> nat \<Rightarrow> vm \<Rightarrow> bool" where
  "host_fresh io n st \<longleftrightarrow> (\<forall>p. io_map_arena io = Some p \<longrightarrow> fresh_at p (nroundup n ARENA_GRANULE) (vm_arena st))"

lemma arena_unmap_new:
  assumes "arena_inv a'" "arena_offset_of p (arena_spans a') = Some off" "\<not> (off \<le> x \<and> x < off + nroundup n ARENA_GRANULE)"
  shows "arena_hva_of x (arena_spans (arena_unmap p n a')) = arena_hva_of x (arena_spans a')"
proof -
  have o: "one_to_one (table (arena_spans a'))" "one_to_one (table (arena_spans (arena_unmap p n a')))"
    using assms(1) arena_unmap_inv [OF assms(1), of p n] by (simp_all add: arena_inv_def)
  have "arena_hva_of x (arena_spans (arena_unmap p n a')) = Some y \<longleftrightarrow> arena_hva_of x (arena_spans a') = Some y" for y
    unfolding hva_of_iff [OF o(1)] hva_of_iff [OF o(2)] using assms(2,3)
    by (simp add: arena_unmap_def arena_span_forget_addr_def forget_table keep_outside_def)
  then show ?thesis by (metis not_Some_eq)
qed

lemma mmap_backing_ok:
  assumes inv: "vm_inv st" and pos: "0 < unat (q_len q)" and fresh: "host_fresh io (unat (q_len q)) st"
    and b: "mmap_backing io q st = Some (r, st')"
  shows "vm_inv st' \<and> vm_mm st' = vm_mm st \<and>
    (\<forall>p off owned. r = Inr (p, off, owned) \<longrightarrow> off < 0 \<or>
      (\<forall>k<unat (q_len q). unused st' (nat off + k) \<and>
         map_option of_nat (arena_hva_of (nat off + k) (arena_spans (vm_arena st'))) = Some (p + of_nat k)))"
proof -
  obtain fd st0 where re: "reopen io q st = (fd, st0)" by fastforce
  note s0 = reopen_sel [OF re]
  have ai: "arena_inv (vm_arena st)" using inv by (simp add: vm_inv_def)
  show ?thesis
  proof (cases "reserve_only q \<or> wants_shared q \<and> (fd_writable io (q_fd q) \<or> fd \<ge> 0)")
    case True
    then have "vm_mm st' = vm_mm st \<and> vm_arena st' = vm_arena st
        \<and> (\<forall>p off owned. r = Inr (p, off, owned) \<longrightarrow> off < 0)"
      using b re s0 by (auto simp: mmap_backing_def split: if_splits sum.splits)
    then show ?thesis using inv vm_inv_cong [of st' st] by blast
  next
    case False
    then have al': "\<exists>p off a. arena_alloc (io_mkstemp io) (io_ftruncate io) (io_map_arena io) (unat (q_len q)) (vm_arena st)
        = Some (p, off, a)"
      using b re s0 by (auto simp: mmap_backing_def Let_def bind_eq_Some_conv)
    then obtain p off a where al: "arena_alloc (io_mkstemp io) (io_ftruncate io) (Some p) (unat (q_len q)) (vm_arena st)
        = Some (p, off, a)" and mp: "io_map_arena io = Some p"
      by (auto simp: arena_alloc_def Let_def split: option.splits)
    have fr: "fresh_at p (nroundup (unat (q_len q)) ARENA_GRANULE) (vm_arena st)"
      using fresh mp by (simp add: host_fresh_def)
    note k = alloc_keeps [OF ai al fr]
    have ge: "unat (q_len q) \<le> nroundup (unat (q_len q)) ARENA_GRANULE" by (simp add: nroundup_ge)
    have inv1: "vm_inv (st\<lparr> vm_arena := a \<rparr>)" by (rule vm_inv_arena [OF inv k(5,1)])
    have un: "unused (st\<lparr> vm_arena := a \<rparr>) (off + j)" for j
      using used_below [OF inv al fr, of j] by (simp add: unused_def)
    let ?b = "arena_free off (unat (q_len q)) (arena_unmap p (unat (q_len q)) a)"
    have "arena_offset_of p (arena_spans a) = Some off" using k(4) [of 0] pos ge by simp
    then have "arena_hva_of x (arena_spans ?b) = Some y" if "arena_hva_of x (arena_spans (vm_arena st)) = Some y" for x y
      using k(1,2) [OF that] arena_unmap_new [OF k(5), of p off x] arena_free_outside [OF arena_unmap_inv [OF k(5)], of off x]
      by simp
    then have inv2: "vm_inv (st\<lparr> vm_arena := ?b \<rparr>)"
      by (intro vm_inv_arena [OF inv] arena_free_inv arena_unmap_inv k(5))
    have cases: "vm_mm st' = vm_mm st \<and> (vm_arena st' = a \<and> r = Inr (of_nat p, int off, -1) \<or> vm_arena st' = ?b \<and> (\<exists>e. r = Inl e))"
      using b re s0 False al mp by (auto simp: mmap_backing_def Let_def split: if_splits option.splits)
    then consider "vm_mm st' = vm_mm st" "vm_arena st' = a" "r = Inr (of_nat p, int off, -1)"
      | "vm_mm st' = vm_mm st" "vm_arena st' = ?b" "\<exists>e. r = Inl e" by blast
    then show ?thesis
    proof cases
      case 1
      have "vm_inv st'" using inv1 vm_inv_cong [of st' "st\<lparr> vm_arena := a \<rparr>"] 1 by simp
      moreover have "unused st' x = unused (st\<lparr> vm_arena := a \<rparr>) x" for x using 1 by (simp add: unused_def)
      ultimately show ?thesis using 1 un k(3) ge by simp
    next
      case 2
      have "vm_inv st'" using inv2 vm_inv_cong [of st' "st\<lparr> vm_arena := ?b \<rparr>"] 2 by simp
      then show ?thesis using 2 by auto
    qed
  qed
qed

lemma roundup_dvd: "0x1000 dvd unat (roundup len GUEST_MMAP_GRANULE)"
proof -
  let ?q = "(0xfff + len) div (0x1000 :: u64)"
  have r: "roundup len GUEST_MMAP_GRANULE = ?q * 0x1000" by (simp add: roundup_def)
  have "unat ?q = unat (0xfff + len) div 0x1000" by (simp add: unat_div)
  moreover have "unat (0xfff + len) div 0x1000 * 0x1000 < 2 ^ 64"
    by (rule le_less_trans [OF div_times_less_eq_dividend])
       (use unsigned_less [of "0xfff + len", where ?'a = nat] in simp)
  ultimately have "unat ?q * unat (0x1000 :: u64) < 2 ^ LENGTH(64)" by simp
  then have "unat (?q * 0x1000) = unat ?q * unat (0x1000 :: u64)" using unat_mult_lem by blast
  then show ?thesis unfolding r by simp
qed

lemma mmap_args_len: "q_len (mmap_args io q) = roundup (q_len q) GUEST_MMAP_GRANULE"
  by (simp add: mmap_args_def Let_def)

lemma mmap_place_same:
  assumes "mmap_place q mm = (addr, mm')"
  shows "mm_inv mm' = mm_inv mm" "view mm' = view mm" "small_regions mm' = small_regions mm"
proof -
  have "mm_regions mm' = mm_regions mm \<and> mm_store mm' = mm_store mm \<and> mm_region_tree mm' = mm_region_tree mm
      \<and> mm_next mm' = mm_next mm"
    using assms by (auto simp: mmap_place_def alloc_region_def Let_def split: if_splits)
  then show "mm_inv mm' = mm_inv mm" "view mm' = view mm" "small_regions mm' = small_regions mm"
    by (simp_all add: mm_inv_def small_regions_def view_def [abs_def] find_region_def [abs_def] cmp_in_def [abs_def])
qed

text \<open>The region a mapping leaves in the table, and the view with it in place of what was there.\<close>

definition mapped_region :: "mmap_req \<Rightarrow> gaddr \<Rightarrow> u64 \<Rightarrow> int \<Rightarrow> int \<Rightarrow> mm_region" where
  "mapped_region q addr p off owned =
     (new_region p addr (q_len q) (q_prot q) (q_flags q) (if owned \<ge> 0 then owned else q_fd q) (q_off q))
       \<lparr> arena_off := off, owns_fd := owned \<ge> 0, reserved := reserve_only q \<rparr>"

definition map_over :: "mm_region \<Rightarrow> (gaddr \<Rightarrow> cell option) \<Rightarrow> gaddr \<Rightarrow> cell option" where
  "map_over r v = (\<lambda>b. if in_region r b then Some (cell_of r b) else v b)"

lemma mapped_region_sel [simp]:
  "rlo (mapped_region q addr p off owned) = unat addr"
  "rhi (mapped_region q addr p off owned) = unat addr + unat (q_len q)"
  "msize (mapped_region q addr p off owned) = q_len q" "haddr (mapped_region q addr p off owned) = p"
  "arena_off (mapped_region q addr p off owned) = off"
  by (simp_all add: mapped_region_def new_region_def rlo_def rhi_def)

lemma do_mmap_ok:
  assumes inv: "vm_inv st" and sm: "small_regions (vm_mm st)"
    and al0: "q_addr q0 AND 0xfff = 0" and q: "q = mmap_args io q0" and known: "q_flags q AND NOT mmap_known = 0"
    and place: "mmap_place q (vm_mm st) = (addr, mm)"
    and addr: "addr \<noteq> 0" "is_page_aligned addr"
    and len: "0 < unat (q_len q)" "unat (q_len q) \<le> 2 ^ 31" "unat addr + unat (q_len q) < 2 ^ 63"
    and fresh: "host_fresh io (unat (q_len q)) st"
    and bck: "mmap_backing io q (st\<lparr> vm_mm := mm \<rparr>) = Some (b, st1)"
  shows "\<exists>r st'. do_mmap io q0 st = Some (r, st') \<and> vm_inv st' \<and> small_regions (vm_mm st')
    \<and> (case b of
         Inl e \<Rightarrow> r = Inl e \<and> view (vm_mm st') = view (vm_mm st)
       | Inr (p, off, owned) \<Rightarrow>
           (r = Inr addr \<or> (\<exists>e. r = Inl e \<and> io_binder_mmap io = Some e)) \<and>
           view (vm_mm st') = map_over (mapped_region q addr p off owned) (view (vm_mm st)))"
proof -
  let ?st0 = "st\<lparr> vm_mm := mm \<rparr>"
  note pl = mmap_place_same [OF place]
  have inv0: "vm_inv ?st0" using inv by (simp add: vm_inv_def backed_def pl)
  have "host_fresh io (unat (q_len q)) ?st0" using fresh by (simp add: host_fresh_def)
  note bk = mmap_backing_ok [OF inv0 len(1) this bck]
  have inv1: "vm_inv st1" and mm1: "vm_mm st1 = mm" using bk by simp_all
  have sm1: "small_regions (vm_mm st1)" using sm by (simp add: mm1 pl)
  have pre: "do_mmap io q0 st = (case b of Inl e \<Rightarrow> Some (Inl e, st1) | Inr (p, off, owned) \<Rightarrow> z p off owned)"
    if "\<And>p off owned. b = Inr (p, off, owned) \<Longrightarrow> do_mmap io q0 st = z p off owned" for z
    using al0 known place bck that by (cases b) (auto simp: do_mmap_def q [symmetric] Let_def)
  show ?thesis
  proof (cases b)
    case (Inl e)
    then show ?thesis
      using pre [of "\<lambda>_ _ _. do_mmap io q0 st"] inv1 sm1 by (simp add: mm1 pl)
  next
    case (Inr t)
    obtain p off owned where t: "t = (p, off, owned)" by (metis prod_cases3)
    let ?r = "mapped_region q addr p off owned"
    have d: "0x1000 dvd unat (q_len q)" by (simp add: q mmap_args_len roundup_dvd)
    then have ex: "nroundup (unat (q_len q)) 0x1000 = unat (q_len q)" by (simp add: nroundup_exact)
    have l64: "unat (q_len q) + 0xfff < 2 ^ 64" using len(2) by simp
    obtain mr st2 where m: "do_munmap (io_host io) addr (q_len q) st1 = Some (mr, st2)"
        "unmapped st1 (unat addr) (unat addr + unat (q_len q)) mr st2"
      using do_munmap_ok [OF inv1 sm1 addr(2), of "q_len q" "io_host io"] len(1,3) l64
      by (auto simp: ex word_less_nat_alt)
    have inv2: "vm_inv st2" and sp: "spares st1 st2" and sm2: "small_regions (vm_mm st2)"
      and v2: "view (vm_mm st2) = without (unat addr) (unat addr + unat (q_len q)) (view (vm_mm st))"
      using m(2) by (simp_all add: unmapped_def mm1 pl)
    have mi2: "mm_inv (vm_mm st2)" using inv2 by (simp add: vm_inv_def)
    let ?n = "new_region p addr (q_len q) (q_prot q) (q_flags q) (if owned \<ge> 0 then owned else q_fd q) (q_off q)"
    let ?i = "mm_next (vm_mm st2)"
    have ok: "region_ok ?n"
      using len addr(2) d by (intro region_okI) (simp_all add: page_aligned_dvd)
    have "free_range (unat addr) (unat addr + unat (q_len q)) (view (vm_mm st2))"
      by (auto simp: free_range_def v2 without_def)
    then have free: "\<forall>i\<in>set (mm_regions (vm_mm st2)). \<not> overlaps (mm_store (vm_mm st2) i) (rlo ?n) (rhi ?n)"
      using len(1) free_range_overlaps [OF mi2, of "unat addr" "unat addr + unat (q_len q)"] by simp
    obtain mm3 where rec: "record_region (vm_mm st2) p addr (q_len q) (q_prot q) (q_flags q)
          (if owned \<ge> 0 then owned else q_fd q) (q_off q) = Some (mm3, ?i)" "mm_inv mm3"
        "set (mm_regions mm3) = insert ?i (set (mm_regions (vm_mm st2)))"
        "mm_store mm3 = (mm_store (vm_mm st2))(?i := ?n)"
      using record_region_ok [OF mi2 addr(1) refl ok free] by blast
    have v3: "view mm3 x = (if in_region ?n x then Some (cell_of ?n x) else view (vm_mm st2) x)" for x
      by (rule record_region_view [OF mi2 addr(1) refl ok free rec(1)])
    let ?f = "\<lambda>r. r\<lparr> arena_off := off, owns_fd := owned \<ge> 0, reserved := reserve_only q \<rparr>"
    define mm4 where "mm4 = upd_region ?i ?f mm3"
    have i3: "?i \<in> set (mm_regions mm3)" "mm_store mm3 ?i = ?n" using rec(3,4) by simp_all
    note u = upd_region_ok [OF rec(2) i3(1), of ?f, folded mm4_def]
    have in_r: "in_region ?r x \<longleftrightarrow> in_region ?n x" for x by (simp add: in_region_def)
    have v4: "view mm4 x = (if in_region ?r x then Some (cell_of ?r x) else view (vm_mm st2) x)" for x
      using u(2) [of x] v3 [of x] in_r [of x] by (simp add: i3(2) mapped_region_def)
    have v4': "view mm4 = map_over ?r (view (vm_mm st))"
      by (rule ext) (simp add: v4 v2 map_over_def without_def in_region_def)
    have "small_regions mm3"
      using sm2 rec(3,4) len(2) mm_invD(4) [OF mi2]
      by (auto simp: small_regions_def small_region_def)
    then have sm4: "small_regions mm4" using u(3) by simp
    have "own_memory st2 ?r"
      using bk sp Inr t unfolding own_memory_def spares_def by auto
    then have inv4: "vm_inv (st2\<lparr> vm_mm := mm4 \<rparr>)"
      using u(1) by (intro vm_inv_add [OF inv2 _ _ v4]) simp_all
    define st4 where "st4 = mmap_announce q addr p (st2\<lparr> vm_mm := mm4 \<rparr>)"
    have st4: "vm_mm st4 = mm4" "vm_inv st4"
      using inv4 by (simp_all add: st4_def mmap_announce_def Let_def vm_inv_ops)
    have "do_mmap io q0 st = Some (if q_fd q0 \<ge> 0 \<and> io_binder_is io (q_fd q0)
        then (case io_binder_mmap io of Some e \<Rightarrow> Inl e | None \<Rightarrow> Inr addr) else Inr addr, st4)"
      using al0 known place bck Inr t m(1) rec(1)
      by (simp add: do_mmap_def q [symmetric] st4_def mm4_def)
    then show ?thesis
      using st4 v4' sm4 by (auto simp: Inr t split: option.splits)
  qed
qed

section \<open>Seals\<close>

definition sealed_in :: "nat \<Rightarrow> nat \<Rightarrow> (gaddr \<Rightarrow> cell option) \<Rightarrow> bool" where
  "sealed_in lo hi v \<longleftrightarrow> (\<exists>b c. lo \<le> unat b \<and> unat b < hi \<and> v b = Some c \<and> c_sealed c)"

lemma range_is_sealed_view:
  assumes inv: "mm_inv mm" and s: "0 < unat s" "unat a + unat s < 2 ^ 64"
  shows "range_is_sealed a s mm \<longleftrightarrow> sealed_in (unat a) (unat a + unat s) (view mm)"
proof -
  have us: "unat (a + s) = unat a + unat s" using s(2) by (simp add: unat_word_ariths)
  have eq: "seals (mm_store mm i) a s \<longleftrightarrow> sealed (mm_store mm i) \<and> overlaps (mm_store mm i) (unat a) (unat a + unat s)"
    if "i \<in> set (mm_regions mm)" for i
    using region_end [OF mm_invD(5) [OF inv that]]
    by (auto simp: seals_def overlaps_def word_less_nat_alt us rlo_def)
  show ?thesis
  proof
    assume "range_is_sealed a s mm"
    then obtain i where i: "i \<in> set (mm_regions mm)" "sealed (mm_store mm i)"
        "overlaps (mm_store mm i) (unat a) (unat a + unat s)"
      using eq by (auto simp: range_is_sealed_def list_ex_iff)
    then show "sealed_in (unat a) (unat a + unat s) (view mm)"
      using overlap_address [OF inv i(1,3)] s(1) by (fastforce simp: sealed_in_def cell_of_def)
  next
    assume "sealed_in (unat a) (unat a + unat s) (view mm)"
    then obtain b i where "unat a \<le> unat b" "unat b < unat a + unat s" and i: "i \<in> set (mm_regions mm)"
        "in_region (mm_store mm i) b" "sealed (mm_store mm i)"
      by (auto simp: sealed_in_def view_Some [OF inv] cell_of_def)
    then have "seals (mm_store mm i) a s" using eq [OF i(1)] by (auto simp: overlaps_def in_region_def)
    then show "range_is_sealed a s mm" using i(1) by (auto simp: range_is_sealed_def list_ex_iff)
  qed
qed

lemma roundup_pos: "0 < len \<Longrightarrow> unat len + 0xfff < 2 ^ 64 \<Longrightarrow> 0 < unat (roundup len GUEST_MMAP_GRANULE)"
  using nroundup_ge [of "0x1000" "unat len"] by (simp add: roundup_page word_less_nat_alt)

section \<open>A small address space\<close>

definition quiet_host :: host where
  "quiet_host = \<lparr> h_dup = (\<lambda>fd. -1), h_junk = False \<rparr>"

definition quiet_io :: "nat \<Rightarrow> mmap_io" where
  "quiet_io p = \<lparr> io_host = quiet_host, io_mkstemp = 3, io_ftruncate = True, io_map_arena = Some p,
     io_getfl = (\<lambda>_. -1), io_getpath = (\<lambda>_. False), io_open_rw = (\<lambda>_. -1), io_same_file = (\<lambda>_ _. False),
     io_map_shared = Inl LINUX_EINVAL, io_pread = None, io_binder_is = (\<lambda>_. False), io_binder_mmap = None \<rparr>"

definition anon_req :: "gaddr \<Rightarrow> u64 \<Rightarrow> u32 \<Rightarrow> mmap_req" where
  "anon_req a n fl = \<lparr> q_addr = a, q_len = n, q_prot = 3, q_flags = fl OR 0x22, q_fd = -1, q_off = 0 \<rparr>"

definition start_vm :: vm where
  "start_vm = \<lparr> vm_mm = init_mm, vm_arena = arena_start, vm_ops = [] \<rparr>"


definition sample_region :: mm_region where
  "sample_region = \<lparr> haddr = 0x100000, arena_off = 0, gaddr = 0x10000, msize = 0x30000, prot = 3, sealed = False,
     mm_flags = 0x32, mm_fd = -1, reserved = False, owns_fd = False, shm_id = -1, pgoff = 0, is_global = False \<rparr>"

definition sample_vm :: vm where
  "sample_vm = \<lparr> vm_mm = init_mm\<lparr> mm_store := (mm_store init_mm)(0 := sample_region), mm_next := 1,
       mm_region_tree := Elm Null RB_BLACK 0 Null, mm_regions := [0] \<rparr>,
     vm_arena = \<lparr> arena_backing_fd = 3, arena_brk = 0x30000, arena_capacity = 0x400000,
       arena_spans = [\<lparr> sp_addr = 0x100000, sp_size = 0x30000, sp_off = 0, sp_priv = False \<rparr>] \<rparr>,
     vm_ops = [Vmm_mmap 0x10000 0x30000 3 0x100000] \<rparr>"

lemmas vm_eval = init_mm_def arena_start_def start_vm_def quiet_io_def quiet_host_def anon_req_def
  sys_mmap_def do_mmap_def mmap_args_def mmap_ignored_def mmap_known_def mmap_place_def mmap_backing_def reopen_def
  reserve_only_def wants_shared_def fd_writable_def close_if_def arena_alloc_def arena_init_def arena_grow_def
  nroundup_def arena_span_record_def do_munmap_def is_page_aligned_def roundup_def find_region_range_def
  record_region_def rb_insert_def emit_def linux_mprot_to_hv_mflag_def bit_if_def new_region_def range_is_sealed_def rb_prev_def mmap_announce_def upd_region_def Let_def

lemma sample_vm_mapped: "sys_mmap (quiet_io 0x100000) (anon_req 0x10000 0x30000 0x10) start_vm = Some (Inr 0x10000, sample_vm)"
  by (simp add: vm_eval sample_vm_def sample_region_def)

lemma roundup_wrapping: "roundup (- 0x7000) GUEST_MMAP_GRANULE = (- 0x7000 :: u64)"
  by (simp add: roundup_def)


lemma init_view [simp]: "view init_mm b = None"
  by (simp add: view_def find_region_def init_mm_def)

lemma start_vm_inv: "vm_inv start_vm"
  by (simp add: start_vm_def vm_inv_def init_mm_inv arena_inv_def arena_start_def one_to_one_def backed_def unshared_def)

lemma sample_vm_inv: "vm_inv sample_vm" and sample_vm_small: "small_regions (vm_mm sample_vm)"
proof -
  let ?io = "quiet_io 0x100000" and ?q0 = "anon_req 0x10000 0x30000 0x10"
  define q where "q = mmap_args ?io ?q0"
  have q: "q = \<lparr> q_addr = 0x10000, q_len = 0x30000, q_prot = 3, q_flags = 0x32, q_fd = -1, q_off = 0 \<rparr>"
    by (simp add: q_def vm_eval)
  have pl: "mmap_place q (vm_mm start_vm) = (0x10000, init_mm)"
    by (simp add: q mmap_place_def start_vm_def)
  have "\<exists>st1. mmap_backing ?io q (start_vm\<lparr> vm_mm := init_mm \<rparr>) = Some (Inr (0x100000, 0, -1), st1)"
    by (simp add: q vm_eval)
  then obtain st1 where bk: "mmap_backing ?io q (start_vm\<lparr> vm_mm := init_mm \<rparr>) = Some (Inr (0x100000, 0, -1), st1)" ..
  have "\<exists>r st'. do_mmap ?io ?q0 start_vm = Some (r, st') \<and> vm_inv st' \<and> small_regions (vm_mm st')"
    using do_mmap_ok [OF start_vm_inv _ _ q_def _ pl _ _ _ _ _ _ bk]
    by (simp add: q small_regions_def start_vm_def init_mm_def anon_req_def mmap_known_def is_page_aligned_def
        host_fresh_def fresh_at_def arena_start_def quiet_io_def) blast
  then show "vm_inv sample_vm" "small_regions (vm_mm sample_vm)"
    using sample_vm_mapped by (auto simp: sys_mmap_def anon_req_def range_is_sealed_def start_vm_def init_mm_def)
qed

lemma sample_view: "view (vm_mm sample_vm) b = (if in_region sample_region b then Some (cell_of sample_region b) else None)"
proof -
  have "mm_inv (vm_mm sample_vm)" using sample_vm_inv by (simp add: vm_inv_def)
  then have "view (vm_mm sample_vm) b = Some c \<longleftrightarrow> in_region sample_region b \<and> c = cell_of sample_region b" for c
    by (auto simp: view_Some sample_vm_def)
  then show ?thesis by (metis not_Some_eq)
qed

section \<open>The claims\<close>



text \<open>
  munmap with a length so large that the end of the range wraps around to inside
  the same region does not refuse: it returns success, has stage 2 drop the wrapped
  length, and leaves a region in the list that the tree does not have.
\<close>

theorem sys_munmap_wraps:
  "map_option (\<lambda>(r, st'). (r, inorder (mm_region_tree (vm_mm st')), mm_regions (vm_mm st'), last (vm_ops st')))
     (sys_munmap quiet_host 0x20000 (- 0x7000) sample_vm)
   = Some (Inr (), [0], [0, 2], Vmm_munmap 0x20000 (- 0x7000))"
  by (simp add: sys_munmap_def range_is_sealed_def seals_def do_munmap_def roundup_wrapping sample_vm_def sample_region_def
        init_mm_def is_page_aligned_def find_region_range_def cmp_in_def region_compare_def first_overlap_def,
      subst unmap_loop.simps,
      simp add: region_compare_def region_at_def isolate_def split_region_def is_page_aligned_def split_offset_def
        split_tail_def rb_insert_def cmp_in_def rb_remove_def delete_region_def release_region_def release_memory_def
        Let_def unlink_def emit_def,
      subst unmap_loop.simps, simp add: region_compare_def region_at_def)






end
