(* ===== verification/Mprotect.thy ===== *)
theory Mprotect
  imports Mmap
begin

text \<open>
  Changing the protection of a range (\<^verbatim>\<open>mprotect\<close> and \<^verbatim>\<open>region_materialize\<close> of
  \<^verbatim>\<open>src/mm/mmap.c\<close>): the regions of the range are cut out, a reservation that becomes
  accessible is given memory from the arena, and the pieces are merged again.
\<close>

section \<open>Operations\<close>

text \<open>
  What the host answers while the arena grows.  One call can materialise several
  regions, so the address of the next mapping depends on the arena and the size.
\<close>

record arena_io =
  ai_host :: host
  ai_mkstemp :: int
  ai_ftruncate :: bool
  ai_map :: "arena \<Rightarrow> nat \<Rightarrow> nat option"

text \<open>\<^verbatim>\<open>arena_alloc\<close> panics rather than answer NULL, so the error return of the C function is never taken.\<close>

definition region_materialize :: "arena_io \<Rightarrow> nat \<Rightarrow> u32 \<Rightarrow> vm \<Rightarrow> vm option" where
  "region_materialize io i hvprot st =
     (let r = region_at st i
      in do { (p, off, a) \<leftarrow> arena_alloc (ai_mkstemp io) (ai_ftruncate io) (ai_map io (vm_arena st) (unat (msize r)))
                               (unat (msize r)) (vm_arena st);
              let mm = upd_region i (\<lambda>r. r\<lparr> haddr := of_nat p, arena_off := int off, reserved := False \<rparr>) (vm_mm st);
              Some (emit (Vmm_mmap (gaddr r) (msize r) hvprot (of_nat p)) (st\<lparr> vm_arena := a, vm_mm := mm \<rparr>)) })"

definition protect_region :: "arena_io \<Rightarrow> u32 \<Rightarrow> nat \<Rightarrow> vm \<Rightarrow> vm option" where
  "protect_region io prt i st =
     (let hvprot = linux_mprot_to_hv_mflag prt
      in do { st \<leftarrow> (if reserved (region_at st i) \<and> prt \<noteq> LINUX_PROT_NONE
                     then region_materialize io i hvprot st else Some st);
              let r = region_at st i;
              let st = (if reserved r then st else emit (Vmm_protect (gaddr r) (msize r) prt) st);
              Some (st\<lparr> vm_mm := upd_region i (\<lambda>r. r\<lparr> prot := hvprot \<rparr>) (vm_mm st) \<rparr>) })"

partial_function (option) protect_loop :: "arena_io \<Rightarrow> gaddr \<Rightarrow> u32 \<Rightarrow> nat \<Rightarrow> vm \<Rightarrow> (unit res \<times> vm) option" where
  "protect_loop io e prt i st =
     (let r = region_at st i
      in if gaddr r + msize r \<le> e
         then do { st \<leftarrow> protect_region io prt i st;
                   if gaddr r + msize r = e then Some (Inr (), st)
                   else case list_next i (mm_regions (vm_mm st)) of
                          None \<Rightarrow> Some (Inl LINUX_ENOMEM, st)
                        | Some n \<Rightarrow> if gaddr (region_at st n) \<noteq> gaddr r + msize r then Some (Inl LINUX_ENOMEM, st)
                                    else protect_loop io e prt n st }
         else if gaddr r < e
         then do { mm \<leftarrow> split_region (ai_host io) (vm_mm st) i e;
                   st \<leftarrow> protect_region io prt i (st\<lparr> vm_mm := mm \<rparr>);
                   Some (Inr (), st) }
         else Some (Inr (), st))"

definition merge_at :: "gaddr \<Rightarrow> mm \<Rightarrow> mm option" where
  "merge_at a mm = (case find_region a mm of None \<Rightarrow> Some mm | Some i \<Rightarrow> merge_region mm i)"

definition sys_mprotect :: "arena_io \<Rightarrow> gaddr \<Rightarrow> u64 \<Rightarrow> u32 \<Rightarrow> vm \<Rightarrow> (unit res \<times> vm) option" where
  "sys_mprotect io a len prt st =
     (if \<not> is_page_aligned a \<or> len = 0 then Some (Inl LINUX_EINVAL, st)
      else
        let len = roundup len PAGE_SIZE; e = a + len
        in if range_is_sealed a len (vm_mm st) then Some (Inl LINUX_EPERM, st)
           else case find_region a (vm_mm st) of
                  None \<Rightarrow> Some (Inl LINUX_ENOMEM, st)
                | Some i \<Rightarrow>
                    do { (mm, i) \<leftarrow> (if a > gaddr (region_at st i)
                                     then do { mm \<leftarrow> split_region (ai_host io) (vm_mm st) i a;
                                               j \<leftarrow> list_next i (mm_regions mm);
                                               Some (mm, j) }
                                     else Some (vm_mm st, i));
                         (r, st) \<leftarrow> protect_loop io e prt i (st\<lparr> vm_mm := mm \<rparr>);
                         if r \<noteq> Inr () then Some (r, st)
                         else do { mm \<leftarrow> merge_at a (vm_mm st);
                                   mm \<leftarrow> merge_at (e - 1) mm;
                                   Some (r, st\<lparr> vm_mm := mm \<rparr>) } })"

definition sys_pkey_mprotect :: "arena_io \<Rightarrow> gaddr \<Rightarrow> u64 \<Rightarrow> u32 \<Rightarrow> int \<Rightarrow> vm \<Rightarrow> (unit res \<times> vm) option" where
  "sys_pkey_mprotect io a len prt pkey st =
     (if pkey = -1 then sys_mprotect io a len prt st
      else Some (Inl LINUX_EINVAL, st))"

section \<open>One region\<close>

definition generous :: "arena_io \<Rightarrow> bool" where
  "generous io \<longleftrightarrow> 0 \<le> ai_mkstemp io \<and> ai_ftruncate io
     \<and> (\<forall>a n. \<exists>p. ai_map io a n = Some p \<and> fresh_at p (nroundup n ARENA_GRANULE) a)"

definition same_shape :: "mm \<Rightarrow> mm \<Rightarrow> bool" where
  "same_shape mm mm' \<longleftrightarrow> mm_regions mm' = mm_regions mm
     \<and> (\<forall>j. gaddr (mm_store mm' j) = gaddr (mm_store mm j) \<and> msize (mm_store mm' j) = msize (mm_store mm j))"

lemma same_shape_refl: "same_shape mm mm"
  by (simp add: same_shape_def)

lemma same_shape_trans: "same_shape a b \<Longrightarrow> same_shape b c \<Longrightarrow> same_shape a c"
  by (simp add: same_shape_def)

lemma same_shape_upd: "(\<And>r. gaddr (f r) = gaddr r) \<Longrightarrow> (\<And>r. msize (f r) = msize r) \<Longrightarrow> same_shape mm (upd_region i f mm)"
  by (simp add: same_shape_def upd_region_def)

lemma same_shape_small: "same_shape mm mm' \<Longrightarrow> small_regions mm' = small_regions mm"
  by (simp add: same_shape_def small_regions_def small_region_def rlo_def rhi_def)

text \<open>What may become of a cell: only its protection changes, unless it is a reservation that gets memory.\<close>

definition reprotected :: "u32 \<Rightarrow> cell \<Rightarrow> cell \<Rightarrow> bool" where
  "reprotected prt c c' \<longleftrightarrow>
     (if c_reserved c \<and> prt \<noteq> LINUX_PROT_NONE
      then \<not> c_reserved c' \<and> c_arena c' \<noteq> None \<and> c_prot c' = linux_mprot_to_hv_mflag prt
         \<and> c_flags c' = c_flags c \<and> c_sealed c' = c_sealed c \<and> c_shm c' = c_shm c
      else c' = c\<lparr> c_prot := linux_mprot_to_hv_mflag prt \<rparr>)"

definition protects :: "nat \<Rightarrow> nat \<Rightarrow> u32 \<Rightarrow> (gaddr \<Rightarrow> cell option) \<Rightarrow> (gaddr \<Rightarrow> cell option) \<Rightarrow> bool" where
  "protects lo hi prt v v' \<longleftrightarrow>
     (\<forall>b. if lo \<le> unat b \<and> unat b < hi then rel_option (reprotected prt) (v b) (v' b) else v' b = v b)"

lemma materialize_ok:
  assumes inv: "vm_inv st" and i: "i \<in> set (mm_regions (vm_mm st))" and gen: "generous io"
  shows "\<exists>st' p off. region_materialize io i hv st = Some st' \<and> vm_inv st' \<and> same_shape (vm_mm st) (vm_mm st')
    \<and> region_at st' i = (region_at st i)\<lparr> haddr := of_nat p, arena_off := int off, reserved := False \<rparr>
    \<and> (\<forall>b. \<not> in_region (region_at st i) b \<longrightarrow> view (vm_mm st') b = view (vm_mm st) b)"
proof -
  let ?r = "region_at st i"
  let ?n = "unat (msize ?r)"
  have ai: "arena_inv (vm_arena st)" and mi: "mm_inv (vm_mm st)" using inv by (simp_all add: vm_inv_def)
  obtain p where p: "ai_map io (vm_arena st) ?n = Some p" and fr: "fresh_at p (nroundup ?n ARENA_GRANULE) (vm_arena st)"
    using gen by (auto simp: generous_def)
  have "\<exists>off a. arena_alloc (ai_mkstemp io) (ai_ftruncate io) (Some p) ?n (vm_arena st) = Some (p, off, a)"
    using gen by (auto simp: generous_def arena_alloc_def arena_init_def arena_grow_def Let_def)
  then obtain off a where al: "arena_alloc (ai_mkstemp io) (ai_ftruncate io) (Some p) ?n (vm_arena st) = Some (p, off, a)"
    by blast
  note k = alloc_keeps [OF ai al fr]
  let ?f = "\<lambda>r. r\<lparr> haddr := of_nat p, arena_off := int off, reserved := False \<rparr>"
  define st1 where "st1 = st\<lparr> vm_arena := a \<rparr>"
  have inv1: "vm_inv st1" unfolding st1_def by (rule vm_inv_arena [OF inv k(5,1)])
  note u = upd_region_ok [OF mi i, of ?f]
  have "?n \<le> nroundup ?n ARENA_GRANULE" by (simp add: nroundup_ge)
  then have own: "own_memory st1 (?f ?r)"
    using used_below [OF inv al fr] k(3) by (auto simp: own_memory_def st1_def unused_def)
  have in_f: "in_region (?f ?r) b \<longleftrightarrow> in_region ?r b" for b by (simp add: in_region_def rlo_def rhi_def)
  have v: "view (upd_region i ?f (vm_mm st)) b = (if in_region (?f ?r) b then Some (cell_of (?f ?r) b) else view (vm_mm st1) b)" for b
    using u(2) [of b] in_f [of b] by (simp add: st1_def region_at_def)
  have inv2: "vm_inv (st1\<lparr> vm_mm := upd_region i ?f (vm_mm st) \<rparr>)"
    using u(1) by (intro vm_inv_add [OF inv1 _ own v]) simp
  define st' where "st' = emit (Vmm_mmap (gaddr ?r) (msize ?r) hv (of_nat p)) (st1\<lparr> vm_mm := upd_region i ?f (vm_mm st) \<rparr>)"
  have "region_materialize io i hv st = Some st'"
    by (simp add: region_materialize_def p al Let_def st'_def st1_def)
  moreover have "vm_inv st'" using inv2 by (simp add: st'_def vm_inv_ops)
  moreover have "same_shape (vm_mm st) (vm_mm st')" by (simp add: st'_def same_shape_upd)
  moreover have "region_at st' i = ?f ?r" by (simp add: st'_def region_at_def)
  moreover have "\<forall>b. \<not> in_region ?r b \<longrightarrow> view (vm_mm st') b = view (vm_mm st) b"
    using v in_f by (simp add: st'_def st1_def)
  ultimately show ?thesis by blast
qed

lemma ends_upd [simp]:
  "rlo (r\<lparr> haddr := x \<rparr>) = rlo r" "rlo (r\<lparr> arena_off := y \<rparr>) = rlo r" "rlo (r\<lparr> reserved := z \<rparr>) = rlo r"
  "rlo (r\<lparr> prot := w \<rparr>) = rlo r" "rhi (r\<lparr> haddr := x \<rparr>) = rhi r" "rhi (r\<lparr> arena_off := y \<rparr>) = rhi r"
  "rhi (r\<lparr> reserved := z \<rparr>) = rhi r" "rhi (r\<lparr> prot := w \<rparr>) = rhi r"
  by (simp_all add: rlo_def rhi_def)

lemma protect_region_ok:
  assumes inv: "vm_inv st" and i: "i \<in> set (mm_regions (vm_mm st))" and gen: "generous io"
  shows "\<exists>st'. protect_region io prt i st = Some st' \<and> vm_inv st' \<and> same_shape (vm_mm st) (vm_mm st')
    \<and> protects (rlo (region_at st i)) (rhi (region_at st i)) prt (view (vm_mm st)) (view (vm_mm st'))"
proof -
  let ?r = "region_at st i" and ?hv = "linux_mprot_to_hv_mflag prt"
  let ?mat = "reserved ?r \<and> prt \<noteq> LINUX_PROT_NONE"
  have mi: "mm_inv (vm_mm st)" using inv by (simp add: vm_inv_def)
  obtain st1 p off where 1: "(if ?mat then region_materialize io i ?hv st else Some st) = Some st1" "vm_inv st1"
      "same_shape (vm_mm st) (vm_mm st1)"
      "region_at st1 i = (if ?mat then ?r\<lparr> haddr := of_nat p, arena_off := int off, reserved := False \<rparr> else ?r)"
      "\<forall>b. \<not> in_region ?r b \<longrightarrow> view (vm_mm st1) b = view (vm_mm st) b"
  proof (cases ?mat)
    case True
    then show ?thesis using materialize_ok [OF inv i gen, of ?hv] that by auto
  next
    case False
    then show ?thesis using inv same_shape_refl that [of st] by auto
  qed
  define st2 where "st2 = (if reserved (region_at st1 i) then st1 else emit (Vmm_protect (gaddr (region_at st1 i)) (msize (region_at st1 i)) prt) st1)"
  let ?f = "\<lambda>r. r\<lparr> prot := ?hv \<rparr>"
  have mm2: "vm_mm st2 = vm_mm st1" and inv2: "vm_inv st2"
    using 1(2) by (simp_all add: st2_def vm_inv_ops)
  have mi1: "mm_inv (vm_mm st1)" and i1: "i \<in> set (mm_regions (vm_mm st1))"
    using 1(2,3) i by (simp_all add: vm_inv_def same_shape_def)
  note u = upd_region_ok [OF mi1 i1, of ?f]
  let ?mm3 = "upd_region i ?f (vm_mm st1)" and ?r1 = "region_at st1 i"
  have st1_view: "view (vm_mm st1) b = Some (cell_of ?r1 b)" if "in_region ?r1 b" for b
    using that i1 by (auto simp: view_Some [OF mi1] region_at_def)
  have in1: "in_region ?r1 b \<longleftrightarrow> in_region ?r b" for b
    using 1(4) by (simp add: in_region_def rlo_def rhi_def)
  have v3: "view ?mm3 b = (if in_region ?r b then Some (cell_of (?f ?r1) b) else view (vm_mm st) b)" for b
    using u(2) [of b] in1 [of b] 1(5) by (simp add: region_at_def)
  have "relabels (view (vm_mm st2)) (view ?mm3)"
    using st1_view in1 1(5) by (auto simp: relabels_def v3 mm2 cell_of_def rlo_def)
  then have "vm_inv (st2\<lparr> vm_mm := ?mm3 \<rparr>)"
    using u(1) by (intro vm_inv_relabel [OF inv2]) simp_all
  moreover have "protect_region io prt i st = Some (st2\<lparr> vm_mm := ?mm3 \<rparr>)"
    unfolding protect_region_def Let_def 1(1) by (simp add: st2_def mm2 [unfolded st2_def])
  moreover have "same_shape (vm_mm st) ?mm3"
    by (rule same_shape_trans [OF 1(3) same_shape_upd]) simp_all
  moreover have "protects (rlo ?r) (rhi ?r) prt (view (vm_mm st)) (view ?mm3)"
    unfolding protects_def
  proof
    fix b
    have "view (vm_mm st) b = Some (cell_of ?r b)" if "in_region ?r b"
      using that i by (auto simp: view_Some [OF mi] region_at_def)
    then show "if rlo ?r \<le> unat b \<and> unat b < rhi ?r then rel_option (reprotected prt) (view (vm_mm st) b) (view ?mm3 b)
        else view ?mm3 b = view (vm_mm st) b"
      using 1(4) by (auto simp: v3 in_region_def reprotected_def cell_of_def)
  qed
  ultimately show ?thesis by auto
qed

lemma protects_join:
  assumes "protects lo m prt v v'" "protects m hi prt v' v''" "lo \<le> m" "m \<le> hi"
  shows "protects lo hi prt v v''"
  unfolding protects_def
proof
  fix b :: gaddr
  consider "unat b < lo" | "lo \<le> unat b" "unat b < m" | "m \<le> unat b" "unat b < hi" | "hi \<le> unat b" by linarith
  then show "if lo \<le> unat b \<and> unat b < hi then rel_option (reprotected prt) (v b) (v'' b) else v'' b = v b"
  proof cases
    case 1
    then have "\<not> (lo \<le> unat b \<and> unat b < m)" "\<not> (m \<le> unat b \<and> unat b < hi)" using assms(3) by auto
    then show ?thesis using assms(1,2) 1 unfolding protects_def by (metis not_le)
  next
    case 2
    then have "\<not> (m \<le> unat b \<and> unat b < hi)" "unat b < hi" using assms(4) by auto
    then show ?thesis using assms(1,2) 2 unfolding protects_def by metis
  next
    case 3
    then have "\<not> (lo \<le> unat b \<and> unat b < m)" "lo \<le> unat b" using assms(3) by auto
    then show ?thesis using assms(1,2) 3 unfolding protects_def by metis
  next
    case 4
    then have "\<not> (lo \<le> unat b \<and> unat b < m)" "\<not> (m \<le> unat b \<and> unat b < hi)" using assms(4) by auto
    then show ?thesis using assms(1,2) 4 unfolding protects_def by (metis not_le)
  qed
qed

lemma protects_refl: "hi \<le> lo \<Longrightarrow> protects lo hi prt v v"
  by (auto simp: protects_def)

lemma protects_mapped: "protects lo hi prt v v' \<Longrightarrow> v' b = None \<longleftrightarrow> v b = None"
  unfolding protects_def by (metis option.rel_distinct(1) option.rel_distinct(2) not_None_eq)

section \<open>The range\<close>

lemma gap_after:
  assumes inv: "mm_inv mm" and regs: "mm_regions mm = xs @ i # ys"
    and gap: "\<forall>y\<in>set ys. rhi (mm_store mm i) < rlo (mm_store mm y)" and b: "unat b = rhi (mm_store mm i)"
  shows "view mm b = None"
proof (rule ccontr)
  assume "view mm b \<noteq> None"
  then obtain k where k: "k \<in> set (mm_regions mm)" "in_region (mm_store mm k) b"
    using view_Some [OF inv] by auto
  have ord: "in_order (mm_store mm) (xs @ i # ys)" using inv regs by (simp add: mm_inv_alt)
  consider "k \<in> set xs" | "k = i" | "k \<in> set ys" using k(1) regs by auto
  then show False
  proof cases
    case 1
    then have "rhi (mm_store mm k) \<le> rlo (mm_store mm i)" "region_ok (mm_store mm i)"
      using ord by (auto simp: in_order_simps)
    then show ?thesis using k(2) b region_ok_less [of "mm_store mm i"] by (simp add: in_region_def)
  next
    case 2
    then show ?thesis using k(2) b by (simp add: in_region_def)
  next
    case 3
    then show ?thesis using k(2) b gap by (auto simp: in_region_def)
  qed
qed

lemma mapped_range_gap:
  assumes "v b = None" "lo \<le> unat b" "unat b < hi"
  shows "\<not> mapped_range lo hi v"
  using assms by (auto simp: mapped_range_def)

lemma mapped_range_region:
  assumes "mm_inv mm" "i \<in> set (mm_regions mm)" "hi \<le> rhi (mm_store mm i)"
  shows "mapped_range (rlo (mm_store mm i)) hi (view mm)"
  unfolding mapped_range_def
proof (intro allI impI)
  fix b :: gaddr assume "rlo (mm_store mm i) \<le> unat b \<and> unat b < hi"
  then have "in_region (mm_store mm i) b" using assms(3) by (simp add: in_region_def)
  then show "view mm b \<noteq> None" using assms(2) find_region_iff [OF assms(1), of b i] by (simp add: view_def)
qed

lemma mapped_range_append:
  "lo \<le> m \<Longrightarrow> m \<le> hi \<Longrightarrow> mapped_range lo hi v \<longleftrightarrow> mapped_range lo m v \<and> mapped_range m hi v"
  unfolding mapped_range_def by (meson le_trans less_le_trans not_le)

lemma protect_loop_ok:
  assumes gen: "generous io" and e: "is_page_aligned e" "unat e < 2 ^ 63"
    and "vm_inv st" "small_regions (vm_mm st)" "mm_regions (vm_mm st) = xs @ i # ys" "rlo (region_at st i) < unat e"
  shows "\<exists>r st' m. protect_loop io e prt i st = Some (r, st') \<and> vm_inv st' \<and> m \<le> unat e
    \<and> protects (rlo (region_at st i)) m prt (view (vm_mm st)) (view (vm_mm st'))
    \<and> (if mapped_range (rlo (region_at st i)) (unat e) (view (vm_mm st)) then r = Inr () \<and> m = unat e
       else r = Inl LINUX_ENOMEM)"
  using assms(4-)
proof (induction "length ys" arbitrary: st xs i ys rule: less_induct)
  case less
  note inv = less.prems(1) and sm = less.prems(2) and regs = less.prems(3) and lt = less.prems(4)
  let ?r = "region_at st i" and ?v = "view (vm_mm st)" and ?e = "unat e"
  have mi: "mm_inv (vm_mm st)" using inv by (simp add: vm_inv_def)
  have i: "i \<in> set (mm_regions (vm_mm st))" by (simp add: regs)
  have wf: "region_ok ?r" using mm_invD(5) [OF mi i] by (simp add: region_at_def)
  have end': "unat (gaddr ?r + msize ?r) = rhi ?r" by (rule region_end [OF wf])
  have d: "distinct (xs @ i # ys)" and ord: "in_order (mm_store (vm_mm st)) (xs @ i # ys)"
    using mi regs by (simp_all add: mm_inv_alt in_order_def)
  note here = mapped_range_region [OF mi i]
  show ?case
  proof (cases "rhi ?r \<le> ?e")
    case False
    then have c: "\<not> gaddr ?r + msize ?r \<le> e" "gaddr ?r < e"
      using end' lt by (simp_all add: word_le_nat_alt word_less_nat_alt rlo_def)
    have sm_i: "small_region (mm_store (vm_mm st) i)" using sm i by (simp add: small_regions_def)
    obtain mm t where s: "split_region (ai_host io) (vm_mm st) i e = Some mm" "same_view (vm_mm st) mm"
        "mm_regions mm = xs @ i # t # ys" "rlo (mm_store mm i) = rlo ?r" "rhi (mm_store mm i) = ?e"
      using split_step [OF mi regs e(1) _ _ sm_i, of "ai_host io"] lt False by (auto simp: region_at_def)
    have inv1: "vm_inv (st\<lparr> vm_mm := mm \<rparr>)" by (rule vm_inv_same_view [OF inv s(2)])
    obtain st' where p: "protect_region io prt i (st\<lparr> vm_mm := mm \<rparr>) = Some st'" "vm_inv st'"
        "protects (rlo ?r) ?e prt (view mm) (view (vm_mm st'))"
      using protect_region_ok [OF inv1 _ gen, of i prt] s(3,4,5) by (auto simp: region_at_def)
    have "view mm = ?v" using s(2) by (simp add: same_view_def)
    moreover have "mapped_range (rlo ?r) ?e ?v" using here [of ?e] False by (simp add: region_at_def)
    moreover have "protect_loop io e prt i st = Some (Inr (), st')"
      using c s(1) p(1) by (subst protect_loop.simps) (simp add: Let_def)
    ultimately show ?thesis using p by auto
  next
    case True
    then have c: "gaddr ?r + msize ?r \<le> e" using end' by (simp add: word_le_nat_alt)
    obtain st1 where p: "protect_region io prt i st = Some st1" "vm_inv st1" "same_shape (vm_mm st) (vm_mm st1)"
        "protects (rlo ?r) (rhi ?r) prt ?v (view (vm_mm st1))"
      using protect_region_ok [OF inv i gen, of prt] by blast
    have regs1: "mm_regions (vm_mm st1) = xs @ i # ys" using p(3) regs by (simp add: same_shape_def)
    have r1: "gaddr (region_at st1 j) = gaddr (region_at st j)" "msize (region_at st1 j) = msize (region_at st j)"
      "rlo (region_at st1 j) = rlo (region_at st j)" "rhi (region_at st1 j) = rhi (region_at st j)" for j
      using p(3) by (simp_all add: same_shape_def region_at_def rlo_def rhi_def)
    have mapped1: "mapped_range lo hi (view (vm_mm st1)) = mapped_range lo hi ?v" for lo hi
      using protects_mapped [OF p(4)] by (simp add: mapped_range_def)
    have cov: "mapped_range (rlo ?r) (rhi ?r) ?v" using here [of "rhi ?r"] by (simp add: region_at_def)
    have nx: "list_next i (mm_regions (vm_mm st1)) = (case ys of [] \<Rightarrow> None | y # _ \<Rightarrow> Some y)"
      unfolding regs1 by (rule list_next_mid [OF d])
    have low: "rlo ?r \<le> rhi ?r" using region_ok_less [OF wf] by simp
    have stop: ?thesis
      if "protect_loop io e prt i st = Some (Inl LINUX_ENOMEM, st1)" "\<forall>y\<in>set ys. rhi ?r < rlo (region_at st y)" "rhi ?r < ?e"
    proof -
      define b :: gaddr where "b = gaddr ?r + msize ?r"
      have "unat b = rhi ?r" by (simp add: b_def end')
      then have "view (vm_mm st) b = None"
        using gap_after [OF mi regs, of b] that(2) by (simp add: region_at_def)
      then have "\<not> mapped_range (rlo ?r) ?e ?v"
        using mapped_range_gap [of ?v b "rlo ?r" ?e] \<open>unat b = rhi ?r\<close> that(3) low by simp
      then show ?thesis using that(1) p(2,4) True by (intro exI [of _ st1] exI [of _ "rhi ?r"] exI) auto
    qed
    show ?thesis
    proof (cases "rhi ?r = ?e")
      case True
      then have "gaddr ?r + msize ?r = e" using end' by (metis unsigned_word_eqI)
      then have "protect_loop io e prt i st = Some (Inr (), st1)"
        using p(1) by (subst protect_loop.simps) (simp add: Let_def)
      then show ?thesis using p cov True by auto
    next
      case False
      then have ne: "gaddr ?r + msize ?r \<noteq> e" and lt': "rhi ?r < ?e" using end' True by auto
      show ?thesis
      proof (cases ys)
        case Nil
        then have "protect_loop io e prt i st = Some (Inl LINUX_ENOMEM, st1)"
          using c ne p(1) nx by (subst protect_loop.simps) (simp add: Let_def)
        then show ?thesis using stop lt' Nil by simp
      next
        case (Cons n ns)
        have order: "rhi ?r \<le> rlo (region_at st n)" "\<forall>y\<in>set ns. rhi (region_at st n) \<le> rlo (region_at st y)"
          "region_ok (region_at st n)"
          using ord Cons by (auto simp: in_order_simps region_at_def)
        show ?thesis
        proof (cases "gaddr (region_at st n) = gaddr ?r + msize ?r")
          case False
          then have "rlo (region_at st n) \<noteq> rhi ?r"
            unfolding end' [symmetric] rlo_def by (metis unsigned_word_eqI)
          then have "\<forall>y\<in>set ys. rhi ?r < rlo (region_at st y)"
            using order region_ok_less [OF order(3)] Cons by auto
          moreover have "protect_loop io e prt i st = Some (Inl LINUX_ENOMEM, st1)"
            using c ne p(1) nx Cons False r1(1) by (subst protect_loop.simps) (simp add: Let_def)
          ultimately show ?thesis using stop lt' by simp
        next
          case True
          then have at: "rlo (region_at st1 n) = rhi ?r" using end' r1(1) by (simp add: rlo_def)
          have step: "protect_loop io e prt i st = protect_loop io e prt n st1"
            using c ne p(1) nx Cons True r1(1) by (subst protect_loop.simps) (simp add: Let_def)
          have "small_regions (vm_mm st1)" using sm same_shape_small [OF p(3)] by simp
          then obtain r st' m where IH: "protect_loop io e prt n st1 = Some (r, st')" "vm_inv st'" "m \<le> ?e"
              "protects (rhi ?r) m prt (view (vm_mm st1)) (view (vm_mm st'))"
              "if mapped_range (rhi ?r) ?e ?v then r = Inr () \<and> m = ?e else r = Inl LINUX_ENOMEM"
            using less.hyps [of ns st1 "xs @ [i]" n] p(2) regs1 Cons lt' at mapped1 by auto
          have "\<exists>m'. m' \<le> ?e \<and> protects (rlo ?r) m' prt ?v (view (vm_mm st')) \<and> (m = ?e \<longrightarrow> m' = ?e)"
          proof (cases "rhi ?r \<le> m")
            case True
            then show ?thesis using protects_join [OF p(4) IH(4) low] IH(3) by blast
          next
            case False
            then have "view (vm_mm st') = view (vm_mm st1)" using IH(4) by (auto simp: protects_def)
            then show ?thesis using p(4) False lt' by (intro exI [of _ "rhi ?r"]) auto
          qed
          moreover have "mapped_range (rlo ?r) ?e ?v \<longleftrightarrow> mapped_range (rhi ?r) ?e ?v"
            using mapped_range_append [OF low \<open>rhi ?r \<le> ?e\<close>, of ?v] cov by simp
          ultimately show ?thesis using IH step by (auto split: if_splits)
        qed
      qed
    qed
  qed
qed

lemma merge_at_ok:
  assumes "mm_inv mm"
  shows "\<exists>mm'. merge_at a mm = Some mm' \<and> mm_inv mm' \<and> view mm' = view mm"
proof (cases "find_region a mm")
  case None
  then show ?thesis using assms by (simp add: merge_at_def)
next
  case (Some i)
  then have "i \<in> set (mm_regions mm)" by (simp add: find_region_iff [OF assms])
  from merge_region_ok [OF assms this] show ?thesis
    using Some by (auto simp: merge_at_def merge_keeps_def)
qed

lemma vm_inv_merge: "vm_inv st \<Longrightarrow> mm_inv mm' \<Longrightarrow> view mm' = view (vm_mm st) \<Longrightarrow> vm_inv (st\<lparr> vm_mm := mm' \<rparr>)"
  by (rule vm_inv_relabel) (auto simp: relabels_def)

lemma sys_mprotect_body:
  assumes inv: "vm_inv st" and sm: "small_regions (vm_mm st)" and al: "is_page_aligned a" "is_page_aligned (a + s)"
    and s: "0 < unat s" "unat (a + s) = unat a + unat s" "unat (a + s) < 2 ^ 63" and gen: "generous io"
    and fi: "find_region a (vm_mm st) = Some i"
  shows "\<exists>r st' m.
    do { (mm, i) \<leftarrow> (if a > gaddr (region_at st i)
                     then do { mm \<leftarrow> split_region (ai_host io) (vm_mm st) i a;
                               j \<leftarrow> list_next i (mm_regions mm); Some (mm, j) }
                     else Some (vm_mm st, i));
         (r, st) \<leftarrow> protect_loop io (a + s) prt i (st\<lparr> vm_mm := mm \<rparr>);
         if r \<noteq> Inr () then Some (r, st)
         else do { mm \<leftarrow> merge_at a (vm_mm st); mm \<leftarrow> merge_at (a + s - 1) mm; Some (r, st\<lparr> vm_mm := mm \<rparr>) } }
      = Some (r, st') \<and> vm_inv st' \<and> m \<le> unat (a + s)
    \<and> protects (unat a) m prt (view (vm_mm st)) (view (vm_mm st'))
    \<and> (if mapped_range (unat a) (unat (a + s)) (view (vm_mm st)) then r = Inr () \<and> m = unat (a + s)
       else r = Inl LINUX_ENOMEM)"
proof -
  have mi: "mm_inv (vm_mm st)" using inv by (simp add: vm_inv_def)
  have i: "i \<in> set (mm_regions (vm_mm st))" "in_region (mm_store (vm_mm st) i) a"
    using fi by (simp_all add: find_region_iff [OF mi])
  obtain xs ys where regs: "mm_regions (vm_mm st) = xs @ i # ys" using i(1) by (meson split_list)
  obtain mm j xs' where 1: "(if a > gaddr (region_at st i)
        then do { mm \<leftarrow> split_region (ai_host io) (vm_mm st) i a; j \<leftarrow> list_next i (mm_regions mm); Some (mm, j) }
        else Some (vm_mm st, i)) = Some (mm, j)" "same_view (vm_mm st) mm" "mm_regions mm = xs' @ j # ys"
      "rlo (mm_store mm j) = unat a"
  proof (cases "gaddr (region_at st i) < a")
    case True
    then have lt: "rlo (mm_store (vm_mm st) i) < unat a" by (simp add: rlo_def word_less_nat_alt region_at_def)
    have sm_i: "small_region (mm_store (vm_mm st) i)" using sm i(1) by (simp add: small_regions_def)
    obtain mm t where sp: "split_region (ai_host io) (vm_mm st) i a = Some mm" "same_view (vm_mm st) mm"
        "mm_regions mm = xs @ i # t # ys" "rlo (mm_store mm t) = unat a"
      using split_step [OF mi regs al(1) lt _ sm_i, of "ai_host io"] i(2) by (auto simp: in_region_def)
    have "distinct (xs @ i # t # ys)" using sp(2,3) mm_invD(3) [of mm] by (simp add: same_view_def)
    then have "list_next i (mm_regions mm) = Some t" unfolding sp(3) by (simp add: list_next_mid)
    then show ?thesis using True sp that [of mm t "xs @ [i]"] by simp
  next
    case False
    then have "rlo (mm_store (vm_mm st) i) = unat a"
      using i(2) by (simp add: in_region_def rlo_def word_less_nat_alt region_at_def)
    then show ?thesis using False regs same_view_refl [OF mi] that [of "vm_mm st" i xs] by simp
  qed
  let ?st1 = "st\<lparr> vm_mm := mm \<rparr>"
  have inv1: "vm_inv ?st1" and v1: "view mm = view (vm_mm st)" and sm1: "small_regions mm"
    using vm_inv_same_view [OF inv 1(2)] 1(2) sm by (simp_all add: same_view_def)
  obtain r st2 m where 2: "protect_loop io (a + s) prt j ?st1 = Some (r, st2)" "vm_inv st2" "m \<le> unat (a + s)"
      "protects (unat a) m prt (view (vm_mm st)) (view (vm_mm st2))"
      "if mapped_range (unat a) (unat (a + s)) (view (vm_mm st)) then r = Inr () \<and> m = unat (a + s) else r = Inl LINUX_ENOMEM"
    using protect_loop_ok [OF gen al(2) s(3) inv1, of xs' j ys prt] sm1 1(3,4) s(1,2) v1 by (auto simp: region_at_def)
  show ?thesis
  proof (cases "r = Inr ()")
    case False
    then show ?thesis using 1(1) 2 by auto
  next
    case True
    have mi2: "mm_inv (vm_mm st2)" using 2(2) by (simp add: vm_inv_def)
    obtain mm3 where 3: "merge_at a (vm_mm st2) = Some mm3" "mm_inv mm3" "view mm3 = view (vm_mm st2)"
      using merge_at_ok [OF mi2] by blast
    obtain mm4 where 4: "merge_at (a + s - 1) mm3 = Some mm4" "mm_inv mm4" "view mm4 = view mm3"
      using merge_at_ok [OF 3(2)] by blast
    have "vm_inv (st2\<lparr> vm_mm := mm4 \<rparr>)" using vm_inv_merge [OF 2(2) 4(2)] 3(3) 4(3) by simp
    then show ?thesis using True 1(1) 2 3 4 by (auto simp: 3(3) 4(3) split: if_splits)
  qed
qed

section \<open>The claims\<close>


definition above_io :: arena_io where
  "above_io = \<lparr> ai_host = quiet_host, ai_mkstemp = 3, ai_ftruncate = True,
     ai_map = (\<lambda>a n. mmap_above (arena_spans a) n 0) \<rparr>"

lemma above_io_generous: "generous above_io"
  using mmap_above_fresh by (auto simp: generous_def above_io_def mmap_above_def mmap_fresh_def fresh_at_def)


end
