(* ===== verification/Mremap.thy ===== *)
theory Mremap
  imports Mprotect
begin

text \<open>
  Moving, growing and shrinking a mapping (\<^verbatim>\<open>mremap\<close> of \<^verbatim>\<open>src/mm/mmap.c\<close>, the arm64
  build): the shrink in place, the growth in place when the arena can be extended, and
  the move to a new address.
\<close>

abbreviation (input) LINUX_MREMAP_MAYMOVE :: u32 where "LINUX_MREMAP_MAYMOVE \<equiv> 1"
abbreviation (input) LINUX_MREMAP_FIXED :: u32 where "LINUX_MREMAP_FIXED \<equiv> 2"

text \<open>
  The host's answers: those of the arena, where it puts the memory an extension asks
  for at a fixed place, and whether re-reading the file behind a mapping works.
\<close>

record mremap_io =
  mi_arena :: arena_io
  mi_extend :: "nat option"
  mi_pread :: bool

definition remap_shrink :: "u64 \<Rightarrow> nat \<Rightarrow> vm \<Rightarrow> vm" where
  "remap_shrink new_size i st =
     (let r = region_at st i;
          st = (if msize r > new_size
                then let st = emit (Vmm_munmap (gaddr r + new_size) (msize r - new_size)) st;
                         aligned = roundup new_size GUEST_MMAP_GRANULE
                     in if arena_off r < 0
                        then emit (Host_munmap (haddr r + new_size) (msize r - new_size)) st
                        else if aligned < msize r
                        then st\<lparr> vm_arena := arena_free (nat (arena_off r) + unat aligned) (unat (msize r - aligned))
                                               (vm_arena st) \<rparr>
                        else st
                else st)
      in st\<lparr> vm_mm := upd_region i (\<lambda>r. r\<lparr> msize := new_size \<rparr>) (vm_mm st) \<rparr>)"

definition may_extend :: "u32 \<Rightarrow> u64 \<Rightarrow> u64 \<Rightarrow> mm_region \<Rightarrow> mm \<Rightarrow> bool" where
  "may_extend flags old_size new_size r mm \<longleftrightarrow>
     flags AND LINUX_MREMAP_FIXED = 0 \<and> new_size > msize r \<and> arena_off r \<ge> 0 \<and> msize r = old_size \<and>
     mm_flags r AND LINUX_MAP_ANON \<noteq> 0 \<and>
     find_region_range (gaddr r + msize r) (new_size - msize r) mm = None"

text \<open>Growth in place: None is the answer NULL of \<^verbatim>\<open>arena_extend\<close>, after which the caller moves the mapping.\<close>

definition remap_extend :: "mremap_io \<Rightarrow> u64 \<Rightarrow> nat \<Rightarrow> vm \<Rightarrow> gaddr option \<times> vm" where
  "remap_extend io new_size i st =
     (let r = region_at st i;
          (grown, a) = arena_extend (ai_ftruncate (mi_arena io)) (mi_extend io) (nat (arena_off r)) (unat (msize r))
                         (unat new_size) (unat (haddr r)) (vm_arena st);
          st = st\<lparr> vm_arena := a \<rparr>
      in if grown = None then (None, st)
         else
           let mm = upd_region i (\<lambda>r. r\<lparr> msize := new_size \<rparr>) (vm_mm st);
               mm = (if gaddr r + new_size > current_mmap_top mm
                     then mm\<lparr> current_mmap_top := gaddr r + new_size \<rparr> else mm)
           in (Some (gaddr r),
               emit (Vmm_mmap (gaddr r + msize r) (new_size - msize r) (prot r) (haddr r + msize r))
                 (st\<lparr> vm_mm := mm \<rparr>)))"

text \<open>
  The bytes at the new place: the file again, or a copy of the old memory.  A region
  with no memory behind it has a NULL address, which \<^verbatim>\<open>memcpy\<close> follows.
\<close>

definition remap_fill :: "mremap_io \<Rightarrow> mm_region \<Rightarrow> u64 \<Rightarrow> u64 \<Rightarrow> u64 \<Rightarrow> vm \<Rightarrow> vm option" where
  "remap_fill io r p old_size new_size st =
     (let st = (if mm_flags r AND LINUX_MAP_ANON \<noteq> 0 then st
                else emit (Host_pread (mm_fd r) p new_size (pgoff r)) st)
      in if mm_flags r AND LINUX_MAP_ANON \<noteq> 0 \<or> \<not> mi_pread io
         then if haddr r = 0 \<and> old_size > 0 then None
              else Some (emit (Host_memcpy p (haddr r) old_size) st)
         else Some st)"

text \<open>The old region goes, the new one is recorded at \<open>dst\<close> with the memory at \<open>p\<close>.\<close>

definition remap_switch :: "host \<Rightarrow> gaddr \<Rightarrow> u64 \<Rightarrow> nat \<Rightarrow> u64 \<Rightarrow> u64 \<Rightarrow> nat \<Rightarrow> vm \<Rightarrow> (gaddr res \<times> vm) option" where
  "remap_switch h dst p off old_size new_size i st =
     do { mm \<leftarrow> (if old_size < msize (region_at st i)
                 then split_region h (vm_mm st) i (gaddr (region_at st i) + old_size)
                 else Some (vm_mm st));
          let r = mm_store mm i;
          mm \<leftarrow> delete_region mm i;
          let st = emit (Vmm_munmap (gaddr r) (msize r)) st;
          let st = (if arena_off r < 0 then emit (Host_munmap (haddr r) (msize r)) st else st);
          (mm, n) \<leftarrow> record_region mm p dst new_size (prot r) (mm_flags r) (mm_fd r) (pgoff r);
          let mm = upd_region n (\<lambda>n. n\<lparr> shm_id := shm_id r, arena_off := int off, owns_fd := owns_fd r \<rparr>) mm;
          Some (Inr dst, emit (Vmm_mmap dst new_size (prot r) p) (st\<lparr> vm_mm := mm \<rparr>)) }"

definition remap_move ::
  "mremap_io \<Rightarrow> u32 \<Rightarrow> gaddr \<Rightarrow> gaddr \<Rightarrow> u64 \<Rightarrow> u64 \<Rightarrow> nat \<Rightarrow> vm \<Rightarrow> (gaddr res \<times> vm) option" where
  "remap_move io flags old_addr new_addr old_size new_size i st =
     (let ai = mi_arena io;
          (dst, mm) = (if flags AND LINUX_MREMAP_FIXED \<noteq> 0 then (new_addr, vm_mm st)
                       else alloc_region new_size (vm_mm st));
          st = st\<lparr> vm_mm := mm \<rparr>;
          r = region_at st i
      in do { (p, off, a) \<leftarrow> arena_alloc (ai_mkstemp ai) (ai_ftruncate ai) (ai_map ai (vm_arena st) (unat new_size))
                               (unat new_size) (vm_arena st);
              st \<leftarrow> remap_fill io r (of_nat p) old_size new_size (st\<lparr> vm_arena := a \<rparr>);
              if flags AND LINUX_MREMAP_FIXED \<noteq> 0 \<and> dst \<noteq> old_addr
              then if dst < gaddr r + msize r \<and> dst + new_size > gaddr r then Some (Inl LINUX_EINVAL, st)
                   else do { (_, st) \<leftarrow> do_munmap (ai_host ai) dst new_size st;
                             remap_switch (ai_host ai) dst (of_nat p) off old_size new_size i st }
              else remap_switch (ai_host ai) dst (of_nat p) off old_size new_size i st })"

definition sys_mremap ::
  "mremap_io \<Rightarrow> gaddr \<Rightarrow> u64 \<Rightarrow> u64 \<Rightarrow> u32 \<Rightarrow> gaddr \<Rightarrow> vm \<Rightarrow> (gaddr res \<times> vm) option" where
  "sys_mremap io old_addr old_size new_size flags new_addr st =
     (if flags AND NOT (LINUX_MREMAP_FIXED OR LINUX_MREMAP_MAYMOVE) \<noteq> 0 then Some (Inl LINUX_EINVAL, st)
      else if flags AND LINUX_MREMAP_FIXED \<noteq> 0 \<and> flags AND LINUX_MREMAP_MAYMOVE = 0 then Some (Inl LINUX_EINVAL, st)
      else if \<not> is_page_aligned old_addr then Some (Inl LINUX_EINVAL, st)
      else if flags AND LINUX_MREMAP_MAYMOVE = 0 then Some (Inl LINUX_EINVAL, st)
      else if new_size = 0 then Some (Inl LINUX_EINVAL, st)
      else
        let old_size = roundup old_size PAGE_SIZE; new_size = roundup new_size PAGE_SIZE
        in if range_is_sealed old_addr old_size (vm_mm st) \<or>
              flags AND LINUX_MREMAP_FIXED \<noteq> 0 \<and> range_is_sealed new_addr new_size (vm_mm st)
           then Some (Inl LINUX_EPERM, st)
           else case find_region old_addr (vm_mm st) of
                  None \<Rightarrow> Some (Inl LINUX_EFAULT, st)
                | Some i \<Rightarrow>
                    let r = region_at st i
                    in if gaddr r \<noteq> old_addr \<or> msize r < old_size then Some (Inl LINUX_EFAULT, st)
                       else if flags AND LINUX_MREMAP_FIXED = 0 \<and> new_size \<le> old_size
                       then Some (Inr old_addr, remap_shrink new_size i st)
                       else if may_extend flags old_size new_size r (vm_mm st)
                       then case remap_extend io new_size i st of
                              (Some a, st) \<Rightarrow> Some (Inr a, st)
                            | (None, st) \<Rightarrow> remap_move io flags old_addr new_addr old_size new_size i st
                       else remap_move io flags old_addr new_addr old_size new_size i st)"

section \<open>Answers\<close>

definition still_io :: mremap_io where
  "still_io = \<lparr> mi_arena = above_io, mi_extend = None, mi_pread = True \<rparr>"

lemma remap_switch_answers: "remap_switch h dst p off old_size new_size i st = Some (r, st') \<Longrightarrow> r = Inr dst"
  by (auto simp: remap_switch_def Let_def split: bind_splits if_splits prod.splits)

lemma remap_fill_mm: "remap_fill io r p old_size new_size st = Some st' \<Longrightarrow> vm_mm st' = vm_mm st"
  by (auto simp: remap_fill_def Let_def split: if_splits)

lemma remap_move_error:
  assumes "remap_move io flags old_addr new_addr old_size new_size i st = Some (Inl e, st')"
  shows "vm_mm st' = vm_mm st \<and> flags AND LINUX_MREMAP_FIXED \<noteq> 0"
proof (cases "flags AND LINUX_MREMAP_FIXED = 0")
  case True
  then show ?thesis
    using assms by (auto simp: remap_move_def Let_def dest: remap_switch_answers split: bind_splits prod.splits)
next
  case False
  then show ?thesis
    using assms by (auto simp: remap_move_def Let_def dest: remap_switch_answers remap_fill_mm split: bind_splits prod.splits if_splits)
qed

section \<open>The claims\<close>

text \<open>
  C30: An mremap that answers with an error has not touched the table of mappings: every
  check comes before the first change, also when the destination turns out to overlap
  the source after the copy has been made.
\<close>

theorem sys_mremap_error_keeps:
  assumes "sys_mremap io old_addr old_size new_size flags new_addr st = Some (Inl e, st')"
  shows "vm_mm st' = vm_mm st"
  using assms
  by (auto simp: sys_mremap_def Let_def may_extend_def dest: remap_move_error split: if_splits option.splits prod.splits)

theorem sys_mremap_error_keeps_witness:
  "\<exists>st'. sys_mremap still_io 0x10000 0x30000 0x4000 3 0x12000 sample_vm = Some (Inl LINUX_EINVAL, st')
     \<and> vm_mm st' = vm_mm sample_vm"
proof -
  have "\<exists>st'. sys_mremap still_io 0x10000 0x30000 0x4000 3 0x12000 sample_vm = Some (Inl LINUX_EINVAL, st')"
    by (simp add: sys_mremap_def vm_eval sample_vm_def sample_region_def find_region_def cmp_in_def region_compare_def
        region_at_def may_extend_def remap_move_def remap_fill_def still_io_def above_io_def mmap_above_def seals_def)
  then show ?thesis using sys_mremap_error_keeps by blast
qed


text \<open>
  A mapping accepted at a hint above the allocator's cursor also breaks the move: the
  destination the allocator hands out is recorded without looking, and recording over a
  mapping ends the process.
\<close>

lemma sys_mremap_panics:
  "do { (_, st1) \<leftarrow> sys_mmap (quiet_io 0x100000) (anon_req 0xc0001000 0x1000 0) start_vm;
        (_, st2) \<leftarrow> sys_mmap (quiet_io 0x200000) (anon_req 0x10000 0x1000 0x10) st1;
        sys_mremap still_io 0x10000 0x1000 0x5000 1 0 st2 } = None"
  by (simp add: vm_eval sys_mremap_def still_io_def above_io_def find_region_def cmp_in_def region_compare_def region_at_def
      seals_def may_extend_def remap_extend_def arena_extend_def remap_move_def remap_fill_def alloc_region_def
      mmap_above_def remap_switch_def delete_region_def rb_remove_def unlink_def)

end
