(* ===== verification/User_Memory.thy ===== *)
theory User_Memory
  imports Mm_Region
begin

text \<open>
  Reading and writing guest memory from a system call (\<^verbatim>\<open>src/base.c\<close>): the guest pointer
  is translated one page at a time and the bytes are copied from or to host memory,
  which is a function from host addresses to bytes here.  A length is a natural number;
  a pointer is a machine word and wraps.
\<close>

section \<open>Operations\<close>

definition page_left :: "gaddr \<Rightarrow> nat" where
  "page_left p = unat (rounddown (p + 4096) 4096 - p)"

lemma page_left_eq: "page_left p = 4096 - unat p mod 4096"
proof -
  have "rounddown (p + 4096) 4096 - p = 4096 - p mod 4096"
  proof -
    have "(p + 4096) div 4096 * 4096 = p + 4096 - (p + 4096) mod 4096"
      by (simp add: minus_mod_eq_div_mult [symmetric])
    moreover have "(p + 4096) mod 4096 = p mod 4096"
    proof (rule unsigned_word_eqI [where ?'a = nat])
      have "unat (p + 4096) mod 4096 = (unat p + 4096) mod 18446744073709551616 mod 4096"
        by (simp add: unat_word_ariths)
      also have "\<dots> = (unat p + 4096) mod 4096" by (rule mod_mod_cancel) simp
      finally show "unat ((p + 4096) mod 4096) = unat (p mod 4096)" by (simp add: unat_mod)
    qed
    ultimately show ?thesis by (simp add: rounddown_def)
  qed
  moreover have "unat (4096 - p mod 4096) = 4096 - unat p mod 4096"
    by (subst unat_sub) (simp_all add: word_le_nat_alt unat_mod)
  ultimately show ?thesis by (simp add: page_left_def)
qed

lemma page_left_pos: "0 < page_left p"
  by (simp add: page_left_eq)

definition addr_ok :: "mm \<Rightarrow> gaddr \<Rightarrow> u32 \<Rightarrow> bool" where
  "addr_ok mm addr access \<longleftrightarrow>
     (let addr = untag_gaddr addr
      in addr < user_addr_max \<and>
         (case find_region addr mm of
            None \<Rightarrow> False
          | Some i \<Rightarrow> access AND NOT (prot (mm_store mm i)) = 0))"

type_synonym xlate = "gaddr \<Rightarrow> u64 option"
type_synonym host_memory = "u64 \<Rightarrow> u8"

definition host_read :: "host_memory \<Rightarrow> u64 \<Rightarrow> nat \<Rightarrow> u8 list" where
  "host_read mem h n = map (\<lambda>i. mem (h + of_nat i)) [0..<n]"

definition host_write :: "u64 \<Rightarrow> u8 list \<Rightarrow> host_memory \<Rightarrow> host_memory" where
  "host_write h bs mem = fold (\<lambda>i m. m(h + of_nat i := bs ! i)) [0..<length bs] mem"

text \<open>The bytes copied and the number of bytes that were not.\<close>

function copy_from_user :: "xlate \<Rightarrow> host_memory \<Rightarrow> gaddr \<Rightarrow> nat \<Rightarrow> u8 list \<times> nat" where
  "copy_from_user x mem p n =
     (if n = 0 then ([], 0)
      else case x p of
             None \<Rightarrow> ([], n)
           | Some h \<Rightarrow>
               let sz = min (page_left p) n; (bs, left) = copy_from_user x mem (p + of_nat sz) (n - sz)
               in (host_read mem h sz @ bs, left))"
  by pat_completeness auto
termination
  by (relation "measure (\<lambda>(x, mem, p, n). n)") (use page_left_pos in auto)

function copy_to_user :: "xlate \<Rightarrow> host_memory \<Rightarrow> gaddr \<Rightarrow> u8 list \<Rightarrow> host_memory \<times> nat" where
  "copy_to_user x mem p bs =
     (if bs = [] then (mem, 0)
      else case x p of
             None \<Rightarrow> (mem, length bs)
           | Some h \<Rightarrow>
               let sz = min (page_left p) (length bs)
               in copy_to_user x (host_write h (take sz bs) mem) (p + of_nat sz) (drop sz bs))"
  by pat_completeness auto
termination
  by (relation "measure (\<lambda>(x, mem, p, bs). length bs)") (use page_left_pos in auto)

definition strnlen :: "host_memory \<Rightarrow> u64 \<Rightarrow> nat \<Rightarrow> nat" where
  "strnlen mem h n = length (takeWhile (\<lambda>b. b \<noteq> 0) (host_read mem h n))"

text \<open>
  The running length is an \<^verbatim>\<open>int\<close>; the answer is a signed 64-bit number, which a caller
  reads as unsigned.
\<close>

function strnlen_loop :: "xlate \<Rightarrow> host_memory \<Rightarrow> gaddr \<Rightarrow> nat \<Rightarrow> u32 \<Rightarrow> u64" where
  "strnlen_loop x mem p n len =
     (if n = 0 \<or> sint (of_nat n :: u64) \<le> 0 then scast (len + 1)
      else case x p of
             None \<Rightarrow> 0
           | Some h \<Rightarrow>
               let sz = min (page_left p) n; i = strnlen mem h sz
               in if i < sz then scast len + of_nat i + 1
                  else strnlen_loop x mem (p + of_nat sz) (n - sz) (len + of_nat sz))"
  by pat_completeness auto
termination
  by (relation "measure (\<lambda>(x, mem, p, n, len). n)") (use page_left_pos in auto)

definition strnlen_user :: "xlate \<Rightarrow> host_memory \<Rightarrow> gaddr \<Rightarrow> nat \<Rightarrow> u64" where
  "strnlen_user x mem p n = strnlen_loop x mem p n 0"

definition strncpy_from_user :: "xlate \<Rightarrow> host_memory \<Rightarrow> gaddr \<Rightarrow> nat \<Rightarrow> (u8 list \<times> nat) res" where
  "strncpy_from_user x mem p n =
     (let len = unat (strnlen_user x mem p n)
      in if len = 0 then Inl LINUX_EFAULT
         else if n < len
         then case copy_from_user x mem p n of (bs, left) \<Rightarrow> if left \<noteq> 0 then Inl LINUX_EFAULT else Inr (bs, n)
         else case copy_from_user x mem p len of (bs, left) \<Rightarrow> if left \<noteq> 0 then Inl LINUX_EFAULT else Inr (bs, len - 1))"

declare copy_from_user.simps [simp del] copy_to_user.simps [simp del] strnlen_loop.simps [simp del]

section \<open>One byte at a time\<close>

fun read_bytes :: "xlate \<Rightarrow> host_memory \<Rightarrow> gaddr \<Rightarrow> nat \<Rightarrow> u8 list \<times> nat" where
  "read_bytes x mem p 0 = ([], 0)"
| "read_bytes x mem p (Suc n) =
     (case x p of
        None \<Rightarrow> ([], Suc n)
      | Some h \<Rightarrow> (case read_bytes x mem (p + 1) n of (bs, left) \<Rightarrow> (mem h # bs, left)))"

fun write_bytes :: "xlate \<Rightarrow> host_memory \<Rightarrow> gaddr \<Rightarrow> u8 list \<Rightarrow> host_memory \<times> nat" where
  "write_bytes x mem p [] = (mem, 0)"
| "write_bytes x mem p (b # bs) =
     (case x p of
        None \<Rightarrow> (mem, Suc (length bs))
      | Some h \<Rightarrow> write_bytes x (mem(h := b)) (p + 1) bs)"

text \<open>
  A translation that works a page at a time: the rest of a page follows its first
  byte, mapped or not.
\<close>

locale paged =
  fixes ok :: "'s \<Rightarrow> bool" and xl :: "'s \<Rightarrow> gaddr \<Rightarrow> u64 option"
  assumes page_some: "ok s \<Longrightarrow> xl s p = Some h \<Longrightarrow> k < page_left p \<Longrightarrow> xl s (p + of_nat k) = Some (h + of_nat k)"
begin

lemma read_chunk:
  assumes "ok s" "xl s p = Some h" "k \<le> page_left p"
  shows "read_bytes (xl s) mem p (k + m) =
    (case read_bytes (xl s) mem (p + of_nat k) m of (bs, left) \<Rightarrow> (host_read mem h k @ bs, left))"
  using assms(3)
proof (induction k arbitrary: m)
  case 0
  then show ?case by (simp add: host_read_def split: prod.splits)
next
  case (Suc k)
  have "xl s (p + of_nat k) = Some (h + of_nat k)"
    using page_some [OF assms(1,2)] Suc.prems by simp
  then show ?case
    using Suc.IH [of "Suc m"] Suc.prems
    by (simp add: host_read_def add.assoc add.commute [of 1] split: prod.splits)
qed

lemma copy_from_user_bytes:
  assumes "ok s"
  shows "copy_from_user (xl s) mem p n = read_bytes (xl s) mem p n"
proof (induction n arbitrary: p rule: less_induct)
  case (less n)
  show ?case
  proof (cases "n = 0 \<or> xl s p = None")
    case True
    then show ?thesis by (cases n) (auto simp: copy_from_user.simps)
  next
    case False
    then obtain h where h: "xl s p = Some h" "n \<noteq> 0" by auto
    let ?k = "min (page_left p) n"
    have "?k \<le> page_left p" "?k + (n - ?k) = n" "n - ?k < n" using h(2) page_left_pos [of p] by auto
    then show ?thesis
      using read_chunk [OF assms h(1), of ?k mem "n - ?k"] less [of "n - ?k"] h
      by (simp add: copy_from_user.simps [of "xl s" mem p n] Let_def)
  qed
qed

end

lemma unat_scast_small:
  fixes l :: u32
  assumes "unat l < 2 ^ 31"
  shows "unat (scast l :: u64) = unat l"
proof -
  have "unat (ucast l :: u64) = unat l" by (simp add: unat_ucast_up)
  moreover have "ucast (ucast l :: u64) = l" by (simp add: word_unat_eq_iff unat_ucast_small unat_ucast_up less_le_trans [OF unsigned_less [of l, where ?'a = nat]])
  ultimately show ?thesis using scast_ucast_small(1) [of "ucast l"] assms by simp
qed

lemma sint_of_nat_small: "n < 2 ^ 31 \<Longrightarrow> sint (of_nat n :: u64) = int n"
  using scast_ucast_small(2) [of "of_nat n"] by (simp add: unat_of_nat_small)

lemma strnlen_less: "x \<in> set bs \<Longrightarrow> length (takeWhile (\<lambda>b. b \<noteq> x) bs) < length bs"
  by (induction bs) auto

context paged
begin

lemma write_chunk:
  assumes "ok s" "xl s p = Some h" "k \<le> page_left p" "k \<le> length bs"
  shows "write_bytes (xl s) mem p bs = write_bytes (xl s) (host_write h (take k bs) mem) (p + of_nat k) (drop k bs)"
  using assms(3,4)
proof (induction k)
  case 0
  then show ?case by (simp add: host_write_def)
next
  case (Suc k)
  have x: "xl s (p + of_nat k) = Some (h + of_nat k)"
    using page_some [OF assms(1,2)] Suc.prems by simp
  have d: "drop k bs = bs ! k # drop (Suc k) bs" using Suc.prems by (simp add: Cons_nth_drop_Suc)
  have "fold (\<lambda>i m. m(h + of_nat i := take (Suc k) bs ! i)) [0..<k] mem
      = fold (\<lambda>i m. m(h + of_nat i := take k bs ! i)) [0..<k] mem"
    by (rule fold_cong) auto
  then have "host_write h (take (Suc k) bs) mem = (host_write h (take k bs) mem)(h + of_nat k := bs ! k)"
    using Suc.prems by (simp add: host_write_def min_absorb2)
  then show ?case
    using Suc x by (simp add: d add.assoc add.commute [of 1] fun_upd_def)
qed

lemma copy_to_user_bytes:
  assumes "ok s"
  shows "copy_to_user (xl s) mem p bs = write_bytes (xl s) mem p bs"
proof (induction "length bs" arbitrary: mem p bs rule: less_induct)
  case less
  show ?case
  proof (cases "bs = [] \<or> xl s p = None")
    case True
    then show ?thesis by (cases bs) (auto simp: copy_to_user.simps)
  next
    case False
    then obtain h where h: "xl s p = Some h" "bs \<noteq> []" by auto
    let ?k = "min (page_left p) (length bs)"
    have "?k \<le> page_left p" "?k \<le> length bs" "length (drop ?k bs) < length bs" using h(2) page_left_pos [of p] by auto
    then show ?thesis
      using write_chunk [OF assms h(1), of ?k bs mem] less [of "drop ?k bs"] h
      by (simp add: copy_to_user.simps [of "xl s" mem p bs] Let_def)
  qed
qed

lemma strnlen_loop_bytes:
  assumes "ok s" "read_bytes (xl s) mem p n = (bs, left)" "unat len + n + 1 < 2 ^ 31"
  shows "unat (strnlen_loop (xl s) mem p n len) =
    (if 0 \<in> set bs \<or> left = 0 then unat len + Suc (length (takeWhile (\<lambda>b. b \<noteq> 0) bs)) else 0)"
  using assms(2,3)
proof (induction n arbitrary: p bs len rule: less_induct)
  case (less n)
  show ?case
  proof (cases "n = 0 \<or> xl s p = None")
    case True
    have "unat (len + 1) = unat len + 1" using less.prems(2) by (simp add: unat_word_ariths)
    moreover have "n \<noteq> 0 \<Longrightarrow> bs = [] \<and> left = n" using True less.prems(1) by (cases n) auto
    ultimately show ?thesis
      using True less.prems sint_of_nat_small [of n] unat_scast_small [of "len + 1"]
      by (cases "n = 0")
        (auto simp: strnlen_loop.simps [of "xl s" mem p 0] strnlen_loop.simps [of "xl s" mem p n] split: option.splits)
  next
    case False
    then obtain h where h: "xl s p = Some h" and n: "n \<noteq> 0" by auto
    let ?k = "min (page_left p) n" and ?z = "takeWhile (\<lambda>b. b \<noteq> 0)"
    have k: "?k \<le> page_left p" "?k + (n - ?k) = n" "n - ?k < n" using n page_left_pos [of p] by auto
    obtain bs' where bs: "read_bytes (xl s) mem (p + of_nat ?k) (n - ?k) = (bs', left)" "bs = host_read mem h ?k @ bs'"
      using read_chunk [OF assms(1) h k(1), of mem "n - ?k"] less.prems(1) k(2) by (auto split: prod.splits)
    have len_r: "length (host_read mem h ?k) = ?k" by (simp add: host_read_def)
    have sn: "\<not> sint (of_nat n :: u64) \<le> 0" using n less.prems(2) sint_of_nat_small [of n] by simp
    note step = strnlen_loop.simps [of "xl s" mem p n len] sn n h
    show ?thesis
    proof (cases "0 \<in> set (host_read mem h ?k)")
      case True
      then have i: "strnlen mem h ?k < ?k" "?z bs = ?z (host_read mem h ?k)"
        using strnlen_less [of 0 "host_read mem h ?k"] len_r
        by (simp_all add: strnlen_def bs(2) takeWhile_append1)
      have "unat (scast len + of_nat (strnlen mem h ?k) + 1 :: u64) = unat len + strnlen mem h ?k + 1"
        using i(1) less.prems(2) unat_scast_small [of len] by (simp add: unat_word_ariths unat_of_nat_small)
      then show ?thesis
        using step i True bs(2) by (simp add: Let_def strnlen_def)
    next
      case False
      then have eq: "?z (host_read mem h ?k) = host_read mem h ?k" by (auto simp: takeWhile_eq_all_conv)
      then have i: "\<not> strnlen mem h ?k < ?k" unfolding strnlen_def by (simp only: len_r less_irrefl not_False_eq_True)
      have u: "unat (len + of_nat ?k) = unat len + ?k"
        using less.prems(2) by (simp add: unat_word_ariths unat_of_nat_small)
      have "?z bs = host_read mem h ?k @ ?z bs'"
        unfolding bs(2) using False by (intro takeWhile_append2) auto
      then have l: "length (?z bs) = ?k + length (?z bs')" "0 \<in> set bs \<longleftrightarrow> 0 \<in> set bs'" using len_r False bs(2) by auto
      have "unat (len + of_nat ?k) + (n - ?k) + 1 < 2 ^ 31" using less.prems(2) k(2) u by linarith
      from less.IH [OF k(3) bs(1) this] have
        "unat (strnlen_loop (xl s) mem (p + of_nat ?k) (n - ?k) (len + of_nat ?k)) =
          (if 0 \<in> set bs \<or> left = 0 then unat len + Suc (length (?z bs)) else 0)"
        unfolding u l by simp
      then show ?thesis using step i unfolding Let_def by (simp del: min_less_iff_conj)
    qed
  qed
qed

end

section \<open>The translation works a page at a time\<close>

lemma same_page: "(x :: nat) mod 4096 + k < 4096 \<Longrightarrow> (x + k) div 4096 = x div 4096"
  by (simp add: div_add1_eq [of x k])

lemma same_page_less: "(x :: nat) mod 4096 + k < 4096 \<Longrightarrow> x < 4096 * q \<Longrightarrow> x + k < 4096 * q"
  using same_page [of x k] by (metis div_less_iff_less_mult mult.commute zero_less_numeral)

lemma unat_in_page:
  fixes a :: gaddr
  assumes "k < page_left a"
  shows "unat (a + of_nat k) = unat a + k" "(unat a + k) div 4096 = unat a div 4096"
proof -
  have k: "unat a mod 4096 + k < 4096" using assms by (simp add: page_left_eq)
  then show "(unat a + k) div 4096 = unat a div 4096" by (rule same_page)
  have "unat a + k < 4096 * 4503599627370496"
    using same_page_less [OF k, of 4503599627370496] unsigned_less [of a, where ?'a = nat] by simp
  then show "unat (a + of_nat k) = unat a + k" by (simp add: unat_word_ariths unat_of_nat_small)
qed

lemma unat_untag: "unat (untag_gaddr a) = unat a mod 2 ^ 56"
proof -
  have "(0x00ffffffffffffff :: gaddr) = mask 56" by (simp add: mask_eq_exp_minus_1)
  then have "untag_gaddr a = take_bit 56 a" unfolding untag_gaddr_def by (simp only: take_bit_eq_mask)
  then show ?thesis by (simp add: take_bit_eq_mod unat_mod)
qed

lemma untag_in_page:
  assumes "k < page_left a"
  shows "untag_gaddr (a + of_nat k) = untag_gaddr a + of_nat k" "page_left (untag_gaddr a) = page_left a"
proof -
  have "unat a mod 2 ^ 56 mod 4096 = unat a mod 4096" by (rule mod_mod_cancel) simp
  then show p: "page_left (untag_gaddr a) = page_left a" by (simp add: page_left_eq unat_untag)
  have k: "unat a mod 4096 + k < 4096" using assms by (simp add: page_left_eq)
  have "(unat a + k) mod 2 ^ 56 = unat a mod 2 ^ 56 + k"
  proof -
    let ?r = "unat a mod 2 ^ 56"
    have "?r mod 4096 = unat a mod 4096" by (rule mod_mod_cancel) simp
    then have "?r + k < 2 ^ 56" using k same_page_less [of ?r k 17592186044416] by simp
    then show ?thesis by (metis mod_add_left_eq mod_less)
  qed
  then show "untag_gaddr (a + of_nat k) = untag_gaddr a + of_nat k"
    using assms by (intro unsigned_word_eqI [where ?'a = nat]) (simp add: unat_untag unat_in_page p)
qed

lemma in_region_page:
  assumes "region_ok r" "k < page_left a"
  shows "in_region r (a + of_nat k) = in_region r a"
proof -
  obtain l u where "rlo r = 4096 * l" "rhi r = 4096 * u" using assms(1) unfolding region_ok_def dvd_def by blast
  then show ?thesis
    using unat_in_page [OF assms(2)] unfolding in_region_def
    by (metis div_less_iff_less_mult less_eq_div_iff_mult_less_eq mult.commute zero_less_numeral)
qed

lemma find_region_page:
  assumes "mm_inv mm" "k < page_left a"
  shows "find_region (a + of_nat k) mm = find_region a mm"
proof -
  have "find_region (a + of_nat k) mm = Some i \<longleftrightarrow> find_region a mm = Some i" for i
    using find_region_iff [OF assms(1)] in_region_page [OF _ assms(2)] mm_invD [OF assms(1)] by blast
  then show ?thesis by (cases "find_region a mm") (auto simp: option.expand)
qed

interpretation um: paged "\<lambda>(mm, vk). mm_inv mm \<and> mm_inv vk" "\<lambda>(mm, vk). guest_to_host mm vk"
proof (unfold_locales, clarsimp)
  fix mm vk p h k
  assume inv: "mm_inv mm" "mm_inv vk" and h: "guest_to_host mm vk p = Some h" and k: "k < page_left p"
  note u = untag_in_page [OF k]
  have "find_region (untag_gaddr p + of_nat k) m = find_region (untag_gaddr p) m" if "mm_inv m" for m
    using find_region_page [OF that, of k "untag_gaddr p"] k u(2) by simp
  then show "guest_to_host mm vk (p + of_nat k) = Some (h + of_nat k)"
    using h inv u(1) by (auto simp: guest_to_host_def Let_def split: option.splits if_splits)
qed

section \<open>Properties\<close>

lemma read_bytes_length: "read_bytes x mem p n = (bs, left) \<Longrightarrow> length bs + left = n"
  by (induction n arbitrary: p bs left) (auto split: option.splits prod.splits)

lemma read_bytes_take:
  "read_bytes x mem p n = (bs, left) \<Longrightarrow> m \<le> length bs \<Longrightarrow> read_bytes x mem p m = (take m bs, 0)"
proof (induction m arbitrary: n p bs)
  case (Suc m)
  from Suc.prems obtain n' where n: "n = Suc n'" by (cases n) auto
  then show ?case
    using Suc.prems Suc.IH [of "p + 1" n' "tl bs"] by (auto split: option.splits prod.splits)
qed simp

lemma take_first_zero:
  "0 \<in> set bs \<Longrightarrow> take (Suc (length (takeWhile (\<lambda>b. b \<noteq> 0) bs))) bs = takeWhile (\<lambda>b. b \<noteq> (0 :: u8)) bs @ [0]"
  by (induction bs) auto

lemma write_bytes_elsewhere:
  "(\<And>i. i < length bs \<Longrightarrow> x (p + of_nat i) \<noteq> Some h) \<Longrightarrow> write_bytes x mem p bs = (mem', left) \<Longrightarrow> mem' h = mem h"
proof (induction bs arbitrary: mem p)
  case (Cons b bs)
  have "x (p + 1 + of_nat i) \<noteq> Some h" if "i < length bs" for i
    using Cons.prems(1) [of "Suc i"] that by (simp add: add.assoc)
  then show ?case
    using Cons.prems(2) Cons.prems(1) [of 0] Cons.IH [of "p + 1"] by (auto split: option.splits)
qed simp

lemma write_read_bytes:
  "inj_on (\<lambda>i. x (p + of_nat i)) {..<length bs} \<Longrightarrow> write_bytes x mem p bs = (mem', 0) \<Longrightarrow>
   read_bytes x mem' p (length bs) = (bs, 0)"
proof (induction bs arbitrary: mem p)
  case (Cons b bs)
  obtain h where h: "x p = Some h" and w: "write_bytes x (mem(h := b)) (p + 1) bs = (mem', 0)"
    using Cons.prems(2) by (auto split: option.splits)
  have "x (p + 1 + of_nat i) \<noteq> Some h" if "i < length bs" for i
    using inj_onD [OF Cons.prems(1), of 0 "Suc i"] h that by (auto simp: add.assoc)
  then have "mem' h = b" using write_bytes_elsewhere [OF _ w] by simp
  moreover have "inj_on (\<lambda>i. x (p + 1 + of_nat i)) {..<length bs}"
  proof (rule inj_onI)
    fix i j assume "i \<in> {..<length bs}" "j \<in> {..<length bs}" "x (p + 1 + of_nat i) = x (p + 1 + of_nat j)"
    then show "i = j" using inj_onD [OF Cons.prems(1), of "Suc i" "Suc j"] by (simp add: add.assoc)
  qed
  ultimately show ?case using Cons.IH [OF _ w] h by simp
qed simp

text \<open>
  C10: Copying from and to guest memory a page at a time is copying it a byte at a time:
  every byte goes through the translation of its own address, and the count of bytes
  left over is that of the first byte without one.
\<close>

theorem copy_user_bytewise:
  assumes "mm_inv mm" "mm_inv vk"
  shows "copy_from_user (guest_to_host mm vk) mem p n = read_bytes (guest_to_host mm vk) mem p n \<and>
    copy_to_user (guest_to_host mm vk) mem p bs = write_bytes (guest_to_host mm vk) mem p bs"
  using um.copy_from_user_bytes [of "(mm, vk)"] um.copy_to_user_bytes [of "(mm, vk)"] assms by simp

theorem copy_user_bytewise_witness:
  "copy_from_user (guest_to_host halves_mm init_mm) (\<lambda>h. ucast h) 0x13fff 2
     = read_bytes (guest_to_host halves_mm init_mm) (\<lambda>h. ucast h) 0x13fff 2 \<and>
   copy_to_user (guest_to_host halves_mm init_mm) (\<lambda>h. 0) 0x13fff [1, 2]
     = write_bytes (guest_to_host halves_mm init_mm) (\<lambda>h. 0) 0x13fff [1, 2]"
  using copy_user_bytewise [OF halves_mm_inv init_mm_inv] by simp

text \<open>
  C33: What is written to guest memory is read back, when the range is mapped and no
  two of its bytes share a host byte.
\<close>

theorem copy_to_from_user:
  assumes "mm_inv mm" "mm_inv vk"
    and "inj_on (\<lambda>i. guest_to_host mm vk (p + of_nat i)) {..<length bs}"
    and "copy_to_user (guest_to_host mm vk) mem p bs = (mem', 0)"
  shows "copy_from_user (guest_to_host mm vk) mem' p (length bs) = (bs, 0)"
  using um.copy_from_user_bytes [of "(mm, vk)"] um.copy_to_user_bytes [of "(mm, vk)"]
    write_read_bytes [OF assms(3), of mem mem'] assms by simp

lemma halves_addresses:
  "guest_to_host halves_mm init_mm 0x13fff = Some 0x700003fff"
  "guest_to_host halves_mm init_mm 0x14000 = Some 0x700004000"
  "guest_to_host halves_mm init_mm 0x15000 = None"
  by (simp_all add: guest_to_host_def halves_mm_def init_mm_def anon_region_def new_region_def untag_gaddr_def
      find_region_def cmp_in_def probe_def region_compare_def)

lemma halves_writes:
  "copy_to_user (guest_to_host halves_mm init_mm) (\<lambda>h. 0) 0x13fff [1, 2]
     = ((\<lambda>h. 0)(0x700003fff := 1, 0x700004000 := 2), 0)"
  by (simp add: copy_to_user.simps halves_addresses page_left_def rounddown_def host_write_def)

theorem copy_to_from_user_witness:
  "copy_from_user (guest_to_host halves_mm init_mm) ((\<lambda>h. 0)(0x700003fff := 1, 0x700004000 := 2)) 0x13fff 2
     = ([1, 2], 0)"
proof -
  have "inj_on (\<lambda>i. guest_to_host halves_mm init_mm (0x13fff + of_nat i)) {..<length [1, 2 :: u8]}"
    by (simp add: lessThan_Suc numeral_2_eq_2 halves_addresses)
  from copy_to_from_user [OF halves_mm_inv init_mm_inv this halves_writes] show ?thesis
    by (simp add: numeral_2_eq_2)
qed

text \<open>
  C32: A string is copied from guest memory up to its terminator, which is copied too
  and not counted; a string with no terminator in the first \<open>n\<close> bytes is cut there; and
  a string that leaves mapped memory before that fails.  What follows the terminator
  need not be mapped.
\<close>

theorem strncpy_from_user_string:
  assumes "mm_inv mm" "mm_inv vk" "n + 1 < 2 ^ 31"
    and "read_bytes (guest_to_host mm vk) mem p n = (bs, left)"
  shows "strncpy_from_user (guest_to_host mm vk) mem p n =
    (let s = takeWhile (\<lambda>b. b \<noteq> 0) bs
     in if 0 \<in> set bs then Inr (s @ [0], length s)
        else if left = 0 then Inr (bs, n)
        else Inl LINUX_EFAULT)"
proof -
  let ?x = "guest_to_host mm vk" and ?s = "takeWhile (\<lambda>b. b \<noteq> 0) bs"
  have len: "unat (strnlen_user ?x mem p n) = (if 0 \<in> set bs \<or> left = 0 then Suc (length ?s) else 0)"
    using um.strnlen_loop_bytes [of "(mm, vk)" mem p n bs left 0] assms by (simp add: strnlen_user_def)
  have c: "copy_from_user ?x mem p m = read_bytes ?x mem p m" for m
    using um.copy_from_user_bytes [of "(mm, vk)"] assms by simp
  have l: "length bs + left = n" by (rule read_bytes_length [OF assms(4)])
  show ?thesis
  proof (cases "0 \<in> set bs")
    case True
    then have "Suc (length ?s) \<le> length bs" using strnlen_less [of 0 bs] by simp
    then show ?thesis
      using True len l read_bytes_take [OF assms(4), of "Suc (length ?s)"] take_first_zero [OF True]
      by (simp add: strncpy_from_user_def c Let_def)
  next
    case False
    then have "?s = bs" by (auto simp: takeWhile_eq_all_conv)
    then have "unat (strnlen_user ?x mem p n) = (if left = 0 then Suc (length bs) else 0)"
      using False len by (simp only: simp_thms)
    then show ?thesis using False l assms(4) by (simp add: strncpy_from_user_def c)
  qed
qed

theorem strncpy_from_user_string_witness:
  "strncpy_from_user (guest_to_host halves_mm init_mm) (\<lambda>h. if h = 0x700003fff then 104 else 0) 0x13fff 3
     = Inr ([104, 0], 1)"
  using strncpy_from_user_string [OF halves_mm_inv init_mm_inv, of 3 "\<lambda>h. if h = 0x700003fff then 104 else 0"
      "0x13fff" "[104, 0, 0]" 0]
  by (simp add: numeral_3_eq_3 Let_def guest_to_host_def halves_mm_def init_mm_def anon_region_def new_region_def
      untag_gaddr_def find_region_def cmp_in_def probe_def region_compare_def)

end
