(* ===== verification/Mm_Calls.thy ===== *)
theory Mm_Calls
  imports Mremap User_Memory
begin

text \<open>
  The smaller memory calls of \<^verbatim>\<open>src/mm/mm.c\<close>: \<^verbatim>\<open>madvise\<close>, the \<^verbatim>\<open>mlock\<close> family, \<^verbatim>\<open>brk\<close>, \<^verbatim>\<open>msync\<close>,
  \<^verbatim>\<open>get_mempolicy\<close> and the teardown of an address space.
  What the calls ask of the host is an argument (a lock that may fail)
  or a trace of the requests made.
\<close>

section \<open>Walking a range region by region\<close>

text \<open>
  The loop that \<^verbatim>\<open>madvise\<close> and \<^verbatim>\<open>mlock_range\<close> share: the region of each address up to
  the end of the range, with the body run on the piece of the range it holds.
\<close>

partial_function (option) each_piece ::
  "(mm_region \<Rightarrow> gaddr \<Rightarrow> gaddr \<Rightarrow> 's \<Rightarrow> errno option \<times> 's) \<Rightarrow> mm \<Rightarrow> gaddr \<Rightarrow> gaddr \<Rightarrow> 's \<Rightarrow> (unit res \<times> 's) option" where
  "each_piece body mm p e s =
     (if p < e
      then case find_region p mm of
             None \<Rightarrow> Some (Inl LINUX_ENOMEM, s)
           | Some i \<Rightarrow>
               let region = mm_store mm i;
                   rend = gaddr region + msize region;
                   stop = (if rend < e then rend else e)
               in case body region p stop s of
                    (Some err, s) \<Rightarrow> Some (Inl err, s)
                  | (None, s) \<Rightarrow> each_piece body mm stop e s
      else Some (Inr (), s))"

section \<open>Advice\<close>

abbreviation (input) LINUX_MADV_DONTNEED :: u32 where "LINUX_MADV_DONTNEED \<equiv> 4"

text \<open>The regions whose pages belong to the mapping alone.\<close>

definition drops :: "mm_region \<Rightarrow> bool" where
  "drops r \<longleftrightarrow> \<not> reserved r \<and> mm_flags r AND LINUX_MAP_ANON \<noteq> 0 \<and> mm_flags r AND LINUX_MAP_PRIVATE \<noteq> 0"

definition dontneed_piece :: "mm_region \<Rightarrow> gaddr \<Rightarrow> gaddr \<Rightarrow> host_memory \<Rightarrow> errno option \<times> host_memory" where
  "dontneed_piece region p stop mem =
     (None, if drops region
            then host_write (haddr region + (p - gaddr region)) (replicate (unat (stop - p)) 0) mem else mem)"

definition sys_madvise :: "mm \<Rightarrow> gaddr \<Rightarrow> u64 \<Rightarrow> u32 \<Rightarrow> host_memory \<Rightarrow> (unit res \<times> host_memory) option" where
  "sys_madvise mm addr len advice mem =
     (if \<not> is_page_aligned addr then Some (Inl LINUX_EINVAL, mem)
      else if len = 0 then Some (Inr (), mem)
      else let e = addr + roundup len 0x1000
           in if e < addr then Some (Inl LINUX_EINVAL, mem)
              else if advice \<noteq> LINUX_MADV_DONTNEED then Some (Inr (), mem)
              else each_piece dontneed_piece mm addr e mem)"

section \<open>Locking\<close>

datatype lock_op = Mlock u64 u64 | Munlock u64 u64

type_synonym lock_host = "lock_op \<Rightarrow> errno option"

definition lock_piece :: "lock_host \<Rightarrow> bool \<Rightarrow> mm_region \<Rightarrow> gaddr \<Rightarrow> gaddr \<Rightarrow> lock_op list \<Rightarrow> errno option \<times> lock_op list" where
  "lock_piece host lock region p stop ops =
     (let h = haddr region + (p - gaddr region);
          len = stop - p;
          op = (if lock then Mlock h len else Munlock h len)
      in (host op, ops @ [op]))"

definition mlock_range :: "lock_host \<Rightarrow> mm \<Rightarrow> gaddr \<Rightarrow> u64 \<Rightarrow> bool \<Rightarrow> (unit res \<times> lock_op list) option" where
  "mlock_range host mm addr len lock =
     (if len = 0 then Some (Inr (), [])
      else let e = addr + len
           in if e < addr then Some (Inl LINUX_ENOMEM, [])
              else each_piece (lock_piece host lock) mm (addr AND NOT 0xfff) (roundup e 0x1000) [])"

definition sys_mlock :: "lock_host \<Rightarrow> mm \<Rightarrow> gaddr \<Rightarrow> u64 \<Rightarrow> (unit res \<times> lock_op list) option" where
  "sys_mlock host mm addr len = mlock_range host mm addr len True"

definition sys_munlock :: "lock_host \<Rightarrow> mm \<Rightarrow> gaddr \<Rightarrow> u64 \<Rightarrow> (unit res \<times> lock_op list) option" where
  "sys_munlock host mm addr len = mlock_range host mm addr len False"

definition sys_mlock2 :: "lock_host \<Rightarrow> mm \<Rightarrow> gaddr \<Rightarrow> u64 \<Rightarrow> u32 \<Rightarrow> (unit res \<times> lock_op list) option" where
  "sys_mlock2 host mm addr len flags =
     (if flags AND NOT 1 \<noteq> 0 then Some (Inl LINUX_EINVAL, [])
      else if flags AND 1 \<noteq> 0 then Some (Inl LINUX_EINVAL, [])
      else mlock_range host mm addr len True)"

fun lock_all :: "lock_host \<Rightarrow> mm_region list \<Rightarrow> lock_op list \<Rightarrow> unit res \<times> lock_op list" where
  "lock_all host [] ops = (Inr (), ops)"
| "lock_all host (r # rs) ops =
     (let op = Mlock (haddr r) (msize r)
      in case host op of
           Some err \<Rightarrow> (Inl err, ops @ [op])
         | None \<Rightarrow> lock_all host rs (ops @ [op]))"

definition sys_mlockall :: "lock_host \<Rightarrow> mm \<Rightarrow> u32 \<Rightarrow> unit res \<times> lock_op list" where
  "sys_mlockall host mm flags =
     (if flags AND NOT 7 \<noteq> 0 then (Inl LINUX_EINVAL, [])
      else if flags = 0 then (Inl LINUX_EINVAL, [])
      else if flags AND 6 \<noteq> 0 then (Inl LINUX_EINVAL, [])
      else lock_all host (map (mm_store mm) (mm_regions mm)) [])"

text \<open>Unlocking goes on after a failure and answers with the first one.\<close>

fun unlock_all :: "lock_host \<Rightarrow> mm_region list \<Rightarrow> unit res \<Rightarrow> lock_op list \<Rightarrow> unit res \<times> lock_op list" where
  "unlock_all host [] ret ops = (ret, ops)"
| "unlock_all host (r # rs) ret ops =
     (let op = Munlock (haddr r) (msize r)
      in unlock_all host rs
           (case host op of Some err \<Rightarrow> if ret = Inr () then Inl err else ret | None \<Rightarrow> ret) (ops @ [op]))"

definition sys_munlockall :: "lock_host \<Rightarrow> mm \<Rightarrow> unit res \<times> lock_op list" where
  "sys_munlockall host mm = unlock_all host (map (mm_store mm) (mm_regions mm)) (Inr ()) []"

section \<open>The program break\<close>

definition brk_req :: "gaddr \<Rightarrow> u64 \<Rightarrow> mmap_req" where
  "brk_req a len =
     \<lparr> q_addr = a, q_len = len, q_prot = LINUX_PROT_READ OR LINUX_PROT_WRITE,
       q_flags = LINUX_MAP_PRIVATE OR LINUX_MAP_FIXED OR LINUX_MAP_ANON, q_fd = -1, q_off = 0 \<rparr>"

definition set_brk :: "u64 \<Rightarrow> vm \<Rightarrow> vm" where
  "set_brk b st = st\<lparr> vm_mm := (vm_mm st)\<lparr> current_brk := b \<rparr> \<rparr>"

text \<open>Where the growing heap starts: behind the region of the last byte, when that reaches further.\<close>

definition brk_start :: "mm \<Rightarrow> u64" where
  "brk_start mm =
     (let map_start = roundup (current_brk mm) GUEST_MMAP_GRANULE
      in case find_region (current_brk mm - 1) mm of
           None \<Rightarrow> map_start
         | Some i \<Rightarrow>
             let rend = gaddr (mm_store mm i) + msize (mm_store mm i)
             in if rend > map_start then rend else map_start)"

definition sys_brk :: "mmap_io \<Rightarrow> u64 \<Rightarrow> vm \<Rightarrow> (u64 \<times> vm) option" where
  "sys_brk io brk st =
     (let mm = vm_mm st; cur = current_brk mm
      in if brk < start_brk mm then Some (cur, st)
         else if brk < cur
         then let unmap_from = roundup brk GUEST_MMAP_GRANULE; unmap_to = roundup cur GUEST_MMAP_GRANULE
              in do { st \<leftarrow> (if unmap_to > unmap_from
                             then do { (_, st) \<leftarrow> do_munmap (io_host io) unmap_from (unmap_to - unmap_from) st; Some st }
                             else Some st);
                      Some (brk, set_brk brk st) }
         else if brk > cur
         then let map_end = roundup brk GUEST_MMAP_GRANULE
              in if map_end > roundup cur GUEST_MMAP_GRANULE
                 then let map_start = brk_start mm
                      in if map_start < map_end
                         then if find_region_range map_start (map_end - map_start) mm \<noteq> None then Some (cur, st)
                              else do { (_, st) \<leftarrow> do_mmap io (brk_req map_start (map_end - map_start)) st;
                                        Some (brk, set_brk brk st) }
                         else Some (brk, set_brk brk st)
                 else Some (brk, set_brk brk st)
         else Some (cur, st))"

section \<open>Synchronising, policy and teardown\<close>

abbreviation (input) LINUX_MS_ASYNC :: u32 where "LINUX_MS_ASYNC \<equiv> 1"
abbreviation (input) LINUX_MS_SYNC :: u32 where "LINUX_MS_SYNC \<equiv> 2"
abbreviation (input) LINUX_MS_INVALIDATE :: u32 where "LINUX_MS_INVALIDATE \<equiv> 4"

text \<open>Darwin's \<^verbatim>\<open>MS_ASYNC\<close>, \<^verbatim>\<open>MS_INVALIDATE\<close> and \<^verbatim>\<open>MS_SYNC\<close> are 1, 2 and 16.\<close>

definition msync_flags :: "u32 \<Rightarrow> u32" where
  "msync_flags flags =
     bit_if (flags AND LINUX_MS_ASYNC \<noteq> 0) 1 OR bit_if (flags AND LINUX_MS_SYNC \<noteq> 0) 0x10
     OR bit_if (flags AND LINUX_MS_INVALIDATE \<noteq> 0) 2"

definition block_down :: "u64 \<Rightarrow> u64" where
  "block_down a = a AND NOT (HOST_BLOCK_GRANULE - 1)"

text \<open>The call on the host that \<^verbatim>\<open>msync\<close> makes, if any: the first address, the size and the flags.\<close>

definition sys_msync :: "mm \<Rightarrow> gaddr \<Rightarrow> u64 \<Rightarrow> u32 \<Rightarrow> (u64 \<times> u64 \<times> u32) option res" where
  "sys_msync mm addr len flags =
     (case find_region addr mm of
        None \<Rightarrow> Inl LINUX_ENOMEM
      | Some i \<Rightarrow>
          let region = mm_store mm i; off = addr - gaddr region
          in if off > msize region \<or> len > msize region - off then Inl LINUX_ENOMEM
             else if flags AND NOT 7 \<noteq> 0 then Inl LINUX_EINVAL
             else let start = haddr region + off; e = start + len;
                      lo = block_down start;
                      hi = block_down (e + HOST_BLOCK_GRANULE - 1);
                      cap = block_down (haddr region + msize region + HOST_BLOCK_GRANULE - 1);
                      hi = (if hi > cap then cap else hi)
                  in if hi \<le> lo then Inr None else Inr (Some (lo, hi - lo, msync_flags flags)))"

text \<open>
  The node mask is an array on the stack whose size the guest chooses; a stack that
  cannot hold it is a crash.
\<close>

definition sys_get_mempolicy ::
  "nat \<Rightarrow> xlate \<Rightarrow> gaddr \<Rightarrow> gaddr \<Rightarrow> u64 \<Rightarrow> u64 \<Rightarrow> host_memory \<Rightarrow> (unit res \<times> host_memory) option" where
  "sys_get_mempolicy stack x policy nmask maxnode flags mem =
     (let maxnode = roundup maxnode 8
      in if flags \<noteq> 0 then Some (Inl LINUX_ENOSYS, mem)
         else case copy_to_user x mem policy (le_bytes 4 (0 :: u32)) of
                (mem, left) \<Rightarrow>
                  if left \<noteq> 0 then Some (Inl LINUX_EFAULT, mem)
                  else let bytes = unat (maxnode div 64) * 8
                       in if bytes > stack then None
                          else case copy_to_user x mem nmask (replicate bytes 0) of
                                 (mem, left) \<Rightarrow>
                                   if left \<noteq> 0 then Some (Inl LINUX_EFAULT, mem) else Some (Inr (), mem))"

definition destroy_region :: "nat \<Rightarrow> vm \<Rightarrow> vm" where
  "destroy_region i st =
     (let r = region_at st i;
          st = emit (Host_munmap (haddr r) (msize r)) st;
          st = (if arena_off r \<ge> 0
                then st\<lparr> vm_arena := arena_free (nat (arena_off r)) (unat (msize r)) (vm_arena st) \<rparr> else st)
      in if owns_fd r \<and> mm_fd r \<ge> 0 then emit (Host_close (mm_fd r)) st else st)"

definition destroy_mm :: "vm \<Rightarrow> vm" where
  "destroy_mm st =
     (let rs = mm_regions (vm_mm st);
          st = fold (\<lambda>i st. emit (Vmm_munmap (gaddr (region_at st i)) (msize (region_at st i))) st) rs st;
          st = fold destroy_region rs st
      in st\<lparr> vm_mm := (vm_mm st)\<lparr> mm_region_tree := Null, mm_regions := [] \<rparr> \<rparr>)"

section \<open>What the walk reaches\<close>

definition reached :: "mm \<Rightarrow> gaddr \<Rightarrow> gaddr \<Rightarrow> bool" where
  "reached mm p a \<longleftrightarrow> p \<le> a \<and> (\<forall>b. p \<le> b \<and> b \<le> a \<longrightarrow> view mm b \<noteq> None)"

lemma piece_bounds:
  assumes "mm_inv mm" "find_region p mm = Some i" "p < e"
  defines "rend \<equiv> gaddr (mm_store mm i) + msize (mm_store mm i)"
  defines "stop \<equiv> (if rend < e then rend else e)"
  shows "p < stop" "stop \<le> e" "\<And>a. p \<le> a \<Longrightarrow> a < stop \<Longrightarrow> view mm a = Some (cell_of (mm_store mm i) a)"
proof -
  have i: "i \<in> set (mm_regions mm)" "in_region (mm_store mm i) p"
    using find_region_iff [OF assms(1)] assms(2) by simp_all
  have "region_ok (mm_store mm i)" using mm_invD [OF assms(1)] i(1) by blast
  then have rend: "unat rend = rhi (mm_store mm i)"
    by (simp add: rend_def region_ok_def rhi_def unat_word_ariths)
  then show "p < stop" "stop \<le> e"
    using i(2) assms(3) by (auto simp: stop_def in_region_def word_less_nat_alt word_le_nat_alt)
  fix a assume a: "p \<le> a" "a < stop"
  then have "a < rend" by (auto simp: stop_def split: if_splits)
  then have "in_region (mm_store mm i) a"
    using i(2) a(1) rend by (simp add: in_region_def word_le_nat_alt word_less_nat_alt)
  then have "find_region a mm = Some i" using find_region_iff [OF assms(1)] i(1) by simp
  then show "view mm a = Some (cell_of (mm_store mm i) a)" by (simp add: view_def)
qed

lemma reached_split:
  assumes "p < stop" "\<And>a. p \<le> a \<Longrightarrow> a < stop \<Longrightarrow> view mm a \<noteq> None"
  shows "reached mm p a \<longleftrightarrow> p \<le> a \<and> (a < stop \<or> reached mm stop a)"
proof
  assume "reached mm p a"
  then show "p \<le> a \<and> (a < stop \<or> reached mm stop a)"
    using assms(1) by (auto simp: reached_def)
next
  assume a: "p \<le> a \<and> (a < stop \<or> reached mm stop a)"
  have "view mm b \<noteq> None" if b: "p \<le> b" "b \<le> a" for b
  proof (cases "b < stop")
    case False
    then have "reached mm stop a" using a b by auto
    then show ?thesis using False b by (auto simp: reached_def)
  qed (use assms(2) b in blast)
  then show "reached mm p a" using a by (simp add: reached_def)
qed

lemma each_piece_induct [consumes 1, case_names ended hole step]:
  assumes inv: "mm_inv mm"
    and "\<And>p. \<not> p < e \<Longrightarrow> P p"
    and "\<And>p. p < e \<Longrightarrow> find_region p mm = None \<Longrightarrow> P p"
    and step: "\<And>p i stop. p < e \<Longrightarrow> find_region p mm = Some i \<Longrightarrow>
      stop = (if gaddr (mm_store mm i) + msize (mm_store mm i) < e then gaddr (mm_store mm i) + msize (mm_store mm i) else e) \<Longrightarrow>
      p < stop \<Longrightarrow> stop \<le> e \<Longrightarrow> P stop \<Longrightarrow> P p"
  shows "P p"
proof (induction "unat e - unat p" arbitrary: p rule: less_induct)
  case less
  show ?case
  proof (cases "p < e \<and> find_region p mm \<noteq> None")
    case False
    then show ?thesis using assms(2,3) by blast
  next
    case True
    then obtain i where i: "p < e" "find_region p mm = Some i" by auto
    note b = piece_bounds(1,2) [OF inv i(2,1)]
    show ?thesis
      by (rule step [OF i refl b less.hyps]) (use b i(1) in \<open>auto simp: word_less_nat_alt word_le_nat_alt\<close>)
  qed
qed

lemma host_write_nth:
  assumes "length bs < 2 ^ 64"
  shows "host_write h bs mem x = (if unat (x - h) < length bs then bs ! unat (x - h) else mem x)"
proof -
  have "fold (\<lambda>i m. m(h + of_nat i := bs ! i)) [0..<n] mem x = (if unat (x - h) < n then bs ! unat (x - h) else mem x)"
    if "n < 2 ^ 64" for n
    using that
  proof (induction n)
    case (Suc n)
    have "x = h + of_nat n \<longleftrightarrow> unat (x - h) = n"
    proof
      assume "unat (x - h) = n"
      then have "x - h = of_nat n" by auto
      then show "x = h + of_nat n" by (simp add: algebra_simps)
    qed (use Suc.prems in \<open>simp add: unat_of_nat_small\<close>)
    then show ?case using Suc by auto
  qed simp
  then show ?thesis using assms by (simp add: host_write_def)
qed

section \<open>Dropping pages\<close>

definition cell_drops :: "cell \<Rightarrow> bool" where
  "cell_drops c \<longleftrightarrow> \<not> c_reserved c \<and> c_flags c AND LINUX_MAP_ANON \<noteq> 0 \<and> c_flags c AND LINUX_MAP_PRIVATE \<noteq> 0"

definition dropped :: "mm \<Rightarrow> gaddr \<Rightarrow> gaddr \<Rightarrow> u64 set" where
  "dropped mm p e = {c_haddr c |a c. a < e \<and> reached mm p a \<and> view mm a = Some c \<and> cell_drops c}"

lemma dontneed_writes:
  assumes "p < stop"
  shows "snd (dontneed_piece r p stop mem) x =
    (if drops r \<and> (\<exists>a. p \<le> a \<and> a < stop \<and> x = c_haddr (cell_of r a)) then 0 else mem x)"
proof -
  let ?h = "haddr r + (p - gaddr r)"
  have len: "unat (stop - p) < 2 ^ 64" using unsigned_less [of "stop - p", where ?'a = nat] by simp
  have u: "unat (stop - p) = unat stop - unat p" using assms by (simp add: unat_sub less_imp_le)
  have "unat (x - ?h) < unat (stop - p) \<longleftrightarrow> (\<exists>a. p \<le> a \<and> a < stop \<and> x = c_haddr (cell_of r a))"
  proof
    assume l: "unat (x - ?h) < unat (stop - p)"
    define d where "d = x - ?h"
    let ?a = "p + d"
    have l: "unat d < unat stop - unat p" using l by (simp add: u d_def)
    have ua: "unat ?a = unat p + unat d"
      using l unsigned_less [of stop, where ?'a = nat] by (simp add: unat_word_ariths)
    then have "p \<le> ?a" "?a < stop" using l by (auto simp: u word_le_nat_alt word_less_nat_alt)
    moreover have "x = c_haddr (cell_of r ?a)" by (simp add: cell_of_def d_def algebra_simps)
    ultimately show "\<exists>a. p \<le> a \<and> a < stop \<and> x = c_haddr (cell_of r a)" by blast
  next
    assume "\<exists>a. p \<le> a \<and> a < stop \<and> x = c_haddr (cell_of r a)"
    then obtain a where a: "p \<le> a" "a < stop" "x = c_haddr (cell_of r a)" by blast
    have "x - ?h = a - p" using a(3) by (simp add: cell_of_def algebra_simps)
    then have "unat (x - ?h) = unat a - unat p" using a(1) by (metis unat_sub)
    then show "unat (x - ?h) < unat (stop - p)"
      using a(1,2) by (simp add: u word_le_nat_alt word_less_nat_alt)
  qed
  then show ?thesis
    using host_write_nth [of "replicate (unat (stop - p)) 0" ?h mem x] len by (auto simp: dontneed_piece_def)
qed

lemma dropped_step:
  assumes "mm_inv mm" "find_region p mm = Some i" "p < stop" "stop \<le> e"
    and "\<And>a. p \<le> a \<Longrightarrow> a < stop \<Longrightarrow> view mm a = Some (cell_of (mm_store mm i) a)"
  shows "dropped mm p e = {x. drops (mm_store mm i) \<and> (\<exists>a. p \<le> a \<and> a < stop \<and> x = c_haddr (cell_of (mm_store mm i) a))}
    \<union> dropped mm stop e"
proof -
  have d: "cell_drops (cell_of (mm_store mm i) a) = drops (mm_store mm i)" for a
    by (simp add: cell_drops_def drops_def cell_of_def)
  have r: "reached mm p a \<longleftrightarrow> p \<le> a \<and> (a < stop \<or> reached mm stop a)" for a
    by (rule reached_split [OF assms(3)]) (simp add: assms(5))
  show ?thesis
  proof (intro equalityI subsetI)
    fix x assume "x \<in> dropped mm p e"
    then obtain a c where a: "x = c_haddr c" "a < e" "reached mm p a" "view mm a = Some c" "cell_drops c"
      by (auto simp: dropped_def)
    show "x \<in> {x. drops (mm_store mm i) \<and> (\<exists>a. p \<le> a \<and> a < stop \<and> x = c_haddr (cell_of (mm_store mm i) a))}
      \<union> dropped mm stop e"
    proof (cases "a < stop")
      case True
      then have "c = cell_of (mm_store mm i) a" "p \<le> a" using a r assms(5) [of a] by auto
      then show ?thesis using a True d by auto
    next
      case False
      then show ?thesis using a r by (auto simp: dropped_def)
    qed
  next
    fix x assume "x \<in> {x. drops (mm_store mm i) \<and> (\<exists>a. p \<le> a \<and> a < stop \<and> x = c_haddr (cell_of (mm_store mm i) a))}
      \<union> dropped mm stop e"
    then consider a where "drops (mm_store mm i)" "p \<le> a" "a < stop" "x = c_haddr (cell_of (mm_store mm i) a)"
      | "x \<in> dropped mm stop e" by auto
    then show "x \<in> dropped mm p e"
    proof cases
      case (1 a)
      then show ?thesis using r [of a] assms(4) assms(5) [of a] d unfolding dropped_def by force
    next
      case 2
      then obtain a c where a: "x = c_haddr c" "a < e" "reached mm stop a" "view mm a = Some c" "cell_drops c"
        by (auto simp: dropped_def)
      moreover have "stop \<le> a" using a(3) by (simp add: reached_def)
      then have "reached mm p a" using r [of a] a(3) assms(3) by simp
      ultimately show ?thesis by (auto simp: dropped_def)
    qed
  qed
qed

lemma madvise_walk:
  assumes "mm_inv mm"
  shows "\<exists>mem'. each_piece dontneed_piece mm p e mem =
      Some (if \<forall>a. p \<le> a \<and> a < e \<longrightarrow> view mm a \<noteq> None then Inr () else Inl LINUX_ENOMEM, mem')
    \<and> (\<forall>x. mem' x = (if x \<in> dropped mm p e then 0 else mem x))"
  using assms
proof (induction p arbitrary: mem rule: each_piece_induct [where e = e])
  case (ended p)
  then show ?case by (subst each_piece.simps) (auto simp: dropped_def reached_def)
next
  case (hole p)
  then have "view mm p = None" by (simp add: view_def)
  then show ?case using hole by (subst each_piece.simps) (auto simp: dropped_def reached_def)
next
  case (step p i stop)
  let ?mem = "snd (dontneed_piece (mm_store mm i) p stop mem)"
  note b = piece_bounds [OF assms step(2,1), folded step(3)]
  obtain mem' where m: "each_piece dontneed_piece mm stop e ?mem =
      Some (if \<forall>a. stop \<le> a \<and> a < e \<longrightarrow> view mm a \<noteq> None then Inr () else Inl LINUX_ENOMEM, mem')"
    "\<And>x. mem' x = (if x \<in> dropped mm stop e then 0 else ?mem x)"
    using step.IH [of ?mem] by blast
  have "(\<forall>a. stop \<le> a \<and> a < e \<longrightarrow> view mm a \<noteq> None) \<longleftrightarrow> (\<forall>a. p \<le> a \<and> a < e \<longrightarrow> view mm a \<noteq> None)"
  proof (intro iffI allI impI)
    fix a assume all: "\<forall>a. stop \<le> a \<and> a < e \<longrightarrow> view mm a \<noteq> None" and a: "p \<le> a \<and> a < e"
    show "view mm a \<noteq> None"
    proof (cases "a < stop")
      case True
      then show ?thesis using b(3) [of a] a by simp
    qed (use all a in auto)
  qed (use step(4) in auto)
  moreover have "each_piece dontneed_piece mm p e mem = each_piece dontneed_piece mm stop e ?mem"
    using step(1,2) by (subst each_piece.simps) (simp add: Let_def step(3) [symmetric] dontneed_piece_def)
  moreover have "mem' x = (if x \<in> dropped mm p e then 0 else mem x)" for x
    using m(2) [of x] dontneed_writes [OF step(4), of "mm_store mm i" mem x] dropped_step [OF assms step(2) b(1,2,3)] by auto
  ultimately show ?case using m(1) by auto
qed

section \<open>The claims\<close>

text \<open>
  C13: \<^verbatim>\<open>madvise(MADV_DONTNEED)\<close> zeroes exactly the bytes behind the private anonymous memory of
  the range, up to the first address that is not mapped; it answers 0 when there is no
  such address and \<^verbatim>\<open>ENOMEM\<close> otherwise, and it always returns.
\<close>

theorem sys_madvise_drops:
  assumes "mm_inv mm" "is_page_aligned addr" "0 < len" "unat len + 0xfff < 2 ^ 64"
    "unat addr + nroundup (unat len) 0x1000 < 2 ^ 64" "e = addr + roundup len 0x1000"
  shows "\<exists>mem'. sys_madvise mm addr len 4 mem =
      Some (if \<forall>a. addr \<le> a \<and> a < e \<longrightarrow> view mm a \<noteq> None then Inr () else Inl LINUX_ENOMEM, mem')
    \<and> (\<forall>x. mem' x = (if \<exists>a c. a < e \<and> reached mm addr a \<and> view mm a = Some c \<and> cell_drops c \<and> x = c_haddr c
                       then 0 else mem x))"
proof -
  have "unat e = unat addr + nroundup (unat len) 0x1000"
    using roundup_page [OF assms(4)] assms(5,6) by (simp add: unat_word_ariths)
  then have "\<not> e < addr" by (simp add: word_less_nat_alt)
  moreover have "x \<in> dropped mm addr e \<longleftrightarrow>
    (\<exists>a c. a < e \<and> reached mm addr a \<and> view mm a = Some c \<and> cell_drops c \<and> x = c_haddr c)" for x
    by (auto simp: dropped_def)
  moreover have "len \<noteq> 0" using assms(3) by auto
  ultimately show ?thesis
    using madvise_walk [OF assms(1), of addr e mem] assms(2) by (simp add: sys_madvise_def Let_def assms(6) [symmetric])
qed

theorem sys_madvise_drops_witness:
  "\<exists>mem'. sys_madvise (vm_mm sample_vm) 0x11000 0x1000 4 (\<lambda>_. 7) = Some (Inr (), mem') \<and>
     mem' 0x101000 = 0 \<and> mem' 0x102000 = 7"
proof -
  have inv: "mm_inv (vm_mm sample_vm)" using sample_vm_inv by (simp add: vm_inv_def)
  obtain mem' where m: "sys_madvise (vm_mm sample_vm) 0x11000 0x1000 4 (\<lambda>_. 7) =
      Some (if \<forall>a. 0x11000 \<le> a \<and> a < 0x12000 \<longrightarrow> view (vm_mm sample_vm) a \<noteq> None then Inr () else Inl LINUX_ENOMEM, mem')"
    "\<And>x. mem' x = (if \<exists>a c. a < 0x12000 \<and> reached (vm_mm sample_vm) 0x11000 a \<and> view (vm_mm sample_vm) a = Some c \<and>
      cell_drops c \<and> x = c_haddr c then 0 else 7)"
    using sys_madvise_drops [OF inv, of "0x11000" "0x1000" "0x12000" "\<lambda>_. 7"]
    by (auto simp: is_page_aligned_def nroundup_def roundup_def)
  have "view (vm_mm sample_vm) a \<noteq> None" if "0x11000 \<le> a" "a < 0x12000" for a
    using that by (simp add: sample_view in_region_def sample_region_def rlo_def rhi_def word_le_nat_alt word_less_nat_alt)
  moreover have "reached (vm_mm sample_vm) 0x11000 0x11000"
    using calculation by (auto simp: reached_def)
  moreover have "view (vm_mm sample_vm) 0x11000 = Some (cell_of sample_region 0x11000)"
    by (simp add: sample_view in_region_def sample_region_def rlo_def rhi_def)
  moreover have "cell_drops (cell_of sample_region 0x11000)" "c_haddr (cell_of sample_region 0x11000) = 0x101000"
    by (simp_all add: cell_drops_def cell_of_def sample_region_def)
  moreover have False if "a < 0x12000" "view (vm_mm sample_vm) a = Some c" "c_haddr c = 0x102000" for a c
  proof -
    have "a + 0xf0000 = 0x102000" using that by (auto simp: sample_view cell_of_def sample_region_def split: if_splits)
    then have "a = 0x102000 - 0xf0000" by (simp add: eq_diff_eq)
    then show False using that(1) by simp
  qed
  ultimately show ?thesis using m by (intro exI [of _ mem']) (auto; metis)
qed

definition heap_vm :: vm where
  "heap_vm = start_vm\<lparr> vm_mm := init_mm\<lparr> start_brk := 0x20000, current_brk := 0x20000 \<rparr> \<rparr>"


end
