(* ===== verification/Mem_Policy.thy ===== *)
theory Mem_Policy
  imports Mm_Calls
begin

text \<open>
  Memory policy and the calls on another process's memory (\<^verbatim>\<open>src/mm/mmap.c\<close>): node masks
  read from the guest, \<^verbatim>\<open>set_mempolicy\<close>, \<^verbatim>\<open>mbind\<close>, \<^verbatim>\<open>migrate_pages\<close>, \<^verbatim>\<open>move_pages\<close>,
  \<^verbatim>\<open>process_vm_readv\<close> and \<^verbatim>\<open>process_vm_writev\<close>, \<^verbatim>\<open>process_madvise\<close>, \<^verbatim>\<open>process_mrelease\<close> and
  \<^verbatim>\<open>remap_file_pages\<close>, and \<^verbatim>\<open>mincore\<close>.
\<close>

section \<open>Which process\<close>

text \<open>
  The process a call names, as \<^verbatim>\<open>pidns_to_host\<close> or \<^verbatim>\<open>pidfd_host_pid\<close> answers for it: the host's
  number, negative for none, whether it is the calling process, and whether the host
  still has it.
\<close>

record target =
  tg_host :: int
  tg_self :: bool
  tg_alive :: bool

definition only_self :: "target \<Rightarrow> errno option" where
  "only_self t =
     (if tg_host t < 0 then Some LINUX_ESRCH
      else if \<not> tg_self t then if \<not> tg_alive t then Some LINUX_ESRCH else Some LINUX_EPERM
      else None)"

section \<open>Node masks\<close>

definition read_word :: "xlate \<Rightarrow> host_memory \<Rightarrow> gaddr \<Rightarrow> u64 option" where
  "read_word x mem p = (case copy_from_user x mem p 8 of (bs, left) \<Rightarrow> if left \<noteq> 0 then None else Some (le_word bs))"

text \<open>The loop over the words of a mask stops at the first word that names a node other than 0.\<close>

fun nodemask_loop :: "xlate \<Rightarrow> host_memory \<Rightarrow> gaddr \<Rightarrow> nat list \<Rightarrow> bool \<Rightarrow> bool res" where
  "nodemask_loop x mem p [] node0 = Inr node0"
| "nodemask_loop x mem p (i # is) node0 =
     (case read_word x mem (p + of_nat i * 8) of
        None \<Rightarrow> Inl LINUX_EFAULT
      | Some w \<Rightarrow>
          if i = 0 then if w AND NOT 1 \<noteq> 0 then Inl LINUX_EINVAL else nodemask_loop x mem p is (w AND 1 \<noteq> 0)
          else if w \<noteq> 0 then Inl LINUX_EINVAL
          else nodemask_loop x mem p is node0)"

definition mask_words :: "u64 \<Rightarrow> nat list" where
  "mask_words maxnode = [0..<unat ((maxnode + 63) div 64)]"

definition read_nodemask :: "xlate \<Rightarrow> host_memory \<Rightarrow> gaddr \<Rightarrow> u64 \<Rightarrow> bool res" where
  "read_nodemask x mem nodemask maxnode =
     (if nodemask = 0 \<or> maxnode = 0 then Inr False
      else nodemask_loop x mem nodemask (mask_words maxnode) False)"

definition MPOL_MODE_FLAGS :: u32 where
  "MPOL_MODE_FLAGS = 0xe000"

text \<open>What a mode asks of the mask: only 0 (\<^verbatim>\<open>DEFAULT\<close>) to 5 (\<^verbatim>\<open>PREFERRED_MANY\<close>) come here.\<close>

definition mode_mask_ok :: "u32 \<Rightarrow> bool \<Rightarrow> bool" where
  "mode_mask_ok bare node0 =
     (if bare = 0 \<or> bare = 4 then \<not> node0
      else if bare = 2 \<or> bare = 3 \<or> bare = 5 then node0
      else True)"

definition mode_ok :: "u32 \<Rightarrow> bool" where
  "mode_ok mode \<longleftrightarrow>
     (let bare = mode AND NOT MPOL_MODE_FLAGS; mflags = mode AND MPOL_MODE_FLAGS
      in \<not> (sint bare < 0 \<or> sint bare > 5) \<and> \<not> (mflags AND 0x8000 \<noteq> 0 \<and> mflags AND 0x4000 \<noteq> 0))"

definition sys_set_mempolicy :: "xlate \<Rightarrow> host_memory \<Rightarrow> u32 \<Rightarrow> gaddr \<Rightarrow> u64 \<Rightarrow> unit res" where
  "sys_set_mempolicy x mem mode nodemask maxnode =
     (if \<not> mode_ok mode then Inl LINUX_EINVAL
      else if maxnode > 1024 * 1024 then Inl LINUX_EINVAL
      else case read_nodemask x mem nodemask maxnode of
             Inl e \<Rightarrow> Inl e
           | Inr node0 \<Rightarrow> if mode_mask_ok (mode AND NOT MPOL_MODE_FLAGS) node0 then Inr () else Inl LINUX_EINVAL)"

text \<open>\<^verbatim>\<open>mbind\<close> reads the mask itself, to its end, and remembers whether it named other nodes.\<close>

fun mbind_loop :: "xlate \<Rightarrow> host_memory \<Rightarrow> gaddr \<Rightarrow> nat list \<Rightarrow> bool \<times> bool \<Rightarrow> (bool \<times> bool) res" where
  "mbind_loop x mem p [] names = Inr names"
| "mbind_loop x mem p (i # is) names =
     (case read_word x mem (p + of_nat i * 8) of
        None \<Rightarrow> Inl LINUX_EFAULT
      | Some w \<Rightarrow>
          mbind_loop x mem p is
            (if i = 0 then (w AND 1 \<noteq> 0, if w AND NOT 1 \<noteq> 0 then True else snd names)
             else if w \<noteq> 0 then (fst names, True) else names))"

definition sys_mbind :: "xlate \<Rightarrow> host_memory \<Rightarrow> gaddr \<Rightarrow> u64 \<Rightarrow> u32 \<Rightarrow> gaddr \<Rightarrow> u64 \<Rightarrow> u32 \<Rightarrow> unit res" where
  "sys_mbind x mem addr len mode nodemask maxnode flags =
     (if flags AND NOT 7 \<noteq> 0 then Inl LINUX_EINVAL
      else if \<not> mode_ok mode then Inl LINUX_EINVAL
      else if addr AND 0xfff \<noteq> 0 then Inl LINUX_EINVAL
      else if maxnode > 1024 * 1024 then Inl LINUX_EINVAL
      else case (if nodemask \<noteq> 0 \<and> maxnode > 0
                 then mbind_loop x mem nodemask (mask_words maxnode) (False, False) else Inr (False, False)) of
             Inl e \<Rightarrow> Inl e
           | Inr (names_node0, names_others) \<Rightarrow>
               if names_others then Inl LINUX_EINVAL
               else if mode_mask_ok (mode AND NOT MPOL_MODE_FLAGS) names_node0 then Inr () else Inl LINUX_EINVAL)"

definition sys_migrate_pages :: "target \<Rightarrow> xlate \<Rightarrow> host_memory \<Rightarrow> int \<Rightarrow> u64 \<Rightarrow> gaddr \<Rightarrow> gaddr \<Rightarrow> unit res" where
  "sys_migrate_pages t x mem pid maxnode old_nodes new_nodes =
     (if maxnode > 1024 * 1024 then Inl LINUX_EINVAL
      else if pid < 0 then Inl LINUX_EINVAL
      else case only_self t of
             Some e \<Rightarrow> Inl e
           | None \<Rightarrow>
               case read_nodemask x mem old_nodes maxnode of
                 Inl e \<Rightarrow> Inl e
               | Inr _ \<Rightarrow> (case read_nodemask x mem new_nodes maxnode of Inl e \<Rightarrow> Inl e | Inr _ \<Rightarrow> Inr ()))"

text \<open>The walk of \<^verbatim>\<open>set_mempolicy_home_node\<close> only looks whether the range is mapped.\<close>

partial_function (option) home_walk :: "mm \<Rightarrow> gaddr \<Rightarrow> gaddr \<Rightarrow> unit res option" where
  "home_walk mm p e =
     (if p < e
      then case find_region p mm of
             None \<Rightarrow> Some (Inl LINUX_EFAULT)
           | Some i \<Rightarrow> home_walk mm (gaddr (mm_store mm i) + msize (mm_store mm i)) e
      else Some (Inr ()))"

definition sys_set_mempolicy_home_node :: "mm \<Rightarrow> gaddr \<Rightarrow> u64 \<Rightarrow> u64 \<Rightarrow> u64 \<Rightarrow> unit res option" where
  "sys_set_mempolicy_home_node mm start len home_node flags =
     (if flags \<noteq> 0 then Some (Inl LINUX_EINVAL)
      else if start AND 0xfff \<noteq> 0 then Some (Inl LINUX_EINVAL)
      else if home_node \<noteq> 0 \<and> home_node \<noteq> -1 then Some (Inl LINUX_EINVAL)
      else if len = 0 then Some (Inr ())
      else if start + len < start then Some (Inl LINUX_EINVAL)
      else home_walk mm start (roundup (start + len) 0x1000))"

section \<open>Pages\<close>

text \<open>The status of each page: \<^verbatim>\<open>-EINVAL\<close> for a node there is not, \<^verbatim>\<open>-ENOENT\<close> for no page, 0 otherwise.\<close>

definition page_status :: "mm \<Rightarrow> gaddr \<Rightarrow> u32 option \<Rightarrow> int" where
  "page_status mm page node =
     (if (case node of None \<Rightarrow> False | Some n \<Rightarrow> n \<noteq> 0) then - int (errno_no LINUX_EINVAL)
      else if find_region page mm = None then - int (errno_no LINUX_ENOENT) else 0)"

text \<open>The elements of an array of \<open>n\<close> elements of \<open>k\<close> bytes each.\<close>

definition elems :: "nat \<Rightarrow> nat \<Rightarrow> u8 list \<Rightarrow> u8 list list" where
  "elems k n bs = map (\<lambda>i. take k (drop (i * k) bs)) [0..<n]"

definition sys_move_pages ::
  "(nat \<Rightarrow> bool) \<Rightarrow> target \<Rightarrow> xlate \<Rightarrow> mm \<Rightarrow> int \<Rightarrow> u64 \<Rightarrow> gaddr \<Rightarrow> gaddr \<Rightarrow> gaddr \<Rightarrow> u32 \<Rightarrow> host_memory \<Rightarrow>
   unit res \<times> host_memory" where
  "sys_move_pages room t x mm pid cnt pages_ptr nodes_ptr status_ptr flags mem =
     (if flags AND NOT 6 \<noteq> 0 then (Inl LINUX_EINVAL, mem)
      else if cnt > 0x100000 then (Inl LINUX_EINVAL, mem)
      else if status_ptr = 0 then (Inl LINUX_EFAULT, mem)
      else if pid < 0 then (Inl LINUX_EINVAL, mem)
      else case only_self t of
             Some e \<Rightarrow> (Inl e, mem)
           | None \<Rightarrow>
               if cnt = 0 then (Inr (), mem)
               else
                 let n = unat cnt
                 in if \<not> room (n * 8) \<or> \<not> room (n * 4) then (Inl LINUX_ENOMEM, mem)
                    else
                      let (pages, left) = copy_from_user x mem pages_ptr (n * 8);
                          (nodes, nleft) = (if nodes_ptr \<noteq> 0 then copy_from_user x mem nodes_ptr (n * 4) else ([], 0))
                      in if left \<noteq> 0 \<or> nleft \<noteq> 0 then (Inl LINUX_EFAULT, mem)
                         else
                           let asked = (if nodes_ptr \<noteq> 0 then map (\<lambda>bs. Some (le_word bs)) (elems 4 n nodes)
                                        else replicate n None);
                               status = map2 (\<lambda>page. page_status mm (le_word page)) (elems 8 n pages) asked;
                               (mem, left) = copy_to_user x mem status_ptr
                                 (concat (map (\<lambda>s. le_bytes 4 (of_int s :: u32)) status))
                           in (if left \<noteq> 0 then Inl LINUX_EFAULT else Inr (), mem))"

text \<open>
  \<^verbatim>\<open>mincore\<close> asks the host about each region's part of the range. The host's answer for
  \<open>n\<close> pages is the bytes it writes to the buffer, or an error; the buffer was zero.
\<close>

type_synonym residency = "u64 \<Rightarrow> nat \<Rightarrow> u8 list res"

definition incore :: "nat \<Rightarrow> u8 list \<Rightarrow> u8 list" where
  "incore n tmp = map (\<lambda>b. if b AND 1 \<noteq> 0 then 1 else 0) (take n (tmp @ replicate n 0))"

partial_function (option) mincore_loop ::
  "(nat \<Rightarrow> bool) \<Rightarrow> residency \<Rightarrow> mm \<Rightarrow> gaddr \<Rightarrow> nat \<Rightarrow> nat \<Rightarrow> u8 list \<Rightarrow> u8 list res option" where
  "mincore_loop room host mm addr npages fin out =
     (if fin < npages
      then let p = addr + of_nat fin * 0x1000
           in case find_region p mm of
                None \<Rightarrow> Some (Inl LINUX_ENOMEM)
              | Some i \<Rightarrow>
                  let r = mm_store mm i;
                      rend = gaddr r + msize r;
                      n = min (unat ((rend - p) div 0x1000)) (npages - fin)
                  in if \<not> room n then Some (Inl LINUX_ENOMEM)
                     else case host (haddr r + (p - gaddr r)) (n * 4096) of
                            Inl e \<Rightarrow> Some (Inl e)
                          | Inr tmp \<Rightarrow> mincore_loop room host mm addr npages (fin + n) (out @ incore n tmp)
      else Some (Inr out))"

definition sys_mincore ::
  "(nat \<Rightarrow> bool) \<Rightarrow> residency \<Rightarrow> xlate \<Rightarrow> mm \<Rightarrow> gaddr \<Rightarrow> u64 \<Rightarrow> gaddr \<Rightarrow> host_memory \<Rightarrow> (unit res \<times> host_memory) option" where
  "sys_mincore room host x mm addr len vec_ptr mem =
     (if addr AND 0xfff \<noteq> 0 then Some (Inl LINUX_EINVAL, mem)
      else if len = 0 then Some (Inr (), mem)
      else if addr + len < addr then Some (Inl LINUX_ENOMEM, mem)
      else let npages = unat ((len + 0x1000 - 1) div 0x1000)
           in if \<not> room npages then Some (Inl LINUX_ENOMEM, mem)
              else case mincore_loop room host mm addr npages 0 [] of
                     None \<Rightarrow> None
                   | Some (Inl e) \<Rightarrow> Some (Inl e, mem)
                   | Some (Inr out) \<Rightarrow>
                       (case copy_to_user x mem vec_ptr out of
                          (mem, left) \<Rightarrow> Some (if left \<noteq> 0 then Inl LINUX_EFAULT else Inr (), mem)))"

section \<open>Vectors of another process\<close>

record l_iovec =
  iov_base :: u64
  iov_len :: u64

definition l_iovec_of_bytes :: "u8 list \<Rightarrow> l_iovec" where
  "l_iovec_of_bytes bs = \<lparr> iov_base = le_word (take 8 bs), iov_len = le_word (drop 8 bs) \<rparr>"

definition read_iovs :: "xlate \<Rightarrow> host_memory \<Rightarrow> gaddr \<Rightarrow> nat \<Rightarrow> l_iovec list option" where
  "read_iovs x mem vec n =
     (case copy_from_user x mem vec (n * 16) of
        (bs, left) \<Rightarrow> if left \<noteq> 0 then None else Some (map l_iovec_of_bytes (elems 16 n bs)))"

text \<open>
  The transfer walks the two vectors together, \<open>loff\<close> and \<open>roff\<close> bytes into their first
  elements. It answers with the bytes moved, or the error of a first hop that failed.
\<close>

function vm_rw_loop ::
  "(nat \<Rightarrow> bool) \<Rightarrow> xlate \<Rightarrow> bool \<Rightarrow> l_iovec list \<Rightarrow> l_iovec list \<Rightarrow> nat \<Rightarrow> nat \<Rightarrow> nat \<Rightarrow> host_memory \<Rightarrow> nat res \<times> host_memory" where
  "vm_rw_loop room x writing (l # ls) (r # rs) loff roff moved mem =
     (let lrem = unat (iov_len l) - loff;
          rrem = unat (iov_len r) - roff
      in if lrem = 0 then vm_rw_loop room x writing ls (r # rs) 0 roff moved mem
         else if rrem = 0 then vm_rw_loop room x writing (l # ls) rs loff 0 moved mem
         else
           let n = (if lrem < rrem then lrem else rrem);
               la = iov_base l + of_nat loff;
               ra = iov_base r + of_nat roff
           in if \<not> room n then (Inl LINUX_ENOMEM, mem)
              else case copy_from_user x mem (if writing then la else ra) n of
                     (tmp, left) \<Rightarrow>
                       if left \<noteq> 0 then (if sint (of_nat moved :: u64) > 0 then Inr moved else Inl LINUX_EFAULT, mem)
                       else case copy_to_user x mem (if writing then ra else la) tmp of
                              (mem, left) \<Rightarrow>
                                if left \<noteq> 0 then (if sint (of_nat moved :: u64) > 0 then Inr moved else Inl LINUX_EFAULT, mem)
                                else vm_rw_loop room x writing (l # ls) (r # rs) (loff + n) (roff + n) (moved + n) mem)"
| "vm_rw_loop room x writing [] rs loff roff moved mem = (Inr moved, mem)"
| "vm_rw_loop room x writing ls [] loff roff moved mem = (Inr moved, mem)"
  by pat_completeness auto
termination
  by (relation "inv_image (less_than <*lex*> less_than)
        (\<lambda>(room, x, writing, ls, rs, loff, roff, moved, mem).
           (length ls + length rs, case ls of [] \<Rightarrow> 0 | l # _ \<Rightarrow> unat (iov_len l) - loff))") auto

definition process_vm_rw ::
  "(nat \<Rightarrow> bool) \<Rightarrow> target \<Rightarrow> xlate \<Rightarrow> int \<Rightarrow> gaddr \<Rightarrow> u64 \<Rightarrow> gaddr \<Rightarrow> u64 \<Rightarrow> u64 \<Rightarrow> bool \<Rightarrow> host_memory \<Rightarrow> u32 res \<times> host_memory" where
  "process_vm_rw room t x pid lvec liovcnt rvec riovcnt flags writing mem =
     (if flags \<noteq> 0 then (Inl LINUX_EINVAL, mem)
      else if liovcnt > 1024 \<or> riovcnt > 1024 then (Inl LINUX_EINVAL, mem)
      else if pid \<le> 0 then (Inl LINUX_ESRCH, mem)
      else case only_self t of
             Some e \<Rightarrow> (Inl e, mem)
           | None \<Rightarrow>
               if liovcnt = 0 \<or> riovcnt = 0 then (Inr 0, mem)
               else if \<not> room (unat liovcnt * 16) \<or> \<not> room (unat riovcnt * 16) then (Inl LINUX_ENOMEM, mem)
               else case read_iovs x mem lvec (unat liovcnt) of
                      None \<Rightarrow> (Inl LINUX_EFAULT, mem)
                    | Some liov \<Rightarrow>
                        (case read_iovs x mem rvec (unat riovcnt) of
                           None \<Rightarrow> (Inl LINUX_EFAULT, mem)
                         | Some riov \<Rightarrow>
                             (case vm_rw_loop room x writing liov riov 0 0 0 mem of
                                (Inl e, mem) \<Rightarrow> (Inl e, mem)
                              | (Inr moved, mem) \<Rightarrow> (Inr (of_nat moved), mem))))"

definition sys_process_vm_readv ::
  "(nat \<Rightarrow> bool) \<Rightarrow> target \<Rightarrow> xlate \<Rightarrow> int \<Rightarrow> gaddr \<Rightarrow> u64 \<Rightarrow> gaddr \<Rightarrow> u64 \<Rightarrow> u64 \<Rightarrow> host_memory \<Rightarrow> u32 res \<times> host_memory" where
  "sys_process_vm_readv room t x pid lvec liovcnt rvec riovcnt flags =
     process_vm_rw room t x pid lvec liovcnt rvec riovcnt flags False"

definition sys_process_vm_writev ::
  "(nat \<Rightarrow> bool) \<Rightarrow> target \<Rightarrow> xlate \<Rightarrow> int \<Rightarrow> gaddr \<Rightarrow> u64 \<Rightarrow> gaddr \<Rightarrow> u64 \<Rightarrow> u64 \<Rightarrow> host_memory \<Rightarrow> u32 res \<times> host_memory" where
  "sys_process_vm_writev room t x pid lvec liovcnt rvec riovcnt flags =
     process_vm_rw room t x pid lvec liovcnt rvec riovcnt flags True"

definition pidfd_self :: "target \<Rightarrow> errno option" where
  "pidfd_self t =
     (if tg_host t < 0 then Some LINUX_EBADF
      else if \<not> tg_alive t then Some LINUX_ESRCH
      else if \<not> tg_self t then Some LINUX_EPERM
      else None)"

fun advise_loop :: "xlate \<Rightarrow> l_iovec list \<Rightarrow> nat \<Rightarrow> u32 res" where
  "advise_loop x [] counted = Inr (of_nat counted)"
| "advise_loop x (v # vs) counted =
     (if iov_len v = 0 then advise_loop x vs counted
      else if x (iov_base v) = None \<or> x (iov_base v + iov_len v - 1) = None
      then if sint (of_nat counted :: u64) > 0 then Inr (of_nat counted) else Inl LINUX_EFAULT
      else advise_loop x vs (counted + unat (iov_len v)))"

definition sys_process_madvise ::
  "(nat \<Rightarrow> bool) \<Rightarrow> target \<Rightarrow> xlate \<Rightarrow> host_memory \<Rightarrow> gaddr \<Rightarrow> u64 \<Rightarrow> u32 \<Rightarrow> u32 \<Rightarrow> u32 res" where
  "sys_process_madvise room t x mem vec vlen advice flags =
     (if flags \<noteq> 0 then Inl LINUX_EINVAL
      else if vlen > 1024 then Inl LINUX_EINVAL
      else if advice \<notin> {20, 21, 3, 25} then Inl LINUX_EINVAL
      else case pidfd_self t of
             Some e \<Rightarrow> Inl e
           | None \<Rightarrow>
               if vlen = 0 then Inr 0
               else if \<not> room (unat vlen * 16) then Inl LINUX_ENOMEM
               else case read_iovs x mem vec (unat vlen) of
                      None \<Rightarrow> Inl LINUX_EFAULT
                    | Some iov \<Rightarrow> advise_loop x iov 0)"

definition sys_process_mrelease :: "target \<Rightarrow> u32 \<Rightarrow> unit res" where
  "sys_process_mrelease t flags =
     (if flags \<noteq> 0 then Inl LINUX_EINVAL
      else case pidfd_self t of Some e \<Rightarrow> Inl e | None \<Rightarrow> Inl LINUX_EINVAL)"

definition sys_remap_file_pages :: "gaddr \<Rightarrow> u64 \<Rightarrow> u32 \<Rightarrow> u64 \<Rightarrow> u64 \<Rightarrow> unit res" where
  "sys_remap_file_pages start len pr page flags = Inr ()"

section \<open>The bytes a vector names\<close>

definition span :: "xlate \<Rightarrow> gaddr \<Rightarrow> nat \<Rightarrow> u64 list" where
  "span x p n = map (\<lambda>k. the (x (p + of_nat k))) [0..<n]"

definition iov_addrs :: "xlate \<Rightarrow> l_iovec list \<Rightarrow> u64 list" where
  "iov_addrs x iovs = concat (map (\<lambda>v. span x (iov_base v) (unat (iov_len v))) iovs)"

definition iovs_mapped :: "xlate \<Rightarrow> l_iovec list \<Rightarrow> bool" where
  "iovs_mapped x iovs \<longleftrightarrow> (\<forall>v \<in> set iovs. \<forall>k < unat (iov_len v). x (iov_base v + of_nat k) \<noteq> None)"

definition write_many :: "u64 list \<Rightarrow> u8 list \<Rightarrow> host_memory \<Rightarrow> host_memory" where
  "write_many ds vs mem = fold (\<lambda>(d, v) m. m(d := v)) (zip ds vs) mem"

lemma length_span [simp]: "length (span x p n) = n"
  by (simp add: span_def)

lemma iov_addrs_Nil [simp]: "iov_addrs x [] = []"
  by (simp add: iov_addrs_def)

lemma iov_addrs_Cons: "iov_addrs x (v # vs) = span x (iov_base v) (unat (iov_len v)) @ iov_addrs x vs"
  by (simp add: iov_addrs_def)

lemma span_add: "span x p (m + n) = span x p m @ span x (p + of_nat m) n"
  by (rule nth_equalityI) (auto simp: span_def nth_append add.assoc simp flip: of_nat_add)

lemma drop_span: "k \<le> n \<Longrightarrow> drop k (span x p n) = span x (p + of_nat k) (n - k)"
  using span_add [of x p k "n - k"] by simp

lemma span_Suc: "span x p (Suc n) = the (x p) # span x (p + 1) n"
  using span_add [of x p 1 n] by (simp add: span_def)

lemma read_bytes_span:
  "(\<And>k. k < n \<Longrightarrow> x (p + of_nat k) \<noteq> None) \<Longrightarrow> read_bytes x mem p n = (map mem (span x p n), 0)"
proof (induction n arbitrary: p)
  case (Suc n)
  have "read_bytes x mem (p + 1) n = (map mem (span x (p + 1) n), 0)"
    by (rule Suc.IH) (use Suc.prems [of "Suc _"] in \<open>simp add: add.assoc\<close>)
  then show ?case using Suc.prems [of 0] by (auto simp: span_Suc)
qed (simp add: span_def)

lemma write_bytes_span:
  "(\<And>k. k < length bs \<Longrightarrow> x (p + of_nat k) \<noteq> None) \<Longrightarrow>
   write_bytes x mem p bs = (write_many (span x p (length bs)) bs mem, 0)"
proof (induction bs arbitrary: p mem)
  case (Cons b bs)
  have "write_bytes x m (p + 1) bs = (write_many (span x (p + 1) (length bs)) bs m, 0)" for m
    by (rule Cons.IH) (use Cons.prems [of "Suc _"] in \<open>simp add: add.assoc\<close>)
  then show ?case using Cons.prems [of 0] by (auto simp: span_Suc write_many_def)
qed (simp add: write_many_def)

lemma write_many_append:
  "length ds = length vs \<Longrightarrow> write_many (ds @ ds') (vs @ vs') mem = write_many ds' vs' (write_many ds vs mem)"
  by (simp add: write_many_def)

lemma write_many_elsewhere: "a \<notin> set ds \<Longrightarrow> write_many ds vs mem a = mem a"
proof (induction ds arbitrary: vs mem)
  case (Cons d ds)
  then show ?case by (cases vs) (simp_all add: write_many_def)
qed (simp add: write_many_def)

lemma write_many_done: "ds = [] \<or> vs = [] \<Longrightarrow> write_many ds vs mem = mem"
  by (auto simp: write_many_def)

text \<open>The bytes still to move: the addresses of a vector after an offset into its first element.\<close>

lemma rest_split:
  assumes "off + n \<le> unat (iov_len v)"
  shows "drop off (iov_addrs x (v # vs)) =
    span x (iov_base v + of_nat off) n @ drop (off + n) (iov_addrs x (v # vs))"
proof -
  from assms obtain m where m: "unat (iov_len v) = off + n + m" by (auto simp: le_iff_add)
  have "span x (iov_base v) (off + n + m) =
      span x (iov_base v) off @ span x (iov_base v + of_nat off) n @ span x (iov_base v + of_nat (off + n)) m"
    by (simp add: span_add add.assoc)
  then show ?thesis by (simp add: iov_addrs_Cons m)
qed

lemma rest_next: "unat (iov_len v) \<le> off \<Longrightarrow> off \<le> unat (iov_len v) \<Longrightarrow> drop off (iov_addrs x (v # vs)) = iov_addrs x vs"
  by (simp add: iov_addrs_Cons)

lemma iovs_mapped_Cons:
  "iovs_mapped x (v # vs) \<longleftrightarrow> (\<forall>k < unat (iov_len v). x (iov_base v + of_nat k) \<noteq> None) \<and> iovs_mapped x vs"
  by (simp add: iovs_mapped_def)

lemma iovs_mapped_rest:
  assumes "iovs_mapped x (v # vs)" "off + n \<le> unat (iov_len v)" "k < n"
  shows "x (iov_base v + of_nat off + of_nat k) \<noteq> None"
proof -
  have "off + k < unat (iov_len v)" using assms by simp
  then have "x (iov_base v + of_nat (off + k)) \<noteq> None" using assms(1) unfolding iovs_mapped_Cons by blast
  then show ?thesis by (simp add: add.assoc)
qed

context paged
begin

lemma copies_span:
  assumes "ok s" "\<And>k. k < n \<Longrightarrow> xl s (p + of_nat k) \<noteq> None"
  shows "copy_from_user (xl s) mem p n = (map mem (span (xl s) p n), 0)"
    "length bs = n \<Longrightarrow> copy_to_user (xl s) mem p bs = (write_many (span (xl s) p n) bs mem, 0)"
  using assms read_bytes_span [of n "xl s" p] write_bytes_span [of bs "xl s" p]
  by (auto simp: copy_from_user_bytes copy_to_user_bytes)

lemma vm_rw_hop:
  assumes ok: "ok s" and room: "\<And>n. room n"
    and mapped: "iovs_mapped (xl s) (l # ls)" "iovs_mapped (xl s) (r # rs)"
    and rem: "loff < unat (iov_len l)" "roff < unat (iov_len r)"
    and n: "n = min (unat (iov_len l) - loff) (unat (iov_len r) - roff)"
  defines "la \<equiv> span (xl s) (iov_base l + of_nat loff) n" and "ra \<equiv> span (xl s) (iov_base r + of_nat roff) n"
  shows "vm_rw_loop room (xl s) writing (l # ls) (r # rs) loff roff moved mem =
    vm_rw_loop room (xl s) writing (l # ls) (r # rs) (loff + n) (roff + n) (moved + n)
      (if writing then write_many ra (map mem la) mem else write_many la (map mem ra) mem)"
proof -
  have le: "loff + n \<le> unat (iov_len l)" "roff + n \<le> unat (iov_len r)" using rem n by auto
  note c = copies_span [OF ok iovs_mapped_rest [OF mapped(1) le(1)]] copies_span [OF ok iovs_mapped_rest [OF mapped(2) le(2)]]
  have "(if unat (iov_len l) - loff < unat (iov_len r) - roff then unat (iov_len l) - loff else unat (iov_len r) - roff) = n"
    using n by auto
  then show ?thesis
    using rem by (subst vm_rw_loop.simps) (simp add: Let_def room c la_def ra_def del: vm_rw_loop.simps(1))
qed

lemma vm_rw_moves:
  assumes ok: "ok s" and room: "\<And>n. room n"
  shows "iovs_mapped (xl s) ls \<Longrightarrow> iovs_mapped (xl s) rs \<Longrightarrow>
    (case ls of [] \<Rightarrow> True | l # _ \<Rightarrow> loff \<le> unat (iov_len l)) \<Longrightarrow> (case rs of [] \<Rightarrow> True | r # _ \<Rightarrow> roff \<le> unat (iov_len r)) \<Longrightarrow>
    la = drop loff (iov_addrs (xl s) ls) \<Longrightarrow> ra = drop roff (iov_addrs (xl s) rs) \<Longrightarrow> set la \<inter> set ra = {} \<Longrightarrow>
    vm_rw_loop room (xl s) writing ls rs loff roff moved mem =
      (Inr (moved + min (length la) (length ra)),
       if writing then write_many ra (map mem la) mem else write_many la (map mem ra) mem)"
proof (induction "length ls + length rs + length la" arbitrary: ls rs loff roff moved mem la ra rule: less_induct)
  case less
  note p = less.prems
  show ?case
  proof (cases "ls = [] \<or> rs = []")
    case True
    then show ?thesis using p by (cases ls; cases rs) (auto simp: write_many_done)
  next
    case False
    then obtain l ls' r rs' where ls: "ls = l # ls'" and rs: "rs = r # rs'" by (meson neq_Nil_conv)
    have off: "loff \<le> unat (iov_len l)" "roff \<le> unat (iov_len r)" using p(3,4) by (simp_all add: ls rs)
    consider "loff = unat (iov_len l)" | "loff < unat (iov_len l)" "roff = unat (iov_len r)"
      | "loff < unat (iov_len l)" "roff < unat (iov_len r)" using off by linarith
    then show ?thesis
    proof cases
      case 1
      have la: "la = drop 0 (iov_addrs (xl s) ls')" using p(5) 1 by (simp add: ls rest_next)
      have "vm_rw_loop room (xl s) writing ls rs loff roff moved mem = vm_rw_loop room (xl s) writing ls' rs 0 roff moved mem"
        using 1 by (simp add: ls rs)
      also have "\<dots> = (Inr (moved + min (length la) (length ra)),
          if writing then write_many ra (map mem la) mem else write_many la (map mem ra) mem)"
        by (rule less.hyps) (use p la in \<open>auto simp: ls iovs_mapped_Cons split: list.splits\<close>)
      finally show ?thesis .
    next
      case 2
      have ra: "ra = drop 0 (iov_addrs (xl s) rs')" using p(6) 2 by (simp add: rs rest_next)
      have "vm_rw_loop room (xl s) writing ls rs loff roff moved mem = vm_rw_loop room (xl s) writing ls rs' loff 0 moved mem"
        using 2 by (simp add: ls rs)
      also have "\<dots> = (Inr (moved + min (length la) (length ra)),
          if writing then write_many ra (map mem la) mem else write_many la (map mem ra) mem)"
        by (rule less.hyps) (use p ra in \<open>auto simp: rs iovs_mapped_Cons split: list.splits\<close>)
      finally show ?thesis .
    next
      case 3
      define n where "n = min (unat (iov_len l) - loff) (unat (iov_len r) - roff)"
      define la1 ra1 where "la1 = span (xl s) (iov_base l + of_nat loff) n" and "ra1 = span (xl s) (iov_base r + of_nat roff) n"
      define la2 ra2 where "la2 = drop (loff + n) (iov_addrs (xl s) ls)" and "ra2 = drop (roff + n) (iov_addrs (xl s) rs)"
      have n: "0 < n" "loff + n \<le> unat (iov_len l)" "roff + n \<le> unat (iov_len r)" using 3 by (auto simp: n_def)
      have split: "la = la1 @ la2" "ra = ra1 @ ra2"
        using p(5,6) rest_split [OF n(2)] rest_split [OF n(3)] by (simp_all add: ls rs la1_def la2_def ra1_def ra2_def)
      have len: "length la1 = n" "length ra1 = n" by (simp_all add: la1_def ra1_def)
      define mem1 where "mem1 = (if writing then write_many ra1 (map mem la1) mem else write_many la1 (map mem ra1) mem)"
      have kept: "writing \<Longrightarrow> map mem1 la2 = map mem la2" "\<not> writing \<Longrightarrow> map mem1 ra2 = map mem ra2"
        using p(7) by (auto simp: mem1_def split disjoint_iff intro!: write_many_elsewhere)
      have "vm_rw_loop room (xl s) writing ls rs loff roff moved mem =
          vm_rw_loop room (xl s) writing ls rs (loff + n) (roff + n) (moved + n) mem1"
        unfolding ls rs mem1_def la1_def ra1_def
        by (rule vm_rw_hop [OF ok room _ _ 3 n_def]) (use p(1,2) in \<open>simp_all add: ls rs\<close>)
      also have "\<dots> = (Inr (moved + n + min (length la2) (length ra2)),
          if writing then write_many ra2 (map mem1 la2) mem1 else write_many la2 (map mem1 ra2) mem1)"
      proof (rule less.hyps [OF _ p(1,2) _ _ la2_def ra2_def])
        show "set la2 \<inter> set ra2 = {}" using p(7) by (auto simp: split)
      qed (use n split len in \<open>simp_all add: ls rs\<close>)
      finally show ?thesis
        using kept len by (cases writing) (simp_all add: split mem1_def write_many_append min_add_distrib_right cong: map_cong)
    qed
  qed
qed

end

lemma length_iov_addrs: "length (iov_addrs x iovs) = (\<Sum>v\<leftarrow>iovs. unat (iov_len v))"
  by (induction iovs) (simp_all add: iov_addrs_Cons)

text \<open>
  C12: A transfer between two vectors of the calling process ends having moved as many
  bytes as the shorter of them names, when both are mapped and share no host byte: the
  bytes the one vector named are, in order, in the places the other names, and nothing
  else has changed.  The count is cut to 32 bits.
\<close>

theorem process_vm_rw_moves:
  assumes inv: "mm_inv mm" "mm_inv vk"
    and x: "x = guest_to_host mm vk"
    and self: "only_self t = None" "0 < pid"
    and cnt: "0 < liovcnt" "liovcnt \<le> 1024" "0 < riovcnt" "riovcnt \<le> 1024"
    and room: "\<And>n. room n"
    and iovs: "read_iovs x mem lvec (unat liovcnt) = Some liov" "read_iovs x mem rvec (unat riovcnt) = Some riov"
    and mapped: "iovs_mapped x liov" "iovs_mapped x riov"
    and apart: "set (iov_addrs x liov) \<inter> set (iov_addrs x riov) = {}"
  shows "process_vm_rw room t x pid lvec liovcnt rvec riovcnt 0 writing mem =
    (Inr (of_nat (min (\<Sum>v\<leftarrow>liov. unat (iov_len v)) (\<Sum>v\<leftarrow>riov. unat (iov_len v)))),
     if writing then write_many (iov_addrs x riov) (map mem (iov_addrs x liov)) mem
     else write_many (iov_addrs x liov) (map mem (iov_addrs x riov)) mem)"
proof -
  note m = um.vm_rw_moves [of "(mm, vk)" room liov riov 0 0 "iov_addrs x liov" "iov_addrs x riov" writing 0 mem]
  have "vm_rw_loop room x writing liov riov 0 0 0 mem =
    (Inr (min (length (iov_addrs x liov)) (length (iov_addrs x riov))),
     if writing then write_many (iov_addrs x riov) (map mem (iov_addrs x liov)) mem
     else write_many (iov_addrs x liov) (map mem (iov_addrs x riov)) mem)"
    using m inv room mapped apart by (simp add: x split: list.splits)
  moreover have "liovcnt \<noteq> 0" "riovcnt \<noteq> 0" "\<not> liovcnt > 1024" "\<not> riovcnt > 1024" using cnt by auto
  ultimately show ?thesis
    using self room iovs by (simp add: process_vm_rw_def length_iov_addrs)
qed

lemma halves_translate:
  "guest_to_host halves_mm init_mm 0x10000 = Some 0x700000000" "guest_to_host halves_mm init_mm 0x10010 = Some 0x700000010"
  "guest_to_host halves_mm init_mm 0x14001 = Some 0x700004001" "guest_to_host halves_mm init_mm 0x14010 = Some 0x700004010"
  "guest_to_host halves_mm init_mm 0x14011 = Some 0x700004011" "guest_to_host halves_mm init_mm 0x14012 = Some 0x700004012"
  by (simp_all add: guest_to_host_def halves_mm_def init_mm_def anon_region_def new_region_def untag_gaddr_def
      find_region_def cmp_in_def probe_def region_compare_def)

definition two_vectors :: host_memory where
  "two_vectors =
     (\<lambda>h. 0)(0x700000001 := 0x40, 0x700000002 := 1, 0x700000008 := 2,
            0x700000010 := 0x10, 0x700000011 := 0x40, 0x700000012 := 1, 0x700000018 := 3,
            0x700004010 := 7, 0x700004011 := 8, 0x700004012 := 9)"

lemma two_vectors_read:
  "read_iovs (guest_to_host halves_mm init_mm) two_vectors 0x10000 1 = Some [\<lparr> iov_base = 0x14000, iov_len = 2 \<rparr>]"
  "read_iovs (guest_to_host halves_mm init_mm) two_vectors 0x10010 1 = Some [\<lparr> iov_base = 0x14010, iov_len = 3 \<rparr>]"
  by (simp_all add: read_iovs_def copy_from_user.simps halves_translate page_left_def rounddown_def host_read_def
      two_vectors_def elems_def l_iovec_of_bytes_def le_word_def upt_rec)

lemma two_vectors_addrs:
  "iov_addrs (guest_to_host halves_mm init_mm) [\<lparr> iov_base = 0x14000, iov_len = 2 \<rparr>] = [0x700004000, 0x700004001]"
  "iov_addrs (guest_to_host halves_mm init_mm) [\<lparr> iov_base = 0x14010, iov_len = 3 \<rparr>]
     = [0x700004010, 0x700004011, 0x700004012]"
  by (simp_all add: iov_addrs_def span_def upt_rec halves_translate halves_addresses)

lemma iovs_mapped_upt:
  "iovs_mapped x iovs \<longleftrightarrow>
     list_all (\<lambda>v. list_all (\<lambda>k. x (iov_base v + of_nat k) \<noteq> None) [0..<unat (iov_len v)]) iovs"
  by (simp add: iovs_mapped_def list_all_iff Ball_def)

lemma two_vectors_mapped:
  "iovs_mapped (guest_to_host halves_mm init_mm) [\<lparr> iov_base = 0x14000, iov_len = 2 \<rparr>]"
  "iovs_mapped (guest_to_host halves_mm init_mm) [\<lparr> iov_base = 0x14010, iov_len = 3 \<rparr>]"
  by (simp_all add: iovs_mapped_upt upt_rec halves_translate halves_addresses)

theorem process_vm_rw_moves_witness:
  "process_vm_rw (\<lambda>n. True) \<lparr> tg_host = 5, tg_self = True, tg_alive = True \<rparr> (guest_to_host halves_mm init_mm) 5
     0x10000 1 0x10010 1 0 False two_vectors = (Inr 2, two_vectors(0x700004000 := 7, 0x700004001 := 8))"
proof -
  have "only_self \<lparr> tg_host = 5, tg_self = True, tg_alive = True \<rparr> = None" by (simp add: only_self_def)
  note moves = process_vm_rw_moves [OF halves_mm_inv init_mm_inv refl this,
      where pid = 5 and liovcnt = 1 and riovcnt = 1 and lvec = "0x10000" and rvec = "0x10010"
        and room = "\<lambda>n. True" and mem = two_vectors and writing = False
        and liov = "[\<lparr> iov_base = 0x14000, iov_len = 2 \<rparr>]" and riov = "[\<lparr> iov_base = 0x14010, iov_len = 3 \<rparr>]"]
  have "two_vectors 0x700004010 = 7" "two_vectors 0x700004011 = 8" by (simp_all add: two_vectors_def)
  then show ?thesis
    using moves two_vectors_read two_vectors_mapped by (simp add: two_vectors_addrs write_many_def)
qed

section \<open>Node masks read two ways\<close>

lemma mbind_others: "mbind_loop x mem p is names = Inr r \<Longrightarrow> 0 \<notin> set is \<Longrightarrow> snd names \<Longrightarrow> snd r"
  by (induction "is" arbitrary: names) (auto split: option.splits if_splits)

lemma mbind_nodemask_rest:
  "0 \<notin> set is \<Longrightarrow> mbind_loop x mem p is (n0, False) = Inr (r, False) \<longleftrightarrow> nodemask_loop x mem p is n0 = Inr r"
proof (induction "is")
  case (Cons i "is")
  then show ?case using mbind_others [of x mem p "is" "(n0, True)" "(r, False)"] by (auto split: option.splits)
qed simp

lemma mask_words_Cons:
  assumes "0 < maxnode" "maxnode \<le> 1024 * 1024"
  obtains "is" where "mask_words maxnode = 0 # is" "0 \<notin> set is"
proof -
  have "unat (maxnode + 63) = unat maxnode + 63"
    using assms by (subst unat_add_lem [THEN iffD1]) (simp_all add: word_le_nat_alt)
  then have "0 < unat ((maxnode + 63) div 64)" using assms by (simp add: unat_div word_less_nat_alt)
  then have "mask_words maxnode = 0 # [1..<unat ((maxnode + 63) div 64)]" by (simp add: mask_words_def upt_rec)
  then show thesis by (rule that) simp
qed

lemma mbind_nodemask:
  assumes "0 < maxnode" "maxnode \<le> 1024 * 1024"
  shows "mbind_loop x mem p (mask_words maxnode) (False, False) = Inr (r, False) \<longleftrightarrow>
    nodemask_loop x mem p (mask_words maxnode) False = Inr r"
proof -
  from mask_words_Cons [OF assms] obtain "is" where w: "mask_words maxnode = 0 # is" "0 \<notin> set is" .
  then show ?thesis
    using mbind_nodemask_rest [OF w(2), of x mem p] mbind_others [OF _ w(2), of x mem p "(_, True)" "(r, False)"]
    by (auto split: option.splits)
qed

text \<open>
  C38: \<^verbatim>\<open>mbind\<close>, which reads a whole mask and then judges it, takes a mode and a mask
  exactly when \<^verbatim>\<open>set_mempolicy\<close> does, which stops at the first word it refuses.
\<close>

theorem mbind_as_set_mempolicy:
  assumes "flags AND NOT 7 = 0" "addr AND 0xfff = 0"
  shows "sys_mbind x mem addr len mode nodemask maxnode flags = Inr () \<longleftrightarrow>
    sys_set_mempolicy x mem mode nodemask maxnode = Inr ()"
proof (cases "mode_ok mode \<and> \<not> maxnode > 1024 * 1024 \<and> nodemask \<noteq> 0 \<and> maxnode > 0")
  case True
  then have "mbind_loop x mem nodemask (mask_words maxnode) (False, False) = Inr (r, False) \<longleftrightarrow>
    nodemask_loop x mem nodemask (mask_words maxnode) False = Inr r" for r
    by (intro mbind_nodemask) auto
  note eq = this [of True] this [of False]
  show ?thesis
  proof (cases "nodemask_loop x mem nodemask (mask_words maxnode) False")
    case (Inr r)
    then have "mbind_loop x mem nodemask (mask_words maxnode) (False, False) = Inr (r, False)" using eq by (cases r) simp_all
    then show ?thesis using True assms Inr by (auto simp: sys_mbind_def sys_set_mempolicy_def read_nodemask_def)
  next
    case (Inl e)
    then have "mbind_loop x mem nodemask (mask_words maxnode) (False, False) \<noteq> Inr (r, False)" for r using eq by (cases r) simp_all
    then show ?thesis
      using True assms Inl by (auto simp: sys_mbind_def sys_set_mempolicy_def read_nodemask_def split: sum.splits)
  qed
next
  case False
  then show ?thesis using assms by (auto simp: sys_mbind_def sys_set_mempolicy_def read_nodemask_def word_gt_0)
qed

theorem mbind_as_set_mempolicy_witness:
  "sys_set_mempolicy (guest_to_host halves_mm init_mm) ((\<lambda>h. 0)(0x700000000 := 1)) 2 0x10000 64 = Inr () \<and>
   sys_mbind (guest_to_host halves_mm init_mm) ((\<lambda>h. 0)(0x700000000 := 1)) 0x14000 0x1000 2 0x10000 64 1 = Inr ()"
proof -
  let ?x = "guest_to_host halves_mm init_mm" and ?mem = "(\<lambda>h. 0)(0x700000000 := 1) :: host_memory"
  have "read_word ?x ?mem 0x10000 = Some 1"
    by (simp add: read_word_def copy_from_user.simps halves_translate page_left_def rounddown_def host_read_def
        le_word_def upt_rec)
  then have "sys_set_mempolicy ?x ?mem 2 0x10000 64 = Inr ()"
    by (simp add: sys_set_mempolicy_def mode_ok_def MPOL_MODE_FLAGS_def read_nodemask_def mask_words_def mode_mask_ok_def)
  then show ?thesis
    using mbind_as_set_mempolicy [of 1 "0x14000" ?x ?mem "0x1000" 2 "0x10000" 64] by simp
qed

section \<open>Residency\<close>

lemma mincore_within:
  assumes "find_region addr mm = Some i" "0 < n" "room n"
    and "n \<le> unat ((gaddr (mm_store mm i) + msize (mm_store mm i) - addr) div 0x1000)"
    and "host (haddr (mm_store mm i) + (addr - gaddr (mm_store mm i))) (n * 4096) = Inr tmp"
  shows "mincore_loop room host mm addr n 0 [] = Some (Inr (incore n tmp))"
  using assms
  by (subst mincore_loop.simps) (subst mincore_loop.simps, simp add: min_absorb2)

lemma incore_short:
  "m \<le> n \<Longrightarrow> incore n (replicate m 1) = replicate m 1 @ replicate (n - m) 0"
  by (simp add: incore_def min_def)



end
