(* ===== verification/Const_Map.thy ===== *)
theory Const_Map
  imports Nabi_Prelude
begin

text \<open>
  The tables of constants (\<^verbatim>\<open>include/linux/const.h\<close>, \<^verbatim>\<open>errno.h\<close>, \<^verbatim>\<open>signal.h\<close>, \<^verbatim>\<open>socket.h\<close>).  A
  table is a list of declarations, and the preprocessor makes from it an enumeration, a
  switch from Linux numbers to Darwin's, one back, and one to names.  A declaration is
  a value here and the switches are functions over the list; the first matching case
  is the only one, since a switch with two equal labels does not compile.  The Darwin
  numbers are those of the system's headers.
\<close>

section \<open>Declarations and the functions made from them\<close>

datatype darwin = Darwin int | LINUX_SPECIFIC

datatype decl =
    DECL_LINUX string int darwin
  | DECL_ALIAS string string
  | FROM_DARWN string int

text \<open>
  A constant without a counterpart gets a number from the compiler's counter, which
  starts at some \<open>cnt\<close> when the table is expanded.
\<close>

definition specific :: "nat \<Rightarrow> int" where
  "specific cnt = - 10 - int cnt"

fun linux_to_darwin :: "nat \<Rightarrow> decl list \<Rightarrow> int \<Rightarrow> int" where
  "linux_to_darwin cnt [] x = -1"
| "linux_to_darwin cnt (DECL_LINUX name v (Darwin d) # ds) x = (if x = v then d else linux_to_darwin cnt ds x)"
| "linux_to_darwin cnt (DECL_LINUX name v LINUX_SPECIFIC # ds) x =
     (if x = v then specific cnt else linux_to_darwin (Suc cnt) ds x)"
| "linux_to_darwin cnt (DECL_ALIAS name target # ds) x = linux_to_darwin cnt ds x"
| "linux_to_darwin cnt (FROM_DARWN name d # ds) x = linux_to_darwin cnt ds x"

text \<open>The enumeration: the value of \<^verbatim>\<open>LINUX_\<close>\<open>n\<close>, an alias being another name of a declared one.\<close>

fun declared :: "decl list \<Rightarrow> string \<Rightarrow> int" where
  "declared [] n = -1"
| "declared (DECL_LINUX name v d # ds) n = (if n = name then v else declared ds n)"
| "declared (DECL_ALIAS name target # ds) n = declared ds n"
| "declared (FROM_DARWN name d # ds) n = declared ds n"

fun unalias :: "decl list \<Rightarrow> string \<Rightarrow> string" where
  "unalias [] n = n"
| "unalias (DECL_LINUX name v d # ds) n = unalias ds n"
| "unalias (DECL_ALIAS name target # ds) n = (if n = name then target else unalias ds n)"
| "unalias (FROM_DARWN name d # ds) n = unalias ds n"

definition linux_constant :: "decl list \<Rightarrow> string \<Rightarrow> int" where
  "linux_constant ds n = declared ds (unalias ds n)"

fun darwin_to_linux :: "(string \<Rightarrow> int) \<Rightarrow> nat \<Rightarrow> decl list \<Rightarrow> int \<Rightarrow> int" where
  "darwin_to_linux env cnt [] x = -1"
| "darwin_to_linux env cnt (DECL_LINUX name v (Darwin d) # ds) x =
     (if x = d then v else darwin_to_linux env cnt ds x)"
| "darwin_to_linux env cnt (DECL_LINUX name v LINUX_SPECIFIC # ds) x =
     (if x = specific cnt then v else darwin_to_linux env (Suc cnt) ds x)"
| "darwin_to_linux env cnt (DECL_ALIAS name target # ds) x = darwin_to_linux env cnt ds x"
| "darwin_to_linux env cnt (FROM_DARWN name d # ds) x =
     (if x = d then env name else darwin_to_linux env cnt ds x)"

fun strtable :: "decl list \<Rightarrow> int \<Rightarrow> string option" where
  "strtable [] x = None"
| "strtable (DECL_LINUX name v d # ds) x = (if x = v then Some (''LINUX_'' @ name) else strtable ds x)"
| "strtable (DECL_ALIAS name target # ds) x = strtable ds x"
| "strtable (FROM_DARWN name d # ds) x = strtable ds x"

section \<open>The tables\<close>

definition LINUX_ERRNO :: "decl list" where
  "LINUX_ERRNO = [
     DECL_LINUX ''EPERM'' 1 (Darwin 1), DECL_LINUX ''ENOENT'' 2 (Darwin 2),
     DECL_LINUX ''ESRCH'' 3 (Darwin 3), DECL_LINUX ''EINTR'' 4 (Darwin 4),
     DECL_LINUX ''EIO'' 5 (Darwin 5), DECL_LINUX ''ENXIO'' 6 (Darwin 6),
     DECL_LINUX ''E2BIG'' 7 (Darwin 7), DECL_LINUX ''ENOEXEC'' 8 (Darwin 8),
     DECL_LINUX ''EBADF'' 9 (Darwin 9), DECL_LINUX ''ECHILD'' 10 (Darwin 10),
     DECL_LINUX ''EAGAIN'' 11 (Darwin 35), DECL_LINUX ''ENOMEM'' 12 (Darwin 12),
     DECL_LINUX ''EACCES'' 13 (Darwin 13), DECL_LINUX ''EFAULT'' 14 (Darwin 14),
     DECL_LINUX ''ENOTBLK'' 15 (Darwin 15), DECL_LINUX ''EBUSY'' 16 (Darwin 16),
     DECL_LINUX ''EEXIST'' 17 (Darwin 17), DECL_LINUX ''EXDEV'' 18 (Darwin 18),
     DECL_LINUX ''ENODEV'' 19 (Darwin 19), DECL_LINUX ''ENOTDIR'' 20 (Darwin 20),
     DECL_LINUX ''EISDIR'' 21 (Darwin 21), DECL_LINUX ''EINVAL'' 22 (Darwin 22),
     DECL_LINUX ''ENFILE'' 23 (Darwin 23), DECL_LINUX ''EMFILE'' 24 (Darwin 24),
     DECL_LINUX ''ENOTTY'' 25 (Darwin 25), DECL_LINUX ''ETXTBSY'' 26 (Darwin 26),
     DECL_LINUX ''EFBIG'' 27 (Darwin 27), DECL_LINUX ''ENOSPC'' 28 (Darwin 28),
     DECL_LINUX ''ESPIPE'' 29 (Darwin 29), DECL_LINUX ''EROFS'' 30 (Darwin 30),
     DECL_LINUX ''EMLINK'' 31 (Darwin 31), DECL_LINUX ''EPIPE'' 32 (Darwin 32),
     DECL_LINUX ''EDOM'' 33 (Darwin 33), DECL_LINUX ''ERANGE'' 34 (Darwin 34),
     DECL_LINUX ''EDEADLK'' 35 (Darwin 11), DECL_LINUX ''ENAMETOOLONG'' 36 (Darwin 63),
     DECL_LINUX ''ENOLCK'' 37 (Darwin 77), DECL_LINUX ''ENOSYS'' 38 (Darwin 78),
     DECL_LINUX ''ENOTEMPTY'' 39 (Darwin 66), DECL_LINUX ''ELOOP'' 40 (Darwin 62),
     DECL_ALIAS ''EWOULDBLOCK'' ''EAGAIN'', DECL_LINUX ''ENOMSG'' 42 (Darwin 91),
     DECL_LINUX ''EIDRM'' 43 (Darwin 90), DECL_LINUX ''ECHRNG'' 44 LINUX_SPECIFIC,
     DECL_LINUX ''EL2NSYNC'' 45 LINUX_SPECIFIC, DECL_LINUX ''EL3HLT'' 46 LINUX_SPECIFIC,
     DECL_LINUX ''EL3RST'' 47 LINUX_SPECIFIC, DECL_LINUX ''ELNRNG'' 48 LINUX_SPECIFIC,
     DECL_LINUX ''EUNATCH'' 49 LINUX_SPECIFIC, DECL_LINUX ''ENOCSI'' 50 LINUX_SPECIFIC,
     DECL_LINUX ''EL2HLT'' 51 LINUX_SPECIFIC, DECL_LINUX ''EBADE'' 52 LINUX_SPECIFIC,
     DECL_LINUX ''EBADR'' 53 LINUX_SPECIFIC, DECL_LINUX ''EXFULL'' 54 LINUX_SPECIFIC,
     DECL_LINUX ''ENOANO'' 55 LINUX_SPECIFIC, DECL_LINUX ''EBADRQC'' 56 LINUX_SPECIFIC,
     DECL_LINUX ''EBADSLT'' 57 LINUX_SPECIFIC, DECL_ALIAS ''EDEADLOCK'' ''EDEADLK'',
     DECL_LINUX ''EBFONT'' 59 LINUX_SPECIFIC, DECL_LINUX ''ENOSTR'' 60 (Darwin 99),
     DECL_LINUX ''ENODATA'' 61 (Darwin 96), DECL_LINUX ''ETIME'' 62 (Darwin 101),
     DECL_LINUX ''ENOSR'' 63 (Darwin 98), DECL_LINUX ''ENONET'' 64 LINUX_SPECIFIC,
     DECL_LINUX ''ENOPKG'' 65 LINUX_SPECIFIC, DECL_LINUX ''EREMOTE'' 66 (Darwin 71),
     DECL_LINUX ''ENOLINK'' 67 (Darwin 97), DECL_LINUX ''EADV'' 68 LINUX_SPECIFIC,
     DECL_LINUX ''ESRMNT'' 69 LINUX_SPECIFIC, DECL_LINUX ''ECOMM'' 70 LINUX_SPECIFIC,
     DECL_LINUX ''EPROTO'' 71 (Darwin 100), DECL_LINUX ''EMULTIHOP'' 72 (Darwin 95),
     DECL_LINUX ''EDOTDOT'' 73 LINUX_SPECIFIC, DECL_LINUX ''EBADMSG'' 74 (Darwin 94),
     DECL_LINUX ''EOVERFLOW'' 75 (Darwin 84), DECL_LINUX ''ENOTUNIQ'' 76 LINUX_SPECIFIC,
     DECL_LINUX ''EBADFD'' 77 LINUX_SPECIFIC, DECL_LINUX ''EREMCHG'' 78 LINUX_SPECIFIC,
     DECL_LINUX ''ELIBACC'' 79 LINUX_SPECIFIC, DECL_LINUX ''ELIBBAD'' 80 LINUX_SPECIFIC,
     DECL_LINUX ''ELIBSCN'' 81 LINUX_SPECIFIC, DECL_LINUX ''ELIBMAX'' 82 LINUX_SPECIFIC,
     DECL_LINUX ''ELIBEXEC'' 83 LINUX_SPECIFIC, DECL_LINUX ''EILSEQ'' 84 (Darwin 92),
     DECL_LINUX ''ERESTART'' 85 LINUX_SPECIFIC, DECL_LINUX ''ESTRPIPE'' 86 LINUX_SPECIFIC,
     DECL_LINUX ''EUSERS'' 87 (Darwin 68), DECL_LINUX ''ENOTSOCK'' 88 (Darwin 38),
     DECL_LINUX ''EDESTADDRREQ'' 89 (Darwin 39), DECL_LINUX ''EMSGSIZE'' 90 (Darwin 40),
     DECL_LINUX ''EPROTOTYPE'' 91 (Darwin 41), DECL_LINUX ''ENOPROTOOPT'' 92 (Darwin 42),
     DECL_LINUX ''EPROTONOSUPPORT'' 93 (Darwin 43), DECL_LINUX ''ESOCKTNOSUPPORT'' 94 (Darwin 44),
     DECL_LINUX ''EOPNOTSUPP'' 95 (Darwin 102), DECL_ALIAS ''ENOTSUP'' ''EOPNOTSUPP'',
     DECL_LINUX ''EPFNOSUPPORT'' 96 (Darwin 46), DECL_LINUX ''EAFNOSUPPORT'' 97 (Darwin 47),
     DECL_LINUX ''EADDRINUSE'' 98 (Darwin 48), DECL_LINUX ''EADDRNOTAVAIL'' 99 (Darwin 49),
     DECL_LINUX ''ENETDOWN'' 100 (Darwin 50), DECL_LINUX ''ENETUNREACH'' 101 (Darwin 51),
     DECL_LINUX ''ENETRESET'' 102 (Darwin 52), DECL_LINUX ''ECONNABORTED'' 103 (Darwin 53),
     DECL_LINUX ''ECONNRESET'' 104 (Darwin 54), DECL_LINUX ''ENOBUFS'' 105 (Darwin 55),
     DECL_LINUX ''EISCONN'' 106 (Darwin 56), DECL_LINUX ''ENOTCONN'' 107 (Darwin 57),
     DECL_LINUX ''ESHUTDOWN'' 108 (Darwin 58), DECL_LINUX ''ETOOMANYREFS'' 109 (Darwin 59),
     DECL_LINUX ''ETIMEDOUT'' 110 (Darwin 60), DECL_LINUX ''ECONNREFUSED'' 111 (Darwin 61),
     DECL_LINUX ''EHOSTDOWN'' 112 (Darwin 64), DECL_LINUX ''EHOSTUNREACH'' 113 (Darwin 65),
     DECL_LINUX ''EALREADY'' 114 (Darwin 37), DECL_LINUX ''EINPROGRESS'' 115 (Darwin 36),
     DECL_LINUX ''ESTALE'' 116 (Darwin 70), DECL_LINUX ''EUCLEAN'' 117 LINUX_SPECIFIC,
     DECL_LINUX ''ENOTNAM'' 118 LINUX_SPECIFIC, DECL_LINUX ''ENAVAIL'' 119 LINUX_SPECIFIC,
     DECL_LINUX ''EISNAM'' 120 LINUX_SPECIFIC, DECL_LINUX ''EREMOTEIO'' 121 LINUX_SPECIFIC,
     DECL_LINUX ''EDQUOT'' 122 (Darwin 69), DECL_LINUX ''ENOMEDIUM'' 123 LINUX_SPECIFIC,
     DECL_LINUX ''EMEDIUMTYPE'' 124 LINUX_SPECIFIC, DECL_LINUX ''ECANCELED'' 125 (Darwin 89),
     DECL_LINUX ''ENOKEY'' 126 LINUX_SPECIFIC, DECL_LINUX ''EKEYEXPIRED'' 127 LINUX_SPECIFIC,
     DECL_LINUX ''EKEYREVOKED'' 128 LINUX_SPECIFIC, DECL_LINUX ''EKEYREJECTED'' 129 LINUX_SPECIFIC,
     DECL_LINUX ''EOWNERDEAD'' 130 (Darwin 105), DECL_LINUX ''ENOTRECOVERABLE'' 131 (Darwin 104),
     DECL_LINUX ''ERFKILL'' 132 LINUX_SPECIFIC, DECL_LINUX ''EHWPOISON'' 133 LINUX_SPECIFIC,
     FROM_DARWN ''EPERM'' 79, FROM_DARWN ''EPERM'' 80, FROM_DARWN ''EPERM'' 81, FROM_DARWN ''ENOEXEC'' 85,
     FROM_DARWN ''ENOEXEC'' 86, FROM_DARWN ''ENOEXEC'' 88, FROM_DARWN ''ENODATA'' 93,
     FROM_DARWN ''EPERM'' 103, FROM_DARWN ''EPERM'' 72, FROM_DARWN ''EOPNOTSUPP'' 45 ]"

definition LINUX_STSIGNUM :: "decl list" where
  "LINUX_STSIGNUM = [
     DECL_LINUX ''SIGHUP'' 1 (Darwin 1), DECL_LINUX ''SIGINT'' 2 (Darwin 2),
     DECL_LINUX ''SIGQUIT'' 3 (Darwin 3), DECL_LINUX ''SIGILL'' 4 (Darwin 4),
     DECL_LINUX ''SIGTRAP'' 5 (Darwin 5), DECL_LINUX ''SIGABRT'' 6 (Darwin 6),
     DECL_ALIAS ''SIGIOT'' ''SIGABRT'', DECL_LINUX ''SIGBUS'' 7 (Darwin 10),
     DECL_LINUX ''SIGFPE'' 8 (Darwin 8), DECL_LINUX ''SIGKILL'' 9 (Darwin 9),
     DECL_LINUX ''SIGUSR1'' 10 (Darwin 30), DECL_LINUX ''SIGSEGV'' 11 (Darwin 11),
     DECL_LINUX ''SIGUSR2'' 12 (Darwin 31), DECL_LINUX ''SIGPIPE'' 13 (Darwin 13),
     DECL_LINUX ''SIGALRM'' 14 (Darwin 14), DECL_LINUX ''SIGTERM'' 15 (Darwin 15),
     DECL_LINUX ''SIGSTKFLT'' 16 LINUX_SPECIFIC, DECL_LINUX ''SIGCHLD'' 17 (Darwin 20),
     DECL_LINUX ''SIGCONT'' 18 (Darwin 19), DECL_LINUX ''SIGSTOP'' 19 (Darwin 17),
     DECL_LINUX ''SIGTSTP'' 20 (Darwin 18), DECL_LINUX ''SIGTTIN'' 21 (Darwin 21),
     DECL_LINUX ''SIGTTOU'' 22 (Darwin 22), DECL_LINUX ''SIGURG'' 23 (Darwin 16),
     DECL_LINUX ''SIGXCPU'' 24 (Darwin 24), DECL_LINUX ''SIGXFSZ'' 25 (Darwin 25),
     DECL_LINUX ''SIGVTALRM'' 26 (Darwin 26), DECL_LINUX ''SIGPROF'' 27 (Darwin 27),
     DECL_LINUX ''SIGWINCH'' 28 (Darwin 28), DECL_LINUX ''SIGIO'' 29 (Darwin 23),
     DECL_ALIAS ''SIGPOLL'' ''SIGIO'', DECL_LINUX ''SIGPWR'' 30 LINUX_SPECIFIC,
     DECL_LINUX ''SIGSYS'' 31 (Darwin 12) ]"

definition LINUX_AF :: "decl list" where
  "LINUX_AF = [
     DECL_LINUX ''AF_UNSPEC'' 0 (Darwin 0), DECL_LINUX ''AF_UNIX'' 1 (Darwin 1),
     DECL_ALIAS ''AF_FILE'' ''AF_UNIX'', DECL_ALIAS ''AF_LOCAL'' ''AF_UNIX'',
     DECL_LINUX ''AF_INET'' 2 (Darwin 2), DECL_LINUX ''AF_AX25'' 3 LINUX_SPECIFIC,
     DECL_LINUX ''AF_IPX'' 4 (Darwin 23), DECL_LINUX ''AF_APPLETALK'' 5 (Darwin 16),
     DECL_LINUX ''AF_INET6'' 10 (Darwin 30) ]"

definition linux_to_darwin_errno :: "nat \<Rightarrow> int \<Rightarrow> int" where
  "linux_to_darwin_errno cnt = linux_to_darwin cnt LINUX_ERRNO"

definition darwin_to_linux_errno_raw :: "nat \<Rightarrow> int \<Rightarrow> int" where
  "darwin_to_linux_errno_raw cnt = darwin_to_linux (linux_constant LINUX_ERRNO) cnt LINUX_ERRNO"

definition darwin_to_linux_errno :: "nat \<Rightarrow> int \<Rightarrow> int" where
  "darwin_to_linux_errno cnt e =
     (let r = darwin_to_linux_errno_raw cnt e in if r > 0 then r else int (errno_no LINUX_EINVAL))"

definition linux_errno_str :: "int \<Rightarrow> string" where
  "linux_errno_str v = (case strtable LINUX_ERRNO v of Some s \<Rightarrow> s | None \<Rightarrow> ''(No errno Matched)'')"

text \<open>What a host call answered and the \<^verbatim>\<open>errno\<close> it left, cleared before the call.\<close>

definition syswrap :: "nat \<Rightarrow> int \<Rightarrow> int \<Rightarrow> int" where
  "syswrap cnt sys_ret err =
     (if sys_ret < 0 \<and> err \<noteq> 0 then - darwin_to_linux_errno cnt err else sys_ret)"

definition linux_to_darwin_signum :: "nat \<Rightarrow> int \<Rightarrow> int" where
  "linux_to_darwin_signum cnt = linux_to_darwin cnt LINUX_STSIGNUM"

definition darwin_to_linux_signum :: "nat \<Rightarrow> int \<Rightarrow> int" where
  "darwin_to_linux_signum cnt = darwin_to_linux (linux_constant LINUX_STSIGNUM) cnt LINUX_STSIGNUM"

definition linux_to_darwin_sa_family :: "nat \<Rightarrow> int \<Rightarrow> int" where
  "linux_to_darwin_sa_family cnt = linux_to_darwin cnt LINUX_AF"

definition darwin_to_linux_sa_family :: "nat \<Rightarrow> int \<Rightarrow> int" where
  "darwin_to_linux_sa_family cnt = darwin_to_linux (linux_constant LINUX_AF) cnt LINUX_AF"

section \<open>What a table promises\<close>

fun linux_values :: "decl list \<Rightarrow> int list" where
  "linux_values [] = []"
| "linux_values (DECL_LINUX name v d # ds) = v # linux_values ds"
| "linux_values (DECL_ALIAS name target # ds) = linux_values ds"
| "linux_values (FROM_DARWN name d # ds) = linux_values ds"

fun darwin_values :: "decl list \<Rightarrow> int list" where
  "darwin_values [] = []"
| "darwin_values (DECL_LINUX name v (Darwin d) # ds) = d # darwin_values ds"
| "darwin_values (DECL_LINUX name v LINUX_SPECIFIC # ds) = darwin_values ds"
| "darwin_values (DECL_ALIAS name target # ds) = darwin_values ds"
| "darwin_values (FROM_DARWN name d # ds) = d # darwin_values ds"

lemma linux_values_mem: "DECL_LINUX name v d \<in> set ds \<Longrightarrow> v \<in> set (linux_values ds)"
  by (induction ds rule: linux_values.induct) auto

lemma darwin_values_mem: "DECL_LINUX name v (Darwin d) \<in> set ds \<Longrightarrow> d \<in> set (darwin_values ds)"
  by (induction ds rule: darwin_values.induct) auto

lemma darwin_to_linux_mem:
  "darwin_to_linux env cnt ds x \<in> set (linux_values ds) \<union> {env n |n d. FROM_DARWN n d \<in> set ds} \<union> {-1}"
  by (induction env cnt ds x rule: darwin_to_linux.induct) auto

lemma strtable_mem: "v \<in> set (linux_values ds) \<Longrightarrow> strtable ds v \<noteq> None"
  by (induction ds v rule: strtable.induct) auto

locale const_table =
  fixes ds :: "decl list"
  assumes linux_distinct: "distinct (linux_values ds)"
    and darwin_distinct: "distinct (darwin_values ds)"
    and darwin_nonneg: "list_all (\<lambda>d. 0 \<le> d) (darwin_values ds)"
    and from_known: "list_all (\<lambda>c. case c of FROM_DARWN n d \<Rightarrow> linux_constant ds n \<in> set (linux_values ds) | _ \<Rightarrow> True) ds"
begin

lemma to_darwin:
  assumes "DECL_LINUX name v (Darwin d) \<in> set ds"
  shows "linux_to_darwin cnt ds v = d"
  using assms linux_distinct
  by (induction cnt ds v rule: linux_to_darwin.induct) (auto dest: linux_values_mem)

lemma to_linux:
  assumes "DECL_LINUX name v (Darwin d) \<in> set ds"
  shows "darwin_to_linux env cnt ds d = v"
proof -
  have "0 \<le> d" using darwin_nonneg darwin_values_mem [OF assms] by (simp add: list_all_iff)
  then show ?thesis
    using assms darwin_distinct
    by (induction env cnt ds d rule: darwin_to_linux.induct) (auto simp: specific_def dest: darwin_values_mem)
qed

lemma linux_known: "darwin_to_linux (linux_constant ds) cnt ds x \<in> set (linux_values ds) \<union> {-1}"
  using darwin_to_linux_mem [of "linux_constant ds" cnt ds x] from_known by (auto simp: list_all_iff)

end

interpretation errno_table: const_table LINUX_ERRNO
  by unfold_locales (unfold LINUX_ERRNO_def, code_simp+)

interpretation signum_table: const_table LINUX_STSIGNUM
  by unfold_locales (unfold LINUX_STSIGNUM_def, code_simp+)

interpretation af_table: const_table LINUX_AF
  by unfold_locales (unfold LINUX_AF_def, code_simp+)

section \<open>Properties\<close>

lemma errno_declared: "darwin_to_linux_errno cnt e \<in> set (linux_values LINUX_ERRNO)"
proof -
  have "22 \<in> set (linux_values LINUX_ERRNO)" unfolding LINUX_ERRNO_def by code_simp
  then show ?thesis
    using errno_table.linux_known [of cnt e]
    by (auto simp: darwin_to_linux_errno_def darwin_to_linux_errno_raw_def Let_def)
qed

lemma errno_range: "v \<in> set (linux_values LINUX_ERRNO) \<Longrightarrow> 1 \<le> v \<and> v \<le> 133"
proof -
  have "list_all (\<lambda>v. 1 \<le> v \<and> v \<le> 133) (linux_values LINUX_ERRNO)" unfolding LINUX_ERRNO_def by code_simp
  then show "v \<in> set (linux_values LINUX_ERRNO) \<Longrightarrow> 1 \<le> v \<and> v \<le> 133" by (simp add: list_all_iff)
qed

text \<open>
  C34: A failed host call is an error to the guest, whatever number the host gave: the
  answer is the negative of one of the declared Linux error numbers, from 1 to 133.
\<close>

theorem syswrap_errno:
  assumes "ret < 0" "err \<noteq> 0"
  shows "\<exists>v s. syswrap cnt ret err = - v \<and> 1 \<le> v \<and> v \<le> 133 \<and> strtable LINUX_ERRNO v = Some s"
  using assms errno_declared [of cnt err] errno_range strtable_mem by (fastforce simp: syswrap_def)

theorem syswrap_errno_witness:
  "\<exists>v s. syswrap 0 (-1) 106 = - v \<and> 1 \<le> v \<and> v \<le> 133 \<and> strtable LINUX_ERRNO v = Some s"
  by (rule syswrap_errno) simp_all



end
