(* ===== verification/Conv.thy ===== *)
theory Conv
  imports Const_Map
begin

text \<open>
  Conversion of flags and structures between Linux and Darwin (\<^verbatim>\<open>src/conv.c\<close>).  A run of
  \<^verbatim>\<open>if (x & A) y |= B;\<close> statements is a list of pairs here, in the order of the code, and
  a C \<^verbatim>\<open>int\<close> is a 32-bit word.  The Linux numbers are those of \<^verbatim>\<open>include/linux\<close>, the
  Darwin numbers those of the system's headers.
\<close>

section \<open>Flags\<close>

definition test :: "'a::len word \<Rightarrow> 'a word \<times> 'b::len word \<Rightarrow> 'b word \<Rightarrow> 'b word" where
  "test x = (\<lambda>(m, b) ret. if x AND m \<noteq> 0 then ret OR b else ret)"

definition tests :: "('a::len word \<times> 'b::len word) list \<Rightarrow> 'a word \<Rightarrow> 'b word \<Rightarrow> 'b word" where
  "tests ms x = fold (test x) ms"

definition linux_to_darwin_at_flags :: "u32 \<Rightarrow> u32" where
  "linux_to_darwin_at_flags flags =
     (if flags = -100 then -2 \<comment> \<open>\<^verbatim>\<open>AT_FDCWD\<close>\<close>
      else tests [(0x100, 0x20) \<comment> \<open>\<^verbatim>\<open>AT_SYMLINK_NOFOLLOW\<close>\<close>,
                  (0x200, 0x10) \<comment> \<open>\<^verbatim>\<open>AT_EACCESS\<close>\<close>,
                  (0x400, 0x40) \<comment> \<open>\<^verbatim>\<open>AT_SYMLINK_FOLLOW\<close>\<close>] flags 0)"

definition o_path_tab :: "(u32 \<times> u32) list" where
  "o_path_tab =
     [(0x80000, 0x1000000) \<comment> \<open>\<^verbatim>\<open>O_CLOEXEC\<close>\<close>,
      (0x8000, 0x200000) \<comment> \<open>\<^verbatim>\<open>O_NOFOLLOW\<close>, \<^verbatim>\<open>O_SYMLINK\<close>\<close>,
      (0x4000, 0x100000) \<comment> \<open>\<^verbatim>\<open>O_DIRECTORY\<close>\<close>]"

definition o_flags_tab :: "(u32 \<times> u32) list" where
  "o_flags_tab =
     [(0x800, 0x4) \<comment> \<open>\<^verbatim>\<open>O_NDELAY\<close>, \<^verbatim>\<open>O_NONBLOCK\<close>\<close>,
      (0x400, 0x8) \<comment> \<open>\<^verbatim>\<open>O_APPEND\<close>\<close>,
      (0x1000, 0x80) \<comment> \<open>\<^verbatim>\<open>O_SYNC\<close>, \<^verbatim>\<open>O_FSYNC\<close>\<close>,
      (0x800, 0x4) \<comment> \<open>\<^verbatim>\<open>O_NONBLOCK\<close>\<close>,
      (0x2000, 0x40) \<comment> \<open>\<^verbatim>\<open>FASYNC\<close>, \<^verbatim>\<open>O_ASYNC\<close>\<close>,
      (0x40, 0x200) \<comment> \<open>\<^verbatim>\<open>O_CREAT\<close>\<close>,
      (0x200, 0x400) \<comment> \<open>\<^verbatim>\<open>O_TRUNC\<close>\<close>,
      (0x80, 0x800) \<comment> \<open>\<^verbatim>\<open>O_EXCL\<close>\<close>,
      (0x100, 0x20000) \<comment> \<open>\<^verbatim>\<open>O_NOCTTY\<close>\<close>,
      (0x8000, 0x100) \<comment> \<open>\<^verbatim>\<open>O_NOFOLLOW\<close>\<close>,
      (0x4000, 0x100000) \<comment> \<open>\<^verbatim>\<open>O_DIRECTORY\<close>\<close>]"

definition linux_to_darwin_o_flags :: "u32 \<Rightarrow> u32" where
  "linux_to_darwin_o_flags l_flags =
     (if l_flags AND 0x200000 \<noteq> 0 \<comment> \<open>\<^verbatim>\<open>O_PATH\<close>\<close> then tests o_path_tab l_flags 0
      else tests o_flags_tab l_flags
             (if l_flags AND 3 = 1 then 1 else if l_flags AND 3 = 2 then 2 else 0))"

text \<open>The other way each bit is also taken out of the host's word once it is converted.\<close>

definition take_out :: "u32 \<times> u32 \<Rightarrow> u32 \<times> u32 \<Rightarrow> u32 \<times> u32" where
  "take_out = (\<lambda>(x, y) (flags, r). if r AND x \<noteq> 0 then (flags OR y, r AND NOT x) else (flags, r))"

definition darwin_o_flags_tab :: "(u32 \<times> u32) list" where
  "darwin_o_flags_tab =
     [(0, 0) \<comment> \<open>\<^verbatim>\<open>O_RDONLY\<close>\<close>, (1, 1) \<comment> \<open>\<^verbatim>\<open>O_WRONLY\<close>\<close>, (2, 2) \<comment> \<open>\<^verbatim>\<open>O_RDWR\<close>\<close>,
      (0x8, 0x400) \<comment> \<open>\<^verbatim>\<open>O_APPEND\<close>\<close>,
      (0x4, 0x800) \<comment> \<open>\<^verbatim>\<open>O_NONBLOCK\<close>\<close>,
      (0x80, 0x2000) \<comment> \<open>\<^verbatim>\<open>O_FSYNC\<close>, \<^verbatim>\<open>FASYNC\<close>\<close>,
      (0x200, 0x40) \<comment> \<open>\<^verbatim>\<open>O_CREAT\<close>\<close>,
      (0x400, 0x200) \<comment> \<open>\<^verbatim>\<open>O_TRUNC\<close>\<close>,
      (0x800, 0x80) \<comment> \<open>\<^verbatim>\<open>O_EXCL\<close>\<close>,
      (0x20000, 0x100) \<comment> \<open>\<^verbatim>\<open>O_NOCTTY\<close>\<close>,
      (0x100, 0x8000) \<comment> \<open>\<^verbatim>\<open>O_NOFOLLOW\<close>\<close>,
      (0x100000, 0x4000) \<comment> \<open>\<^verbatim>\<open>O_DIRECTORY\<close>\<close>,
      (0x1000000, 0x80000) \<comment> \<open>\<^verbatim>\<open>O_CLOEXEC\<close>\<close>,
      (0x400000, 0x1000) \<comment> \<open>\<^verbatim>\<open>O_DSYNC\<close>, \<^verbatim>\<open>O_SYNC\<close>\<close>,
      (0x40, 0x2000) \<comment> \<open>\<^verbatim>\<open>O_ASYNC\<close>, \<^verbatim>\<open>FASYNC\<close>\<close>]"

definition darwin_to_linux_o_flags :: "u32 \<Rightarrow> u32" where
  "darwin_to_linux_o_flags r = fst (fold take_out darwin_o_flags_tab (0, r))"

section \<open>Terminals\<close>

record termios =
  t_iflag :: u64
  t_oflag :: u64
  t_cflag :: u64
  t_lflag :: u64
  t_cc :: "u8 list"
  t_ispeed :: u64
  t_ospeed :: u64

record linux_termios =
  lt_iflag :: u32
  lt_oflag :: u32
  lt_cflag :: u32
  lt_lflag :: u32
  lt_line :: u8
  lt_cc :: "u8 list"

text \<open>The speeds, Darwin's first; the entry of \<open>-1\<close> that ends the table is left out.\<close>

definition sptab :: "(u32 \<times> u32) list" where
  "sptab =
     [(0, 0), (50, 1), (75, 2), (110, 3), (134, 4), (150, 5), (200, 6), (300, 7), (600, 8), (1200, 9),
      (1800, 0xa), (2400, 0xb), (4800, 0xc), (9600, 0xd), (19200, 0xe), (38400, 0xf),
      (57600, 0x1001), (115200, 0x1002)]"

fun darwin_to_linux_speed :: "u32 \<Rightarrow> (u32 \<times> u32) list \<Rightarrow> u32" where
  "darwin_to_linux_speed speed [] = -1"
| "darwin_to_linux_speed speed ((sp_speed, sp_code) # table) =
     (if sp_speed = speed then sp_code else darwin_to_linux_speed speed table)"

fun linux_to_darwin_speed :: "u32 \<Rightarrow> (u32 \<times> u32) list \<Rightarrow> u32" where
  "linux_to_darwin_speed code [] = -1"
| "linux_to_darwin_speed code ((sp_speed, sp_code) # table) =
     (if sp_code = code then sp_speed else linux_to_darwin_speed code table)"

text \<open>The flags of each word, Darwin's first, in the order both directions test them.\<close>

definition iflag_tab :: "(u64 \<times> u32) list" where
  "iflag_tab =
     [(0x1, 0x1) \<comment> \<open>\<^verbatim>\<open>IGNBRK\<close>\<close>, (0x2, 0x2) \<comment> \<open>\<^verbatim>\<open>BRKINT\<close>\<close>, (0x4, 0x4) \<comment> \<open>\<^verbatim>\<open>IGNPAR\<close>\<close>,
      (0x8, 0x8) \<comment> \<open>\<^verbatim>\<open>PARMRK\<close>\<close>, (0x10, 0x10) \<comment> \<open>\<^verbatim>\<open>INPCK\<close>\<close>, (0x20, 0x20) \<comment> \<open>\<^verbatim>\<open>ISTRIP\<close>\<close>,
      (0x40, 0x40) \<comment> \<open>\<^verbatim>\<open>INLCR\<close>\<close>, (0x80, 0x80) \<comment> \<open>\<^verbatim>\<open>IGNCR\<close>\<close>, (0x100, 0x100) \<comment> \<open>\<^verbatim>\<open>ICRNL\<close>\<close>,
      (0x200, 0x400) \<comment> \<open>\<^verbatim>\<open>IXON\<close>\<close>, (0x800, 0x800) \<comment> \<open>\<^verbatim>\<open>IXANY\<close>\<close>, (0x400, 0x1000) \<comment> \<open>\<^verbatim>\<open>IXOFF\<close>\<close>,
      (0x2000, 0x2000) \<comment> \<open>\<^verbatim>\<open>IMAXBEL\<close>\<close>]"

definition oflag_tab :: "(u64 \<times> u32) list" where
  "oflag_tab =
     [(0x1, 0x1) \<comment> \<open>\<^verbatim>\<open>OPOST\<close>\<close>, (0x2, 0x4) \<comment> \<open>\<^verbatim>\<open>ONLCR\<close>\<close>, (0x4, 0x1800) \<comment> \<open>\<^verbatim>\<open>TAB3\<close>, \<^verbatim>\<open>XTABS\<close>\<close>]"

definition cflag_tab :: "(u64 \<times> u32) list" where
  "cflag_tab =
     [(0x400, 0x40) \<comment> \<open>\<^verbatim>\<open>CSTOPB\<close>\<close>, (0x800, 0x80) \<comment> \<open>\<^verbatim>\<open>CREAD\<close>\<close>, (0x1000, 0x100) \<comment> \<open>\<^verbatim>\<open>PARENB\<close>\<close>,
      (0x2000, 0x200) \<comment> \<open>\<^verbatim>\<open>PARODD\<close>\<close>, (0x4000, 0x400) \<comment> \<open>\<^verbatim>\<open>HUPCL\<close>\<close>, (0x8000, 0x800) \<comment> \<open>\<^verbatim>\<open>CLOCAL\<close>\<close>,
      (0x30000, 0x80000000) \<comment> \<open>\<^verbatim>\<open>CRTSCTS\<close>\<close>]"

definition lflag_tab :: "(u64 \<times> u32) list" where
  "lflag_tab =
     [(0x80, 0x1) \<comment> \<open>\<^verbatim>\<open>ISIG\<close>\<close>, (0x100, 0x2) \<comment> \<open>\<^verbatim>\<open>ICANON\<close>\<close>, (0x8, 0x8) \<comment> \<open>\<^verbatim>\<open>ECHO\<close>\<close>,
      (0x2, 0x10) \<comment> \<open>\<^verbatim>\<open>ECHOE\<close>\<close>, (0x4, 0x20) \<comment> \<open>\<^verbatim>\<open>ECHOK\<close>\<close>, (0x10, 0x40) \<comment> \<open>\<^verbatim>\<open>ECHONL\<close>\<close>,
      (0x80000000, 0x80) \<comment> \<open>\<^verbatim>\<open>NOFLSH\<close>\<close>, (0x400000, 0x100) \<comment> \<open>\<^verbatim>\<open>TOSTOP\<close>\<close>, (0x40, 0x200) \<comment> \<open>\<^verbatim>\<open>ECHOCTL\<close>\<close>,
      (0x20, 0x400) \<comment> \<open>\<^verbatim>\<open>ECHOPRT\<close>\<close>, (0x1, 0x800) \<comment> \<open>\<^verbatim>\<open>ECHOKE\<close>\<close>, (0x800000, 0x1000) \<comment> \<open>\<^verbatim>\<open>FLUSHO\<close>\<close>,
      (0x20000000, 0x2000) \<comment> \<open>\<^verbatim>\<open>PENDIN\<close>\<close>, (0x400, 0x8000) \<comment> \<open>\<^verbatim>\<open>IEXTEN\<close>\<close>]"

text \<open>The control characters, Darwin's index first; \<^verbatim>\<open>VMIN\<close> and \<^verbatim>\<open>VTIME\<close> are 16 and 17 there, 6 and 5 here.\<close>

definition cc_tab :: "(nat \<times> nat) list" where
  "cc_tab =
     [(8, 0) \<comment> \<open>\<^verbatim>\<open>VINTR\<close>\<close>, (9, 1) \<comment> \<open>\<^verbatim>\<open>VQUIT\<close>\<close>, (3, 2) \<comment> \<open>\<^verbatim>\<open>VERASE\<close>\<close>, (5, 3) \<comment> \<open>\<^verbatim>\<open>VKILL\<close>\<close>,
      (0, 4) \<comment> \<open>\<^verbatim>\<open>VEOF\<close>\<close>, (1, 11) \<comment> \<open>\<^verbatim>\<open>VEOL\<close>\<close>, (16, 6) \<comment> \<open>\<^verbatim>\<open>VMIN\<close>\<close>, (17, 5) \<comment> \<open>\<^verbatim>\<open>VTIME\<close>\<close>,
      (2, 16) \<comment> \<open>\<^verbatim>\<open>VEOL2\<close>\<close>, (10, 10) \<comment> \<open>\<^verbatim>\<open>VSUSP\<close>\<close>, (12, 8) \<comment> \<open>\<^verbatim>\<open>VSTART\<close>\<close>, (13, 9) \<comment> \<open>\<^verbatim>\<open>VSTOP\<close>\<close>,
      (6, 12) \<comment> \<open>\<^verbatim>\<open>VREPRINT\<close>\<close>, (15, 13) \<comment> \<open>\<^verbatim>\<open>VDISCARD\<close>\<close>, (4, 14) \<comment> \<open>\<^verbatim>\<open>VWERASE\<close>\<close>, (14, 15) \<comment> \<open>\<^verbatim>\<open>VLNEXT\<close>\<close>]"

definition swap_cols :: "('a \<times> 'b) list \<Rightarrow> ('b \<times> 'a) list" where
  "swap_cols ms = map (\<lambda>(a, b). (b, a)) ms"

definition copy_cc :: "(nat \<times> nat) list \<Rightarrow> u8 list \<Rightarrow> u8 list \<Rightarrow> u8 list" where
  "copy_cc ms from to = fold (\<lambda>(i, j) to. to[j := from ! i]) ms to"

text \<open>The last loop over the characters: the one side's mark for a disabled character becomes the other's.\<close>

definition disable_cc :: "u8 \<Rightarrow> u8 \<Rightarrow> nat \<Rightarrow> nat \<Rightarrow> u8 list \<Rightarrow> u8 list" where
  "disable_cc was now vmin vtime cc =
     map (\<lambda>i. if i \<noteq> vmin \<and> i \<noteq> vtime \<and> cc ! i = was then now else cc ! i) [0..<length cc]"

definition darwin_to_linux_termios :: "termios \<Rightarrow> linux_termios" where
  "darwin_to_linux_termios bios =
     \<lparr> lt_iflag = tests iflag_tab (t_iflag bios) 0,
       lt_oflag = tests oflag_tab (t_oflag bios) 0,
       lt_cflag = tests cflag_tab (t_cflag bios)
         (darwin_to_linux_speed (ucast (t_ispeed bios)) sptab OR ucast (drop_bit 4 (t_cflag bios AND 0x300))),
       lt_lflag = tests lflag_tab (t_lflag bios) 0,
       lt_line = 0,
       lt_cc = disable_cc 0xff 0 6 5 (copy_cc cc_tab (t_cc bios) (replicate 19 0)) \<rparr>"

definition linux_to_darwin_termios :: "linux_termios \<Rightarrow> termios" where
  "linux_to_darwin_termios lios =
     (let speed = scast (linux_to_darwin_speed (lt_cflag lios AND 0x100f) sptab)
      in \<lparr> t_iflag = tests (swap_cols iflag_tab) (lt_iflag lios) 0,
           t_oflag = tests (swap_cols oflag_tab) (lt_oflag lios) 0,
           t_cflag = tests (swap_cols cflag_tab) (lt_cflag lios) (ucast (push_bit 4 (lt_cflag lios AND 0x30))),
           t_lflag = tests (swap_cols lflag_tab) (lt_lflag lios) 0,
           t_cc = disable_cc 0 0xff 16 17 (copy_cc (swap_cols cc_tab) (lt_cc lios) (replicate 20 0xff)),
           t_ispeed = speed, t_ospeed = speed \<rparr>)"

section \<open>Converting flags there and back\<close>

lemma tests_Nil [simp]: "tests [] x a = a"
  by (simp add: tests_def)

lemma tests_Cons: "tests ((m, b) # ms) x a = tests ms x (if x AND m \<noteq> 0 then a OR b else a)"
  by (simp add: tests_def test_def)

lemma bit_tests: "bit (tests ms x a) n \<longleftrightarrow> bit a n \<or> (\<exists>m b. (m, b) \<in> set ms \<and> x AND m \<noteq> 0 \<and> bit b n)"
proof (induction ms arbitrary: a)
  case (Cons mb ms)
  obtain m b where mb: "mb = (m, b)" by (cases mb)
  show ?case
    by (cases "x AND m = 0") (auto simp: mb tests_Cons Cons bit_or_iff)
qed simp

lemma and_nonzero: "x AND m \<noteq> 0 \<longleftrightarrow> (\<exists>n. bit x n \<and> bit m n)" for x :: "'a::len word"
  by (auto simp: bit_eq_iff bit_and_iff dest: bit_imp_le_length)

lemma tests_acc: "tests ms x a = a OR tests ms x 0"
  by (simp add: bit_eq_iff bit_tests bit_or_iff)

text \<open>Masks that share no bit, none of them empty.\<close>

fun apart_masks :: "'a::len word list \<Rightarrow> bool" where
  "apart_masks [] = True"
| "apart_masks (m # ms) = (m \<noteq> 0 \<and> list_all (\<lambda>m'. m AND m' = 0) ms \<and> apart_masks ms)"

lemma apart_masks_mem:
  "apart_masks (map snd ms) \<Longrightarrow> (a, b) \<in> set ms \<Longrightarrow> (a', b') \<in> set ms \<Longrightarrow> b AND b' \<noteq> 0 \<Longrightarrow> a' = a \<and> b' = b \<and> b \<noteq> 0"
proof (induction ms)
  case (Cons m ms)
  then show ?case
    by (cases m) (auto simp: list_all_iff and.commute)
qed simp

lemma apart_masks_nonzero: "apart_masks (map snd ms) \<Longrightarrow> (a, b) \<in> set ms \<Longrightarrow> b \<noteq> 0"
  by (induction ms) auto

text \<open>
  There and back gives each mask that the word meets in full: for masks of one bit,
  the word itself without the bits that no mask has.
\<close>

lemma tests_inverse:
  assumes "apart_masks (map snd ms)"
  shows "tests (swap_cols ms) (tests ms x 0) 0 = tests (map (\<lambda>(m, b). (m, m)) ms) x 0"
proof (rule bit_eqI)
  fix n
  have "tests ms x 0 AND b \<noteq> 0 \<longleftrightarrow> x AND m \<noteq> 0" if "(m, b) \<in> set ms" for m b
  proof -
    have "tests ms x 0 AND b \<noteq> 0 \<longleftrightarrow> (\<exists>m' b'. (m', b') \<in> set ms \<and> x AND m' \<noteq> 0 \<and> b AND b' \<noteq> 0)"
      unfolding and_nonzero [of "tests ms x 0"] and_nonzero [of b] bit_tests by auto
    also have "\<dots> \<longleftrightarrow> x AND m \<noteq> 0"
    proof
      assume "\<exists>m' b'. (m', b') \<in> set ms \<and> x AND m' \<noteq> 0 \<and> b AND b' \<noteq> 0"
      then obtain m' b' where "(m', b') \<in> set ms" "x AND m' \<noteq> 0" "b AND b' \<noteq> 0" by blast
      then show "x AND m \<noteq> 0" using apart_masks_mem [OF assms that] by blast
    next
      assume "x AND m \<noteq> 0"
      then show "\<exists>m' b'. (m', b') \<in> set ms \<and> x AND m' \<noteq> 0 \<and> b AND b' \<noteq> 0"
        using that apart_masks_nonzero [OF assms that] by (metis and.idem)
    qed
    finally show ?thesis .
  qed
  then show "bit (tests (swap_cols ms) (tests ms x 0) 0) n = bit (tests (map (\<lambda>(m, b). (m, m)) ms) x 0) n"
    unfolding bit_tests swap_cols_def by fastforce
qed

lemma swap_swap: "swap_cols (swap_cols ms) = ms"
  by (induction ms) (auto simp: swap_cols_def)

lemma snd_swap: "map snd (swap_cols ms) = map fst ms"
  by (induction ms) (auto simp: swap_cols_def)

text \<open>The word survives when it has only bits of the masks, and all of a mask or none of it.\<close>

definition whole :: "'a::len word list \<Rightarrow> 'a word \<Rightarrow> bool" where
  "whole ms x \<longleftrightarrow> x AND NOT (fold (OR) ms 0) = 0 \<and> list_all (\<lambda>m. x AND m = 0 \<or> x AND m = m) ms"

lemma bit_fold_or: "bit (fold (OR) ms a) n \<longleftrightarrow> bit a n \<or> (\<exists>m\<in>set ms. bit m n)" for a :: "'a::len word"
  by (induction ms arbitrary: a) (auto simp: bit_or_iff)

lemma tests_whole:
  assumes "whole (map fst ms) x"
  shows "tests (map (\<lambda>(m, b). (m, m)) ms) x 0 = x"
proof (rule bit_word_eqI)
  fix n assume "n < LENGTH('a)"
  then have "bit x n \<Longrightarrow> \<exists>m\<in>set (map fst ms). bit m n"
    using assms by (auto simp: whole_def bit_eq_iff [of "x AND _" 0] bit_simps bit_fold_or possible_bit_word)
  moreover have "bit x n" if "(m, b) \<in> set ms" "x AND m \<noteq> 0" "bit m n" for m b
  proof -
    have "x AND m = m" using assms that(1,2) by (force simp: whole_def list_all_iff)
    then show ?thesis using that(3) by (metis bit_and_iff)
  qed
  ultimately show "bit (tests (map (\<lambda>(m, b). (m, m)) ms) x 0) n = bit x n"
    by (fastforce simp: bit_tests and_nonzero)
qed

lemma flags_roundtrip:
  assumes "apart_masks (map fst ms)" "whole (map snd ms) x"
  shows "tests ms (tests (swap_cols ms) x 0) 0 = x"
  using tests_inverse [of "swap_cols ms" x] tests_whole [of "swap_cols ms" x] assms
  by (simp add: swap_swap snd_swap swap_cols_def comp_def case_prod_beta)

lemma tests_masked:
  assumes "\<And>m b. (m, b) \<in> set ms \<Longrightarrow> m AND k = m"
  shows "tests ms x a = tests ms (x AND k) a"
proof -
  have "(x AND k) AND m = x AND m" if "(m, b) \<in> set ms" for m b
    using assms [OF that] by (metis and.assoc and.commute)
  then show ?thesis by (intro bit_word_eqI) (metis (no_types, lifting) bit_tests)
qed

lemma tests_outside:
  assumes "list_all (\<lambda>(m, b). b AND k = 0) ms"
  shows "tests ms x 0 AND k = 0"
proof (rule ccontr)
  assume "\<not> ?thesis"
  then obtain n where "bit (tests ms x 0) n" "bit k n" unfolding and_nonzero by blast
  then obtain m b where "(m, b) \<in> set ms" "b AND k \<noteq> 0" unfolding bit_tests and_nonzero by auto
  then show False using assms by (auto simp: list_all_iff)
qed

section \<open>Terminal settings\<close>

definition cflag_bits :: u32 where
  "cflag_bits = 0x80000fc0"

text \<open>
  The settings both systems have: known flags, a speed of the table, no control
  character that Darwin reads as disabled.
\<close>

definition supported_termios :: "linux_termios \<Rightarrow> bool" where
  "supported_termios l \<longleftrightarrow>
     whole (map snd iflag_tab) (lt_iflag l) \<and> whole (map snd oflag_tab) (lt_oflag l) \<and>
     whole (map snd lflag_tab) (lt_lflag l) \<and>
     lt_cflag l AND NOT (0x100f OR 0x30 OR cflag_bits) = 0 \<and>
     lt_cflag l AND 0x100f \<in> set (map snd sptab) \<and>
     lt_line l = 0 \<and> length (lt_cc l) = 19 \<and> lt_cc l ! 7 = 0 \<and> lt_cc l ! 17 = 0 \<and> lt_cc l ! 18 = 0 \<and>
     list_all (\<lambda>i. lt_cc l ! i \<noteq> 0xff) [0, 1, 2, 3, 4, 8, 9, 10, 11, 12, 13, 14, 15, 16]"

lemma speed_roundtrip:
  "c \<in> set (map snd sptab) \<Longrightarrow> darwin_to_linux_speed (ucast (scast (linux_to_darwin_speed c sptab) :: u64)) sptab = c"
  by (auto simp: sptab_def)

lemma copy_cc_length [simp]: "length (copy_cc ms from to) = length to"
  unfolding copy_cc_def by (induction ms arbitrary: to) auto

lemma copy_cc_nth:
  "distinct (map snd ms) \<Longrightarrow> j < length to \<Longrightarrow>
   copy_cc ms from to ! j = (case map_of (swap_cols ms) j of Some i \<Rightarrow> from ! i | None \<Rightarrow> to ! j)"
proof (induction ms arbitrary: to)
  case (Cons m ms)
  have "fst ` set (swap_cols ms) = snd ` set ms" by (force simp: swap_cols_def)
  then have "map_of (swap_cols ms) (snd m) = None"
    using Cons.prems(1) by (simp add: map_of_eq_None_iff)
  then show ?case
    using Cons.IH [of "to[snd m := from ! fst m]"] Cons.prems
    by (cases m) (auto simp: copy_cc_def swap_cols_def nth_list_update split: option.splits)
qed (simp add: copy_cc_def swap_cols_def)

lemma disable_cc_nth:
  "i < length cc \<Longrightarrow> disable_cc was now vmin vtime cc ! i =
     (if i \<noteq> vmin \<and> i \<noteq> vtime \<and> cc ! i = was then now else cc ! i)"
  by (simp add: disable_cc_def)

lemma disable_cc_length [simp]: "length (disable_cc was now vmin vtime cc) = length cc"
  by (simp add: disable_cc_def)

lemma cc_roundtrip:
  assumes "length cc = 19" "cc ! 7 = 0" "cc ! 17 = 0" "cc ! 18 = 0"
    and "list_all (\<lambda>i. cc ! i \<noteq> 0xff) [0, 1, 2, 3, 4, 8, 9, 10, 11, 12, 13, 14, 15, 16]"
  shows "disable_cc 0xff 0 6 5 (copy_cc cc_tab
    (disable_cc 0 0xff 16 17 (copy_cc (swap_cols cc_tab) cc (replicate 20 0xff))) (replicate 19 0)) = cc"
proof -
  define f where "f = disable_cc 0 0xff 16 17 (copy_cc (swap_cols cc_tab) cc (replicate 20 0xff))"
  have d: "distinct (map snd cc_tab)" "distinct (map snd (swap_cols cc_tab))"
    by (simp_all add: cc_tab_def swap_cols_def)
  have f: "f ! i = (let x = (case map_of cc_tab i of Some j \<Rightarrow> cc ! j | None \<Rightarrow> 0xff)
      in if i \<noteq> 16 \<and> i \<noteq> 17 \<and> x = 0 then 0xff else x)" if "i < 20" for i
    using that by (cases "map_of cc_tab i") (auto simp: f_def disable_cc_nth copy_cc_nth d swap_swap Let_def)
  have "disable_cc 0xff 0 6 5 (copy_cc cc_tab f (replicate 19 0)) = cc" (is "?l = cc")
  proof (rule nth_equalityI)
    show "length ?l = length cc" using assms(1) by simp
    fix i assume i: "i < length ?l"
    then have l: "?l ! i = (let x = (case map_of (swap_cols cc_tab) i of Some j \<Rightarrow> f ! j | None \<Rightarrow> 0)
        in if i \<noteq> 6 \<and> i \<noteq> 5 \<and> x = 0xff then 0 else x)"
      by (cases "map_of (swap_cols cc_tab) i") (auto simp: disable_cc_nth copy_cc_nth d Let_def)
    from i have "i \<in> {0, 1, 2, 3, 4, 5, 6, 7, 8, 9, 10, 11, 12, 13, 14, 15, 16, 17, 18}"
      by (simp, presburger)
    then show "?l ! i = cc ! i"
      unfolding l using assms by (elim insertE emptyE) (simp_all add: f Let_def cc_tab_def swap_cols_def)
  qed
  then show ?thesis by (simp add: f_def)
qed

lemma single_bit:
  fixes x m :: "'a::len word"
  assumes "m = push_bit k 1"
  shows "x AND m = 0 \<or> x AND m = m"
proof (cases "bit x k")
  case True
  then show ?thesis using assms by (intro disjI2 bit_word_eqI) (auto simp: bit_simps)
next
  case False
  then show ?thesis using assms by (intro disjI1 bit_word_eqI) (auto simp: bit_simps)
qed

lemma size_there_back:
  fixes l :: u32
  shows "ucast (drop_bit 4 (ucast (push_bit 4 (l AND 0x30)) :: u64)) = l AND 0x30"
proof -
  define y where "y = l AND 0x30"
  have y: "k < 6" if "bit y k" for k
  proof -
    have "(0x30 :: u32) = push_bit 4 (mask 2)" by (simp add: mask_eq_exp_minus_1)
    then show ?thesis using that unfolding y_def by (simp only: bit_and_iff bit_push_bit_iff bit_mask_iff) auto
  qed
  have "ucast (drop_bit 4 (ucast (push_bit 4 y) :: u64)) = y"
    by (rule bit_word_eqI) (auto simp: bit_simps dest: y)
  then show ?thesis by (simp only: y_def)
qed

lemma cflag_back:
  assumes "l AND NOT (0x100f OR 0x30 OR cflag_bits) = 0"
  defines "t \<equiv> tests (swap_cols cflag_tab) l (ucast (push_bit 4 (l AND 0x30)))"
  shows "tests cflag_tab t a = a OR (l AND cflag_bits)" "ucast (drop_bit 4 (t AND 0x300)) = l AND 0x30"
proof -
  define u where "u = tests (swap_cols cflag_tab) l 0"
  define w where "w = (ucast (push_bit 4 (l AND 0x30)) :: u64)"
  have t: "t = w OR u" unfolding t_def u_def w_def by (rule tests_acc)
  have u: "u = tests (swap_cols cflag_tab) (l AND cflag_bits) 0"
    unfolding u_def by (rule tests_masked) (auto simp: swap_cols_def cflag_tab_def cflag_bits_def)
  have u3: "u AND 0x300 = 0"
    unfolding u_def by (rule tests_outside) (simp add: swap_cols_def cflag_tab_def)
  have w: "w = ucast (push_bit 4 l) AND 0x300"
    unfolding w_def by (simp add: push_bit_and unsigned_and_eq)
  have w0: "w AND 0x3fc00 = 0" "w AND 0x300 = w" unfolding w by (simp_all add: and.assoc)
  have "tests cflag_tab t 0 = tests cflag_tab (t AND 0x3fc00) 0"
    by (rule tests_masked) (auto simp: cflag_tab_def)
  also have "t AND 0x3fc00 = u AND 0x3fc00"
    unfolding t bit.conj_disj_distrib2 w0 by simp
  also have "tests cflag_tab (u AND 0x3fc00) 0 = tests cflag_tab u 0"
    by (rule tests_masked [symmetric]) (auto simp: cflag_tab_def)
  also have "\<dots> = l AND cflag_bits"
    unfolding u
  proof (rule flags_roundtrip)
    show "apart_masks (map fst cflag_tab)" by (simp add: cflag_tab_def)
    have "list_all (\<lambda>m. x AND m = 0 \<or> x AND m = m) (map snd cflag_tab)" for x :: u32
      using single_bit [of "0x40" "6" x] single_bit [of "0x80" "7" x] single_bit [of "0x100" "8" x] single_bit [of "0x200" "9" x]
        single_bit [of "0x400" "10" x] single_bit [of "0x800" "11" x] single_bit [of "0x80000000" "31" x]
      by (simp add: cflag_tab_def)
    moreover have "fold (OR) (map snd cflag_tab) 0 = cflag_bits" by (simp add: cflag_tab_def cflag_bits_def)
    ultimately show "whole (map snd cflag_tab) (l AND cflag_bits)" 
      unfolding whole_def by (metis and.assoc bit.conj_cancel_right bit.conj_zero_right)
  qed
  finally show "tests cflag_tab t a = a OR (l AND cflag_bits)" by (subst tests_acc) simp
  have "t AND 0x300 = w" unfolding t bit.conj_disj_distrib2 w0 u3 by simp
  then show "ucast (drop_bit 4 (t AND 0x300)) = l AND 0x30" unfolding w_def by (simp only: size_there_back)
qed

lemma and_of_and_not:
  fixes x m :: "'a::len word"
  assumes "x AND NOT m = 0"
  shows "x AND m = x"
proof -
  have "x AND (m OR NOT m) = (x AND m) OR (x AND NOT m)" by (rule bit.conj_disj_distrib)
  then show ?thesis using assms by simp
qed

text \<open>
  C19: Terminal settings that both systems have, made by a guest through the conversion to
  Darwin, read back as they were made.
\<close>

theorem termios_roundtrip:
  assumes "supported_termios l"
  shows "darwin_to_linux_termios (linux_to_darwin_termios l) = l"
proof -
  have flags: "tests iflag_tab (tests (swap_cols iflag_tab) (lt_iflag l) 0) 0 = lt_iflag l"
    "tests oflag_tab (tests (swap_cols oflag_tab) (lt_oflag l) 0) 0 = lt_oflag l"
    "tests lflag_tab (tests (swap_cols lflag_tab) (lt_lflag l) 0) 0 = lt_lflag l"
    using assms by (intro flags_roundtrip; simp add: supported_termios_def iflag_tab_def oflag_tab_def lflag_tab_def)+
  have c: "lt_cflag l AND NOT (0x100f OR 0x30 OR cflag_bits) = 0" using assms by (simp add: supported_termios_def)
  have "lt_cflag l AND (0x100f OR 0x30 OR cflag_bits) = lt_cflag l"
    by (rule and_of_and_not [OF c])
  then have whole: "(lt_cflag l AND 0x100f OR lt_cflag l AND 0x30) OR (lt_cflag l AND cflag_bits) = lt_cflag l"
    by (simp only: bit.conj_disj_distrib or.assoc)
  note speed = speed_roundtrip [of "lt_cflag l AND 0x100f"]
  show ?thesis
    using assms flags whole speed cflag_back [OF c] cc_roundtrip [of "lt_cc l"]
    by (simp add: darwin_to_linux_termios_def linux_to_darwin_termios_def Let_def supported_termios_def)
qed

definition sane_tty :: linux_termios where
  "sane_tty = \<lparr> lt_iflag = 0x500, lt_oflag = 5, lt_cflag = 0xbf, lt_lflag = 0x8a3b, lt_line = 0,
     lt_cc = [3, 28, 127, 21, 4, 0, 1, 0, 17, 19, 26, 0, 18, 15, 23, 22, 0, 0, 0] \<rparr>"

theorem termios_roundtrip_witness: "darwin_to_linux_termios (linux_to_darwin_termios sane_tty) = sane_tty"
  by (rule termios_roundtrip)
    (simp add: supported_termios_def sane_tty_def whole_def iflag_tab_def oflag_tab_def lflag_tab_def sptab_def cflag_bits_def)

text \<open>
  A speed that the table does not have, as a terminal at 230400 baud has it, sets every
  bit of the control flags: the number for \<open>not found\<close> is taken for the speed's bits.
\<close>

lemma termios_unknown_speed:
  "ucast (t_ispeed b) \<notin> set (map fst sptab) \<Longrightarrow> lt_cflag (darwin_to_linux_termios b) = - 1"
proof -
  have "s \<notin> set (map fst tab) \<Longrightarrow> darwin_to_linux_speed s tab = -1" for s tab
    by (induction s tab rule: darwin_to_linux_speed.induct) auto
  then show "ucast (t_ispeed b) \<notin> set (map fst sptab) \<Longrightarrow> lt_cflag (darwin_to_linux_termios b) = - 1"
    by (simp add: darwin_to_linux_termios_def tests_acc [of _ _ "- 1"])
qed

section \<open>Open flags there and back\<close>

lemma take_out_tests:
  assumes "apart_masks (map fst ms)"
  shows "fst (fold take_out ms (a, r)) = tests ms r a"
  using assms
proof (induction ms arbitrary: a r)
  case (Cons m ms)
  obtain x y where m: "m = (x, y)" by (cases m)
  have "(r AND NOT x) AND m' = r AND m'" if "(m', b) \<in> set ms" for m' b
  proof (rule bit_word_eqI)
    fix n assume "n < LENGTH(32)"
    moreover have "x AND m' = 0" using Cons.prems that by (force simp: m list_all_iff)
    ultimately show "bit ((r AND NOT x) AND m') n = bit (r AND m') n"
      using and_nonzero [of x m'] by (auto simp: bit_simps)
  qed
  then have "tests ms (r AND NOT x) c = tests ms r c" for c
    by (intro bit_word_eqI) (metis (no_types, lifting) bit_tests)
  then show ?case using Cons by (simp add: m take_out_def tests_Cons)
qed simp

lemma darwin_o_flags_tests: "darwin_to_linux_o_flags r = tests darwin_o_flags_tab r 0"
proof -
  have "fold take_out darwin_o_flags_tab (0, r) = fold take_out (tl darwin_o_flags_tab) (0, r)"
    by (simp add: darwin_o_flags_tab_def take_out_def)
  moreover have "fst (fold take_out (tl darwin_o_flags_tab) (0, r)) = tests (tl darwin_o_flags_tab) r 0"
    by (rule take_out_tests) (simp add: darwin_o_flags_tab_def)
  moreover have "tests darwin_o_flags_tab r 0 = tests (tl darwin_o_flags_tab) r 0"
    by (simp add: darwin_o_flags_tab_def tests_Cons)
  ultimately show ?thesis by (simp add: darwin_to_linux_o_flags_def)
qed

fun pairs_bit :: "(nat \<times> nat) list \<Rightarrow> (nat \<Rightarrow> bool) \<Rightarrow> nat \<Rightarrow> bool" where
  "pairs_bit [] g n = False"
| "pairs_bit ((k, j) # ks) g n = (g k \<and> n = j \<or> pairs_bit ks g n)"

lemma bit_tests_pairs:
  fixes x :: u32
  assumes "n < 32"
  shows "bit (tests (map (\<lambda>(k, j). (2 ^ k, 2 ^ j)) ks) x a :: u32) n
    \<longleftrightarrow> bit a n \<or> pairs_bit ks (bit x) n"
proof (induction ks arbitrary: a)
  case (Cons kj ks)
  obtain k j where kj: "kj = (k, j)" by (cases kj)
  show ?case
    using assms Cons by (cases "bit x k") (auto simp: kj tests_Cons and_exp_eq_0_iff_not_bit bit_or_iff bit_exp_iff)
qed simp

lemma o_flags_bits:
  assumes "n < 32"
  shows "bit (tests o_flags_tab f a) n \<longleftrightarrow> bit a n \<or> pairs_bit
     [(11, 2), (10, 3), (12, 7), (11, 2), (13, 6), (6, 9), (9, 10), (7, 11), (8, 17), (15, 8), (14, 20)] (bit f) n"
    "bit (tests darwin_o_flags_tab g 0) n \<longleftrightarrow> pairs_bit
     [(0, 0), (1, 1), (3, 10), (2, 11), (7, 13), (9, 6), (10, 9), (11, 7), (17, 8), (8, 15), (20, 14), (24, 19), (22, 12), (6, 13)] (bit g) n"
proof -
  have l: "o_flags_tab = map (\<lambda>(k, j). (2 ^ k, 2 ^ j))
     [(11, 2), (10, 3), (12, 7), (11, 2), (13, 6), (6, 9), (9, 10), (7, 11), (8, 17), (15, 8), (14, 20)]"
    by (simp add: o_flags_tab_def)
  show "bit (tests o_flags_tab f a) n \<longleftrightarrow> bit a n \<or> pairs_bit
     [(11, 2), (10, 3), (12, 7), (11, 2), (13, 6), (6, 9), (9, 10), (7, 11), (8, 17), (15, 8), (14, 20)] (bit f) n"
    unfolding l by (rule bit_tests_pairs [OF assms])
  have d: "darwin_o_flags_tab = (0, 0) # map (\<lambda>(k, j). (2 ^ k, 2 ^ j))
     [(0, 0), (1, 1), (3, 10), (2, 11), (7, 13), (9, 6), (10, 9), (11, 7), (17, 8), (8, 15), (20, 14), (24, 19), (22, 12), (6, 13)]"
    by (simp add: darwin_o_flags_tab_def)
  show "bit (tests darwin_o_flags_tab g 0) n \<longleftrightarrow> pairs_bit
     [(0, 0), (1, 1), (3, 10), (2, 11), (7, 13), (9, 6), (10, 9), (11, 7), (17, 8), (8, 15), (20, 14), (24, 19), (22, 12), (6, 13)] (bit g) n"
    unfolding d tests_Cons by (subst bit_tests_pairs [OF assms]) simp
qed

lemma access_mode:
  fixes f :: u32
  assumes "f AND 3 \<noteq> 3"
  shows "(if f AND 3 = 1 then 1 else if f AND 3 = 2 then 2 else 0) = f AND 3"
proof -
  have "f AND 3 = 0 \<or> f AND 3 = 1 \<or> f AND 3 = 2 \<or> f AND 3 = 3"
  proof -
    have "f AND 3 \<le> 3" by (rule word_and_le1)
    then have "unat (f AND 3) \<in> {0, 1, 2, 3}" by (auto simp: word_le_nat_alt)
    then show ?thesis by (auto simp: word_unat_eq_iff)
  qed
  then show ?thesis using assms by auto
qed



section \<open>Windows, signals, locks and limits\<close>

record winsize =
  ws_row :: u16
  ws_col :: u16
  ws_xpixel :: u16
  ws_ypixel :: u16

record linux_winsize =
  lws_row :: u16
  lws_col :: u16
  lws_xpixel :: u16
  lws_ypixel :: u16

definition darwin_to_linux_winsize :: "winsize \<Rightarrow> linux_winsize" where
  "darwin_to_linux_winsize ws =
     \<lparr> lws_row = ws_row ws, lws_col = ws_col ws, lws_xpixel = ws_xpixel ws, lws_ypixel = ws_ypixel ws \<rparr>"

definition linux_to_darwin_winsize :: "linux_winsize \<Rightarrow> winsize" where
  "linux_to_darwin_winsize lws =
     \<lparr> ws_row = lws_row lws, ws_col = lws_col lws, ws_xpixel = lws_xpixel lws, ws_ypixel = lws_ypixel lws \<rparr>"

definition linux_to_darwin_signal :: "nat \<Rightarrow> int \<Rightarrow> int" where
  "linux_to_darwin_signal cnt signum = (if signum < 32 then linux_to_darwin_signum cnt signum else 0)"

definition darwin_to_linux_signal :: "nat \<Rightarrow> int \<Rightarrow> int" where
  "darwin_to_linux_signal cnt signum = (if signum < 32 then darwin_to_linux_signum cnt signum else 0)"

text \<open>
  Signal sets: a 64-bit mask on Linux; on the host a 32-bit word that only \<^verbatim>\<open>sigaddset\<close> and
  \<^verbatim>\<open>sigismember\<close> look into, which are arguments.
\<close>

definition LINUX_SIGISMEMBER :: "u64 \<Rightarrow> nat \<Rightarrow> bool" where
  "LINUX_SIGISMEMBER m sig = (1 AND drop_bit (sig - 1) m \<noteq> 0)"

definition LINUX_SIGADDSET :: "nat \<Rightarrow> u64 \<Rightarrow> u64" where
  "LINUX_SIGADDSET sig m = m OR push_bit (sig - 1) 1"

definition linux_to_darwin_sigset :: "nat \<Rightarrow> (int \<Rightarrow> u32 \<Rightarrow> u32) \<Rightarrow> u64 \<Rightarrow> u32" where
  "linux_to_darwin_sigset cnt sigaddset lset =
     fold (\<lambda>i dset.
         if \<not> LINUX_SIGISMEMBER lset i then dset
         else if i = 16 \<or> i = 30 \<comment> \<open>\<^verbatim>\<open>SIGSTKFLT\<close>, \<^verbatim>\<open>SIGPWR\<close>\<close> then dset
         else sigaddset (linux_to_darwin_signal cnt (int i)) dset)
       [1..<65] 0"

definition darwin_to_linux_sigset :: "nat \<Rightarrow> (u32 \<Rightarrow> int \<Rightarrow> bool) \<Rightarrow> u32 \<Rightarrow> u64" where
  "darwin_to_linux_sigset cnt sigismember dset =
     fold (\<lambda>i lset.
         if sigismember dset (int i)
         then let num = darwin_to_linux_signal cnt (int i) in if num > 0 then LINUX_SIGADDSET (nat num) lset else lset
         else lset)
       [1..<33] 0"

record d_sigaction =
  sa_mask :: u32
  sa_handler :: u64
  sa_flags :: u32

record l_sigaction =
  lsa_handler :: u64
  lsa_flags :: u64
  lsa_restorer :: u64
  lsa_mask :: u64

definition sa_tab :: "(u32 \<times> u64) list" where
  "sa_tab =
     [(0x8, 0x1) \<comment> \<open>\<^verbatim>\<open>SA_NOCLDSTOP\<close>\<close>, (0x20, 0x2) \<comment> \<open>\<^verbatim>\<open>SA_NOCLDWAIT\<close>\<close>, (0x40, 0x4) \<comment> \<open>\<^verbatim>\<open>SA_SIGINFO\<close>\<close>,
      (0x1, 0x8000000) \<comment> \<open>\<^verbatim>\<open>SA_ONSTACK\<close>\<close>, (0x2, 0x10000000) \<comment> \<open>\<^verbatim>\<open>SA_RESTART\<close>\<close>,
      (0x4, 0x80000000) \<comment> \<open>\<^verbatim>\<open>SA_RESETHAND\<close>, \<^verbatim>\<open>SA_ONESHOT\<close>\<close>,
      (0x10, 0x40000000) \<comment> \<open>\<^verbatim>\<open>SA_NODEFER\<close>, \<^verbatim>\<open>SA_NOMASK\<close>\<close>]"

definition linux_to_darwin_sigaction :: "nat \<Rightarrow> (int \<Rightarrow> u32 \<Rightarrow> u32) \<Rightarrow> l_sigaction \<Rightarrow> u64 \<Rightarrow> d_sigaction" where
  "linux_to_darwin_sigaction cnt sigaddset lsa handler =
     \<lparr> sa_mask = linux_to_darwin_sigset cnt sigaddset (lsa_mask lsa), sa_handler = handler,
       sa_flags = tests (swap_cols sa_tab) (lsa_flags lsa) 0 \<rparr>"

definition darwin_to_linux_sigaction :: "nat \<Rightarrow> (u32 \<Rightarrow> int \<Rightarrow> bool) \<Rightarrow> d_sigaction \<Rightarrow> u64 \<Rightarrow> l_sigaction" where
  "darwin_to_linux_sigaction cnt sigismember dsa handler =
     \<lparr> lsa_handler = handler, lsa_flags = tests sa_tab (sa_flags dsa) 0, lsa_restorer = 0,
       lsa_mask = darwin_to_linux_sigset cnt sigismember (sa_mask dsa) \<rparr>"

record flock =
  l_type :: u16
  l_whence :: u16
  l_start :: u64
  l_len :: u64
  l_pid :: u32

text \<open>
  Darwin numbers read, unlock and write locks 1, 2 and 3.  A type that is none of them
  leaves the field of the Linux structure as it was.
\<close>

definition linux_to_darwin_flock :: "flock \<Rightarrow> flock" where
  "linux_to_darwin_flock l =
     l\<lparr> l_type := (if l_type l = 0 then 1 else if l_type l = 1 then 3 else if l_type l = 2 then 2 else - 1) \<rparr>"

definition darwin_to_linux_flock :: "flock \<Rightarrow> flock \<Rightarrow> flock" where
  "darwin_to_linux_flock d old =
     d\<lparr> l_type := (if l_type d = 1 then 0 else if l_type d = 3 then 1 else if l_type d = 2 then 2 else l_type old) \<rparr>"

record rlimit =
  rlim_cur :: u64
  rlim_max :: u64

definition RLIM_INFINITY :: u64 where
  "RLIM_INFINITY = 0x7fffffffffffffff"

definition LINUX_RLIM_INFINITY :: u64 where
  "LINUX_RLIM_INFINITY = - 1"

definition vkern_fdtable_maxsize :: u64 where
  "vkern_fdtable_maxsize = 64"

definition darwin_to_linux_rlimit_nofile :: "rlimit \<Rightarrow> rlimit" where
  "darwin_to_linux_rlimit_nofile d =
     \<lparr> rlim_cur = (if rlim_cur d = RLIM_INFINITY then LINUX_RLIM_INFINITY else rlim_cur d - vkern_fdtable_maxsize),
       rlim_max = (if rlim_max d = RLIM_INFINITY then LINUX_RLIM_INFINITY else rlim_max d - vkern_fdtable_maxsize) \<rparr>"

definition linux_to_darwin_rlimit_nofile :: "rlimit \<Rightarrow> rlimit" where
  "linux_to_darwin_rlimit_nofile l =
     \<lparr> rlim_cur = (if rlim_cur l = LINUX_RLIM_INFINITY then RLIM_INFINITY else rlim_cur l + vkern_fdtable_maxsize),
       rlim_max = (if rlim_max l = LINUX_RLIM_INFINITY then RLIM_INFINITY else rlim_max l + vkern_fdtable_maxsize) \<rparr>"

definition darwin_to_linux_rlimit :: "int \<Rightarrow> rlimit \<Rightarrow> rlimit" where
  "darwin_to_linux_rlimit resource d =
     (if resource = 8 \<comment> \<open>\<^verbatim>\<open>RLIMIT_NOFILE\<close>\<close> then darwin_to_linux_rlimit_nofile d
      else \<lparr> rlim_cur = (if rlim_cur d = RLIM_INFINITY then LINUX_RLIM_INFINITY else rlim_cur d),
             rlim_max = (if rlim_max d = RLIM_INFINITY then LINUX_RLIM_INFINITY else rlim_max d) \<rparr>)"

section \<open>Signal actions there and back\<close>

lemma fold_bits:
  fixes s :: "'a::len word"
  assumes "\<And>i d. i \<in> set xs \<Longrightarrow> P i \<Longrightarrow> step i d = d OR push_bit (f i) 1" "\<And>i d. i \<in> set xs \<Longrightarrow> \<not> P i \<Longrightarrow> step i d = d"
    and "n < LENGTH('a)"
  shows "bit (fold step xs s) n \<longleftrightarrow> bit s n \<or> (\<exists>i\<in>set xs. P i \<and> f i = n)"
  using assms(1,2)
proof (induction xs arbitrary: s)
  case (Cons x xs)
  show ?case
  proof (cases "P x")
    case True
    then have "bit (step x s) n \<longleftrightarrow> bit s n \<or> f x = n"
      using Cons.prems(1) [of x s] assms(3) by (auto simp: bit_or_iff bit_exp_iff)
    then show ?thesis using Cons True by auto
  next
    case False
    then show ?thesis using Cons by auto
  qed
qed simp

lemma sigismember_bit: "LINUX_SIGISMEMBER m i \<longleftrightarrow> bit m (i - 1)"
  by (simp add: LINUX_SIGISMEMBER_def and_exp_eq_0_iff_not_bit [of _ 0, simplified] one_and_eq odd_iff_mod_2_eq_one [symmetric] bit_iff_odd_drop_bit)

text \<open>The signals both systems have, Linux numbers first.\<close>

definition shared_signals :: "(nat \<times> nat) list" where
  "shared_signals = [(1, 1), (2, 2), (3, 3), (4, 4), (5, 5), (6, 6), (7, 10), (8, 8), (9, 9), (10, 30), (11, 11),
     (12, 31), (13, 13), (14, 14), (15, 15), (17, 20), (18, 19), (19, 17), (20, 18), (21, 21), (22, 22), (23, 16),
     (24, 24), (25, 25), (26, 26), (27, 27), (28, 28), (29, 23), (31, 12)]"

lemma to_darwin_shared:
  "(i, j) \<in> set shared_signals \<Longrightarrow> linux_to_darwin_signal cnt (int i) = int j"
  by (auto simp: shared_signals_def linux_to_darwin_signal_def linux_to_darwin_signum_def LINUX_STSIGNUM_def)

lemma to_linux_shared:
  "(i, j) \<in> set shared_signals \<Longrightarrow> darwin_to_linux_signal cnt (int j) = int i"
  by (auto simp: shared_signals_def darwin_to_linux_signal_def darwin_to_linux_signum_def LINUX_STSIGNUM_def specific_def)

lemma to_linux_other:
  "j \<in> {7, 29, 32} \<Longrightarrow> darwin_to_linux_signal cnt (int j) \<le> 0"
  by (auto simp: darwin_to_linux_signal_def darwin_to_linux_signum_def LINUX_STSIGNUM_def specific_def)

lemma shared_range: "(i, j) \<in> set shared_signals \<Longrightarrow> 1 \<le> i \<and> i \<le> 31 \<and> i \<noteq> 16 \<and> i \<noteq> 30 \<and> 1 \<le> j \<and> j \<le> 31"
  by (auto simp: shared_signals_def)

lemma shared_linux: "1 \<le> i \<Longrightarrow> i \<le> 31 \<Longrightarrow> i \<noteq> 16 \<Longrightarrow> i \<noteq> 30 \<Longrightarrow> \<exists>j. (i, j) \<in> set shared_signals"
proof -
  assume "1 \<le> i" "i \<le> 31" "i \<noteq> 16" "i \<noteq> 30"
  then have "i \<in> set (map fst shared_signals)" by (simp add: shared_signals_def, presburger)
  then show ?thesis by auto
qed

lemma shared_darwin: "1 \<le> j \<Longrightarrow> j \<le> 32 \<Longrightarrow> j \<notin> {7, 29, 32} \<Longrightarrow> \<exists>i. (i, j) \<in> set shared_signals"
proof -
  assume "1 \<le> j" "j \<le> 32" "j \<notin> {7, 29, 32}"
  then have "j \<in> set (map snd shared_signals)" by (simp add: shared_signals_def, presburger)
  then show ?thesis by auto
qed

text \<open>
  The host's operations on its sets, as documented: \<^verbatim>\<open>sigaddset\<close> puts one of the host's
  signals into a set, and \<^verbatim>\<open>sigismember\<close> finds it there.
\<close>

definition adds_signals :: "(int \<Rightarrow> u32 \<Rightarrow> u32) \<Rightarrow> bool" where
  "adds_signals sigaddset \<longleftrightarrow> (\<forall>s\<in>{1..31}. \<forall>d. sigaddset s d = d OR push_bit (nat s - 1) 1)"

definition tests_signals :: "(u32 \<Rightarrow> int \<Rightarrow> bool) \<Rightarrow> bool" where
  "tests_signals sigismember \<longleftrightarrow> (\<forall>s\<in>{1..32}. \<forall>d. sigismember d s = bit d (nat s - 1))"

definition shared_mask :: "u64 \<Rightarrow> bool" where
  "shared_mask m \<longleftrightarrow> list_all (\<lambda>i. \<not> LINUX_SIGISMEMBER m i) (16 # 30 # [32..<65])"

lemma shared_mask_signal:
  assumes "shared_mask m" "bit m (i - 1)" "1 \<le> i" "i < 65"
  shows "\<exists>j. (i, j) \<in> set shared_signals"
proof (rule shared_linux)
  have no: "\<not> bit m 15" "\<not> bit m 29" "\<And>i. 32 \<le> i \<Longrightarrow> i < 65 \<Longrightarrow> \<not> bit m (i - 1)"
    using assms(1) unfolding shared_mask_def list_all_iff set_simps set_upt sigismember_bit by auto
  show "i \<le> 31" using no(3) [of i] assms by linarith
  show "i \<noteq> 16" "i \<noteq> 30" using no assms(2) by auto
qed (rule assms(3))

lemma to_darwin_bit:
  assumes "adds_signals sigaddset" "shared_mask m" "j \<le> 31"
  shows "bit (linux_to_darwin_sigset cnt sigaddset m) j \<longleftrightarrow>
    (\<exists>i. (i, Suc j) \<in> set shared_signals \<and> bit m (i - 1))"
proof -
  have sh: "\<exists>j. (i, j) \<in> set shared_signals" if "i \<in> set [1..<65]" "bit m (i - 1)" for i
    using that shared_mask_signal [OF assms(2)] by simp
  have "bit (linux_to_darwin_sigset cnt sigaddset m) j \<longleftrightarrow>
      bit (0 :: u32) j \<or> (\<exists>i\<in>set [1..<65]. bit m (i - 1) \<and> nat (linux_to_darwin_signal cnt (int i)) - 1 = j)"
    unfolding linux_to_darwin_sigset_def
  proof (rule fold_bits)
    fix i d assume i: "i \<in> set [1..<65]" "bit m (i - 1)"
    then obtain j where j: "(i, j) \<in> set shared_signals" using sh by blast
    then show "(if \<not> LINUX_SIGISMEMBER m i then d else if i = 16 \<or> i = 30 then d
        else sigaddset (linux_to_darwin_signal cnt (int i)) d) = d OR push_bit (nat (linux_to_darwin_signal cnt (int i)) - 1) 1"
      using i shared_range [OF j] assms(1) to_darwin_shared [OF j] by (simp add: sigismember_bit adds_signals_def)
  qed (use assms(3) in \<open>auto simp: sigismember_bit\<close>)
  also have "\<dots> \<longleftrightarrow> (\<exists>i. (i, Suc j) \<in> set shared_signals \<and> bit m (i - 1))"
  proof -
    have "nat (linux_to_darwin_signal cnt (int i)) - 1 = j \<longleftrightarrow> (i, Suc j) \<in> set shared_signals"
      if i: "i \<in> set [1..<65]" "bit m (i - 1)" for i
    proof -
      obtain j' where j': "(i, j') \<in> set shared_signals" using sh [OF i] by blast
      have "(i, Suc j) \<in> set shared_signals \<Longrightarrow> Suc j = j'"
        using to_darwin_shared [of i "Suc j" cnt] to_darwin_shared [OF j', of cnt] by simp
      then show ?thesis using to_darwin_shared [OF j', of cnt] shared_range [OF j'] j' by auto
    qed
    moreover have "(i, Suc j) \<in> set shared_signals \<Longrightarrow> i \<in> set [1..<65]" for i using shared_range by fastforce
    ultimately show ?thesis by (metis (no_types, lifting) bit_0_eq bot_apply bot_bool_def)
  qed
  finally show ?thesis .
qed

lemma sigset_roundtrip:
  assumes "adds_signals sigaddset" "tests_signals sigismember" "shared_mask m"
  shows "darwin_to_linux_sigset cnt sigismember (linux_to_darwin_sigset cnt' sigaddset m) = m"
proof (rule bit_word_eqI)
  fix n assume n: "n < LENGTH(64)"
  define d where "d = linux_to_darwin_sigset cnt' sigaddset m"
  have d: "bit d j \<longleftrightarrow> (\<exists>i. (i, Suc j) \<in> set shared_signals \<and> bit m (i - 1))" if "j \<le> 31" for j
    unfolding d_def by (rule to_darwin_bit [OF assms(1,3) that])
  have "bit (darwin_to_linux_sigset cnt sigismember d) n \<longleftrightarrow> bit (0 :: u64) n \<or>
    (\<exists>j\<in>set [1..<33]. (bit d (j - 1) \<and> darwin_to_linux_signal cnt (int j) > 0) \<and> nat (darwin_to_linux_signal cnt (int j)) - 1 = n)"
    unfolding darwin_to_linux_sigset_def
    by (rule fold_bits) (use n assms(2) in \<open>auto simp: tests_signals_def LINUX_SIGADDSET_def Let_def\<close>)
  also have "\<dots> \<longleftrightarrow> (\<exists>i j. (i, j) \<in> set shared_signals \<and> bit m (i - 1) \<and> i - 1 = n)"
  proof
    assume "bit (0 :: u64) n \<or> (\<exists>j\<in>set [1..<33]. (bit d (j - 1) \<and> darwin_to_linux_signal cnt (int j) > 0) \<and>
      nat (darwin_to_linux_signal cnt (int j)) - 1 = n)"
    then obtain j where j: "1 \<le> j" "j \<le> 32" "bit d (j - 1)" "nat (darwin_to_linux_signal cnt (int j)) - 1 = n" by auto
    then have "\<exists>i. (i, Suc (j - 1)) \<in> set shared_signals \<and> bit m (i - 1)" using d [of "j - 1"] by simp
    then obtain i where "(i, j) \<in> set shared_signals" "bit m (i - 1)" using j(1) by auto
    then show "\<exists>i j. (i, j) \<in> set shared_signals \<and> bit m (i - 1) \<and> i - 1 = n"
      using j(4) to_linux_shared by fastforce
  next
    assume "\<exists>i j. (i, j) \<in> set shared_signals \<and> bit m (i - 1) \<and> i - 1 = n"
    then obtain i j where ij: "(i, j) \<in> set shared_signals" "bit m (i - 1)" "i - 1 = n" by blast
    then have "bit d (j - 1)" using d [of "j - 1"] shared_range [OF ij(1)] by auto
    then show "bit (0 :: u64) n \<or> (\<exists>j\<in>set [1..<33]. (bit d (j - 1) \<and> darwin_to_linux_signal cnt (int j) > 0) \<and>
      nat (darwin_to_linux_signal cnt (int j)) - 1 = n)"
      using ij shared_range [OF ij(1)] to_linux_shared [OF ij(1)] by (intro disjI2 bexI [of _ j]) auto
  qed
  also have "\<dots> \<longleftrightarrow> bit m n"
  proof
    assume "bit m n"
    then obtain j where "(Suc n, j) \<in> set shared_signals" using shared_mask_signal [OF assms(3), of "Suc n"] n by auto
    then show "\<exists>i j. (i, j) \<in> set shared_signals \<and> bit m (i - 1) \<and> i - 1 = n" using \<open>bit m n\<close> by force
  qed auto
  finally show "bit (darwin_to_linux_sigset cnt sigismember (linux_to_darwin_sigset cnt' sigaddset m)) n = bit m n"
    by (simp add: d_def)
qed

text \<open>
  C37: A signal action whose flags and blocked signals Darwin has, made by a guest through
  the conversion to Darwin, reads back as it was made, the restorer apart, which
  Darwin does not keep.
\<close>

theorem sigaction_roundtrip:
  assumes "adds_signals sigaddset" "tests_signals sigismember" "shared_mask (lsa_mask l)"
    and "whole (map snd sa_tab) (lsa_flags l)"
  shows "darwin_to_linux_sigaction cnt sigismember (linux_to_darwin_sigaction cnt' sigaddset l h) (lsa_handler l)
    = l\<lparr> lsa_restorer := 0 \<rparr>"
proof -
  have "tests sa_tab (tests (swap_cols sa_tab) (lsa_flags l) 0) 0 = lsa_flags l"
    by (rule flags_roundtrip [OF _ assms(4)]) (simp add: sa_tab_def)
  then show ?thesis
    using sigset_roundtrip [OF assms(1-3)]
    by (simp add: darwin_to_linux_sigaction_def linux_to_darwin_sigaction_def)
qed

definition usr_action :: l_sigaction where
  "usr_action = \<lparr> lsa_handler = 0x400000, lsa_flags = 0x10000004, lsa_restorer = 0x500000, lsa_mask = 0xa00 \<rparr>"

theorem sigaction_roundtrip_witness:
  "darwin_to_linux_sigaction 0 (\<lambda>d s. bit d (nat s - 1))
     (linux_to_darwin_sigaction 3 (\<lambda>s d. d OR push_bit (nat s - 1) 1) usr_action 0x1000) 0x400000
   = usr_action\<lparr> lsa_restorer := 0 \<rparr>"
  using sigaction_roundtrip [of "\<lambda>s d. d OR push_bit (nat s - 1) 1" "\<lambda>d s. bit d (nat s - 1)" usr_action 0 3 "0x1000"]
  by (simp add: usr_action_def adds_signals_def tests_signals_def shared_mask_def LINUX_SIGISMEMBER_def upt_rec
      whole_def sa_tab_def)

lemma flock_roundtrip:
  "l_type l \<in> {0, 1, 2} \<Longrightarrow> darwin_to_linux_flock (linux_to_darwin_flock l) old = l"
  by (auto simp: darwin_to_linux_flock_def linux_to_darwin_flock_def)

text \<open>
  A limit that the guest read can be written back without eroding the host's; the one
  number that the shift turns into Darwin's infinity cannot.
\<close>

lemma rlimit_nofile_roundtrip:
  assumes "rlim_cur l \<noteq> RLIM_INFINITY - vkern_fdtable_maxsize" "rlim_max l \<noteq> RLIM_INFINITY - vkern_fdtable_maxsize"
  shows "darwin_to_linux_rlimit_nofile (linux_to_darwin_rlimit_nofile l) = l"
proof -
  have "x + 64 = y \<longleftrightarrow> x = y - 64" for x y :: u64 by (auto simp: algebra_simps)
  then show ?thesis
    using assms
    by (simp add: darwin_to_linux_rlimit_nofile_def linux_to_darwin_rlimit_nofile_def RLIM_INFINITY_def
        LINUX_RLIM_INFINITY_def vkern_fdtable_maxsize_def)
qed

section \<open>File system status\<close>

record statfs =
  sf_fstypename :: string
  sf_bsize :: u32
  sf_blocks :: u64
  sf_bfree :: u64
  sf_bavail :: u64
  sf_files :: u64
  sf_ffree :: u64
  sf_fsid0 :: u32
  sf_fsid1 :: u32
  sf_flags :: u32

record l_statfs =
  f_type :: u64
  f_bsize :: u64
  f_blocks :: u64
  f_bfree :: u64
  f_bavail :: u64
  f_files :: u64
  f_ffree :: u64
  f_fsid0 :: u32
  f_fsid1 :: u32
  f_namelen :: u64
  f_frsize :: u64
  f_flags :: u64

definition mnt_tab :: "(u32 \<times> u64) list" where
  "mnt_tab =
     [(0x1, 0x1) \<comment> \<open>\<^verbatim>\<open>MNT_RDONLY\<close>\<close>, (0x8, 0x2) \<comment> \<open>\<^verbatim>\<open>MNT_NOSUID\<close>\<close>, (0x10, 0x4) \<comment> \<open>\<^verbatim>\<open>MNT_NODEV\<close>\<close>,
      (0x4, 0x8) \<comment> \<open>\<^verbatim>\<open>MNT_NOEXEC\<close>\<close>, (0x2, 0x10) \<comment> \<open>\<^verbatim>\<open>MNT_SYNCHRONOUS\<close>\<close>]"

definition statfs_darwin_to_linux :: "statfs \<Rightarrow> l_statfs" where
  "statfs_darwin_to_linux s =
     \<lparr> f_type = (if sf_fstypename s = ''procfs'' then 0x9fa0
                else if sf_fstypename s = ''sysfs'' then 0x62656572
                else if sf_fstypename s = ''devfs'' \<or> sf_fstypename s = ''tmpfs'' then 0x01021994
                else 0x4244),
       f_bsize = ucast (sf_bsize s), f_blocks = sf_blocks s, f_bfree = sf_bfree s, f_bavail = sf_bavail s,
       f_files = sf_files s, f_ffree = sf_ffree s, f_fsid0 = sf_fsid0 s, f_fsid1 = sf_fsid1 s,
       f_namelen = 255, f_frsize = ucast (sf_bsize s),
       f_flags = tests mnt_tab (sf_flags s) 0x20 \<rparr>"

end
