(* ===== verification/Spec2Isabelle.thy ===== *)
theory Spec2Isabelle
  imports Seccomp Mem_Policy Conv
begin

text \<open>
  A verification of the core of NABI, a translator that runs Linux programs as
  macOS processes.
\<close>

end
